(* ===== verification/IO_Prelude.thy ===== *)
theory IO_Prelude
  imports Main "HOL-Library.Word" "HOL-Library.Signed_Division" "HOL-Library.Multiset" "HOL-Library.Sublist"
begin

unbundle bit_operations_syntax

text \<open>
  Shared vocabulary of the development: machine types, faults, C++ integer conversions and
  division, the interface of absl::Duration that the sources use, and the generic lemmas on
  lists, association lists and bit masks that the component theories rest on.

  Two collections drive the component proofs: \<open>io_simps\<close> holds the equations that unfold small
  helper operations, \<open>flag_simps\<close> holds the lemmas on bit masks.
\<close>

named_theorems io_simps
named_theorems flag_simps

section \<open>Machine types and faults\<close>

type_synonym u8 = "8 word"
type_synonym u16 = "16 word"
type_synonym u32 = "32 word"
type_synonym u64 = "64 word"

text \<open>
  What can end a C++ execution abnormally: a failed \<^verbatim>\<open>ABSL_CHECK\<close> (which aborts), or a step whose
  behaviour the language leaves undefined, such as dereferencing an end or dangling iterator.
\<close>

datatype fault = CHECK_failed | UB

section \<open>Integer conversions and division\<close>

text \<open>
  \<^verbatim>\<open>static_cast<int32_t>\<close>, \<^verbatim>\<open>static_cast<uint32_t>\<close> and the implicit narrowing of an \<^verbatim>\<open>int64_t\<close>
  to \<^verbatim>\<open>int\<close> all keep the low 32 bits.  Division and remainder on signed integers truncate
  towards zero: \<open>sdiv\<close> and \<open>smod\<close> of the library.
\<close>

definition to_uint32 :: "int \<Rightarrow> u32" where
  "to_uint32 x = word_of_int x"

definition to_int32 :: "int \<Rightarrow> int" where
  "to_int32 x = sint (to_uint32 x)"

definition fits_int32 :: "int \<Rightarrow> bool" where
  "fits_int32 x \<longleftrightarrow> - (2 ^ 31) \<le> x \<and> x < 2 ^ 31"

lemma to_int32_id: "fits_int32 x \<Longrightarrow> to_int32 x = x"
  by (simp add: to_int32_def to_uint32_def fits_int32_def sint_sbintrunc'
      signed_take_bit_int_eq_self)

lemma to_int32_range: "fits_int32 (to_int32 x)"
  using sint_greater_eq [of "to_uint32 x"] sint_lt [of "to_uint32 x"]
  by (simp add: to_int32_def fits_int32_def)

lemma to_uint32_to_int32 [simp]: "to_uint32 (to_int32 x) = to_uint32 x"
  by (simp add: to_int32_def to_uint32_def)

lemma uint_minus_one_u32 [simp]: "uint (- 1 :: u32) = 4294967295"
  by (simp add: unsigned_minus_1_eq_mask mask_eq_exp_minus_1)

lemma sdiv_nonneg_eq [simp]: "0 \<le> (a::int) \<Longrightarrow> 0 < b \<Longrightarrow> a sdiv b = a div b"
  by (cases "a = 0") (simp_all add: signed_divide_int_def)

lemma smod_nonneg_eq [simp]: "0 \<le> (a::int) \<Longrightarrow> 0 < b \<Longrightarrow> a smod b = a mod b"
  by (cases "a = 0") (simp_all add: signed_modulo_int_def)

lemma sdiv_neg_eq: "(a::int) < 0 \<Longrightarrow> 0 < b \<Longrightarrow> a sdiv b = - ((- a) div b)"
  by (simp add: signed_divide_int_def)

lemma sdiv_mono:
  fixes a b c :: int
  assumes "a \<le> b" and "0 < c"
  shows "a sdiv c \<le> b sdiv c"
proof (cases "0 \<le> a")
  case True
  with assms show ?thesis by (simp add: zdiv_mono1)
next
  case False
  show ?thesis
  proof (cases "0 \<le> b")
    case True
    have "0 \<le> (- a) div c" using False assms(2) by (simp add: pos_imp_zdiv_nonneg_iff)
    moreover have "0 \<le> b div c" using True assms(2) by (simp add: pos_imp_zdiv_nonneg_iff)
    ultimately show ?thesis using True False assms(2) by (simp add: sdiv_neg_eq)
  next
    case b: False
    have "(- b) div c \<le> (- a) div c" using assms by (simp add: zdiv_mono1)
    then show ?thesis using b False assms(2) by (simp add: sdiv_neg_eq)
  qed
qed

section \<open>The absl::Duration interface\<close>

text \<open>
  absl is fetched by the build and is not part of the sources, so the operations the code calls
  on durations are parameters: a record of functions over an abstract duration type.
  \<open>absl_duration_ok\<close> collects the documented behaviour some properties rely on: conversions
  truncate towards zero, whole microseconds convert back exactly, subtracting whole microseconds
  commutes with the conversion up to that truncation, and the comparison is an order that agrees
  with the conversions.
\<close>

record 'd absl_duration =
  InfiniteDuration :: "'d"
  ZeroDuration :: "'d"
  ToInt64Milliseconds :: "'d \<Rightarrow> int"
  ToInt64Microseconds :: "'d \<Rightarrow> int"
  Microseconds :: "int \<Rightarrow> 'd"
  dur_minus :: "'d \<Rightarrow> 'd \<Rightarrow> 'd"
  dur_le :: "'d \<Rightarrow> 'd \<Rightarrow> bool"

definition dur_max :: "('d, 'z) absl_duration_scheme \<Rightarrow> 'd \<Rightarrow> 'd \<Rightarrow> 'd" where
  "dur_max A a b = (if \<not> dur_le A b a then b else a)"

definition absl_duration_ok :: "('d, 'z) absl_duration_scheme \<Rightarrow> bool" where
  "absl_duration_ok A \<longleftrightarrow>
     (\<forall>n. ToInt64Microseconds A (Microseconds A n) = n) \<and>
     (\<forall>n. ToInt64Milliseconds A (Microseconds A n) = n sdiv 1000) \<and>
     (\<forall>d n. 0 \<le> n \<longrightarrow> ToInt64Microseconds A d - n
               \<le> ToInt64Microseconds A (dur_minus A d (Microseconds A n))) \<and>
     (\<forall>m n. dur_le A (Microseconds A m) (Microseconds A n) \<longleftrightarrow> m \<le> n) \<and>
     ZeroDuration A = Microseconds A 0 \<and>
     (\<forall>d. \<not> dur_le A d (ZeroDuration A) \<longrightarrow> 0 \<le> ToInt64Microseconds A d)"

lemma absl_duration_okD:
  assumes "absl_duration_ok A"
  shows "ToInt64Microseconds A (Microseconds A n) = n"
    and "ToInt64Milliseconds A (Microseconds A n) = n sdiv 1000"
    and "0 \<le> n \<Longrightarrow> ToInt64Microseconds A d - n
           \<le> ToInt64Microseconds A (dur_minus A d (Microseconds A n))"
    and "dur_le A (Microseconds A m) (Microseconds A n) \<longleftrightarrow> m \<le> n"
    and "ZeroDuration A = Microseconds A 0"
    and "\<not> dur_le A d (ZeroDuration A) \<Longrightarrow> 0 \<le> ToInt64Microseconds A d"
  using assms unfolding absl_duration_ok_def by blast+

lemma dur_max_Microseconds [io_simps]:
  "absl_duration_ok A \<Longrightarrow>
     dur_max A (Microseconds A m) (Microseconds A n) = Microseconds A (max m n)"
  by (simp add: dur_max_def absl_duration_okD(4) max_def)

text \<open>
  A concrete duration type for witnesses: whole microseconds and an infinite value.
\<close>

datatype micros = Micros int | Forever

definition micros_duration :: "micros absl_duration" where
  "micros_duration =
     \<lparr>InfiniteDuration = Forever, ZeroDuration = Micros 0,
      ToInt64Milliseconds = (\<lambda>d. case d of Micros n \<Rightarrow> n sdiv 1000 | Forever \<Rightarrow> 2 ^ 63 - 1),
      ToInt64Microseconds = (\<lambda>d. case d of Micros n \<Rightarrow> n | Forever \<Rightarrow> 2 ^ 63 - 1),
      Microseconds = Micros,
      dur_minus = (\<lambda>a b. case a of Forever \<Rightarrow> Forever
                     | Micros m \<Rightarrow> (case b of Micros n \<Rightarrow> Micros (m - n) | Forever \<Rightarrow> Micros (- (2 ^ 63)))),
      dur_le = (\<lambda>a b. case b of Forever \<Rightarrow> True
                     | Micros n \<Rightarrow> (case a of Micros m \<Rightarrow> m \<le> n | Forever \<Rightarrow> False))\<rparr>"

lemma micros_duration_simps [simp]:
  "InfiniteDuration micros_duration = Forever" "ZeroDuration micros_duration = Micros 0"
  "ToInt64Milliseconds micros_duration (Micros n) = n sdiv 1000"
  "ToInt64Microseconds micros_duration (Micros n) = n"
  "Microseconds micros_duration = Micros"
  "dur_minus micros_duration (Micros m) (Micros n) = Micros (m - n)"
  "dur_le micros_duration (Micros m) (Micros n) \<longleftrightarrow> m \<le> n"
  by (simp_all add: micros_duration_def)

lemma micros_duration_ok: "absl_duration_ok micros_duration"
  unfolding absl_duration_ok_def micros_duration_def by (auto split: micros.splits)

section \<open>Association lists with distinct keys\<close>

lemma map_of_filter_neq:
  "map_of (filter (\<lambda>p. fst p \<noteq> k) ps) = (map_of ps)(k := None)"
  by (induction ps) (auto simp: fun_eq_iff)

lemma filter_neq_id: "k \<notin> set (map fst ps) \<Longrightarrow> filter (\<lambda>p. fst p \<noteq> k) ps = ps"
  by (rule filter_True) force

lemma distinct_map_eqD:
  "distinct (map f xs) \<Longrightarrow> x \<in> set xs \<Longrightarrow> y \<in> set xs \<Longrightarrow> f x = f y \<Longrightarrow> x = y"
  by (auto simp: distinct_map dest: inj_onD)

section \<open>Bit masks\<close>

lemma mask_subset_trans [flag_simps]: "(a AND m) AND (NOT m) = 0" for a m :: "'a::len word"
  by (simp add: bit_eq_iff bit_simps)

lemma mask_and_absorb [flag_simps]: "(a AND m) AND m = a AND m" for a m :: "'a::len word"
  by (simp add: bit_eq_iff bit_simps)

lemma mask_split [flag_simps]: "(a AND m) OR (a AND NOT m) = a" for a m :: "'a::len word"
  by (auto simp: bit_eq_iff bit_simps)

lemma word_zero_bits: "a = 0 \<longleftrightarrow> (\<forall>n. \<not> bit a n)" for a :: "'a::len word"
proof
  assume "\<forall>n. \<not> bit a n"
  then show "a = 0" by (intro bit_word_eqI) simp
qed simp

lemma and_exp_flag: "a AND 2 ^ n \<noteq> 0 \<Longrightarrow> a AND 2 ^ n = 2 ^ n" for a :: "'a::len word"
  by (rule bit_word_eqI) (auto simp: and_exp_eq_0_iff_not_bit bit_simps)

text \<open>A constant below 2 to the 15 meets a \<^verbatim>\<open>short\<close> in the same bits after sign extension.\<close>

lemma small_const_bit: "c < 2 ^ 15 \<Longrightarrow> bit c n \<Longrightarrow> n < 15" for c :: u32
  using less_mask_eq [of c 15] by (metis bit_and_iff bit_mask_iff)

lemma scast_and_const [flag_simps]:
  assumes "c < 2 ^ 15"
  shows "(scast m :: u32) AND c = 0 \<longleftrightarrow> (m :: u16) AND ucast c = 0"
proof -
  have "bit (scast m :: u32) n = bit m n" if "n < 15" for n
    using that by (simp add: bit_simps min_def)
  moreover have "bit (ucast c :: u16) n = bit c n" for n
    using small_const_bit [OF assms, of n] by (auto simp: bit_simps)
  ultimately show ?thesis
    using small_const_bit [OF assms] by (auto simp: word_zero_bits bit_and_iff)
qed

lemma ucast_and_const [flag_simps]:
  assumes "c < 2 ^ 15"
  shows "(ucast m :: u16) AND ucast c = 0 \<longleftrightarrow> (m :: u32) AND c = 0"
proof -
  have "bit (ucast m :: u16) n = bit m n" if "n < 15" for n
    using that by (simp add: bit_simps)
  moreover have "bit (ucast c :: u16) n = bit c n" for n
    using small_const_bit [OF assms, of n] by (auto simp: bit_simps)
  ultimately show ?thesis
    using small_const_bit [OF assms] by (auto simp: word_zero_bits bit_and_iff)
qed

lemma or_and_zero [flag_simps]: "(a OR b) AND c = 0 \<longleftrightarrow> a AND c = 0 \<and> b AND c = 0"
  for a b c :: "'a::len word"
  by (auto simp: word_zero_bits bit_simps)

lemma ex_less_Suc_iff: "(\<exists>i < length (x # xs). P i) \<longleftrightarrow> P 0 \<or> (\<exists>i < length xs. P (Suc i))"
  by (auto simp: less_Suc_eq_0_disj)

lemma subseq_distinct: "subseq xs ys \<Longrightarrow> distinct ys \<Longrightarrow> distinct xs"
  by (induction rule: list_emb.induct) (auto dest: list_emb_set)

section \<open>Interfaces shared by the components\<close>

text \<open>
  The interleaved parts of the program are step relations.  Their invariants are proved once from
  the two laws below; a schedule, a list of the actors that move, evaluates one interleaving.
\<close>

locale step_invariant =
  fixes step :: "'s \<Rightarrow> 's \<Rightarrow> bool" and start :: "'s" and inv :: "'s \<Rightarrow> bool"
  assumes start: "inv start" and keep: "step s t \<Longrightarrow> inv s \<Longrightarrow> inv t"
begin

lemma reachable: "step\<^sup>*\<^sup>* start t \<Longrightarrow> inv t"
  by (induction rule: rtranclp_induct) (auto intro: start keep)

end

fun run_acts :: "('a \<Rightarrow> 's \<Rightarrow> 's option) \<Rightarrow> 'a list \<Rightarrow> 's \<Rightarrow> 's option" where
  "run_acts act [] s = Some s"
| "run_acts act (a # as) s = Option.bind (act a s) (run_acts act as)"

locale schedule =
  fixes step :: "'s \<Rightarrow> 's \<Rightarrow> bool" and act :: "'a \<Rightarrow> 's \<Rightarrow> 's option"
  assumes act_step: "act a s = Some t \<Longrightarrow> step s t"
begin

lemma run_reachable: "run_acts act as s = Some t \<Longrightarrow> step\<^sup>*\<^sup>* s t"
proof (induction as arbitrary: s)
  case (Cons a as)
  then obtain u where "act a s = Some u" "run_acts act as u = Some t" by (auto simp: bind_eq_Some_conv)
  then show ?case using Cons.IH act_step by (meson converse_rtranclp_into_rtranclp)
qed simp

end

text \<open>
  Work that comes to an end: every step keeps the invariant and uses up some of the work, so a state allows only as
  many steps as it has work, and some state without further steps is reached.
\<close>

locale bounded_work =
  fixes step :: "'s \<Rightarrow> 's \<Rightarrow> bool" and inv :: "'s \<Rightarrow> bool" and work :: "'s \<Rightarrow> nat"
  assumes keeps: "step s t \<Longrightarrow> inv s \<Longrightarrow> inv t" and uses: "step s t \<Longrightarrow> inv s \<Longrightarrow> work t < work s"
begin

lemma steps_bounded: "(step ^^ n) s t \<Longrightarrow> inv s \<Longrightarrow> inv t \<and> n + work t \<le> work s"
proof (induction n arbitrary: t)
  case (Suc n)
  then obtain u where "(step ^^ n) s u" "step u t" by auto
  with Suc.IH [of u] Suc.prems(2) keeps [of u t] uses [of u t] show ?case by linarith
qed simp

lemma comes_to_rest:
  assumes "inv s"
  shows "\<exists>t. step\<^sup>*\<^sup>* s t \<and> inv t \<and> (\<nexists>u. step t u)"
  using assms
proof (induction "work s" arbitrary: s rule: less_induct)
  case less
  show ?case
  proof (cases "\<exists>u. step s u")
    case True
    then obtain u where u: "step s u" by blast
    with less.hyps [of u] less.prems keeps [of s u] uses [of s u] obtain t
      where "step\<^sup>*\<^sup>* u t" "inv t" "\<nexists>v. step t v" by blast
    with u show ?thesis by (meson converse_rtranclp_into_rtranclp)
  qed (use less.prems in blast)
qed

end

text \<open>
  Several classes set a variable in their constructor and put the old value back in their
  destructor.  \<open>scope\<close> is a block that declares such an object; the laws are those of a variable.
\<close>

definition scope :: "('s \<Rightarrow> 'v) \<Rightarrow> ('v \<Rightarrow> 's \<Rightarrow> 's) \<Rightarrow> 'v \<Rightarrow> ('s \<Rightarrow> 's) \<Rightarrow> 's \<Rightarrow> 's" where
  "scope get put v body s = put (get s) (body (put v s))"

locale scoped_variable =
  fixes get :: "'s \<Rightarrow> 'v" and put :: "'v \<Rightarrow> 's \<Rightarrow> 's"
  assumes get_put [simp]: "get (put v s) = v"
    and put_put [simp]: "put v (put w s) = put v s"
    and put_get [simp]: "put (get s) s = s"
begin

lemma scope_restores: "get (scope get put v body s) = get s"
  by (simp add: scope_def)

lemma scope_nested: "scope get put v (scope get put w body) s = scope get put w body s"
  by (simp add: scope_def)

lemma scope_unused:
  assumes "\<And>v s. body (put v s) = put v (body s)" and "\<And>s. get (body s) = get s"
  shows "scope get put v body s = body s"
  using assms(2) [of s] put_get [of "body s"] by (simp add: scope_def assms(1))

end

end
