(* ===== verification/LinkedHashMap.thy ===== *)
theory LinkedHashMap
  imports IO_Prelude
begin

text \<open>
  \<^verbatim>\<open>src/linked_hash_map.h\<close>: an insertion-ordered map that keeps a hash map and a doubly-linked
  list in parallel.  The list is a sequence of nodes, each with its address; an iterator is the
  address of a node, or \<open>None\<close> for \<^verbatim>\<open>end()\<close>.  The hash map sends a key to the iterator of its
  node.  A member \<^verbatim>\<open>x_\<close> of a C++ class is the record field \<open>x_m\<close> here and in the other theories.
  Addresses come from the counter \<open>fresh_m\<close>, which stands for the allocator: a node never
  gets the address of a live one.  Dereferencing \<^verbatim>\<open>end()\<close> or the address of no node is the fault
  \<open>UB\<close>; the \<^verbatim>\<open>ABSL_CHECK\<close> of \<^verbatim>\<open>erase(iterator)\<close> is \<open>CHECK_failed\<close>.

  The theory defines the operations, states the consistency invariant of the two halves, proves
  that every operation keeps it and never faults under it, and that on the sequence of entries
  the operations are those of an ordered association list.  The locale \<open>ordered_map\<close> is the
  contract the event loop relies on.
\<close>

section \<open>State and operations\<close>

type_synonym iterator = "nat option"
type_synonym ('k, 'v) node = "nat \<times> 'k \<times> 'v"

record ('k, 'v) LinkedHashMap =
  map_m :: "'k \<rightharpoonup> nat"
  list_m :: "('k, 'v) node list"
  fresh_m :: nat

definition lhm_new :: "('k, 'v) LinkedHashMap" where
  "lhm_new = \<lparr>map_m = Map.empty, list_m = [], fresh_m = 0\<rparr>"

text \<open>The operations of \<^verbatim>\<open>std::list\<close> that the class uses.\<close>

definition list_begin :: "('k, 'v) node list \<Rightarrow> iterator" where
  "list_begin ns = (case ns of [] \<Rightarrow> None | n # _ \<Rightarrow> Some (fst n))"

fun list_next :: "('k, 'v) node list \<Rightarrow> nat \<Rightarrow> iterator" where
  "list_next [] i = None"
| "list_next (n # ns) i = (if fst n = i then list_begin ns else list_next ns i)"

definition list_erase :: "('k, 'v) node list \<Rightarrow> nat \<Rightarrow> ('k, 'v) node list" where
  "list_erase ns i = filter (\<lambda>n. fst n \<noteq> i) ns"

text \<open>\<^verbatim>\<open>*position\<close>: the entry an iterator points to.\<close>

definition deref :: "('k, 'v) LinkedHashMap \<Rightarrow> iterator \<Rightarrow> fault + ('k \<times> 'v)" where
  "deref m position =
     (case position of
        None \<Rightarrow> Inl UB
      | Some i \<Rightarrow> (case map_of (list_m m) i of None \<Rightarrow> Inl UB | Some kv \<Rightarrow> Inr kv))"

definition lhm_begin :: "('k, 'v) LinkedHashMap \<Rightarrow> iterator" where
  "lhm_begin m = list_begin (list_m m)"

definition lhm_end :: "('k, 'v) LinkedHashMap \<Rightarrow> iterator" where
  "lhm_end m = None"

text \<open>The traversal from \<^verbatim>\<open>rbegin()\<close> to \<^verbatim>\<open>rend()\<close>, as the entries it visits.\<close>

definition lhm_reverse :: "('k, 'v) LinkedHashMap \<Rightarrow> ('k \<times> 'v) list" where
  "lhm_reverse m = map snd (rev (list_m m))"

definition lhm_front :: "('k, 'v) LinkedHashMap \<Rightarrow> fault + ('k \<times> 'v)" where
  "lhm_front m = (case list_m m of [] \<Rightarrow> Inl UB | n # _ \<Rightarrow> Inr (snd n))"

definition lhm_back :: "('k, 'v) LinkedHashMap \<Rightarrow> fault + ('k \<times> 'v)" where
  "lhm_back m = (case rev (list_m m) of [] \<Rightarrow> Inl UB | n # _ \<Rightarrow> Inr (snd n))"

definition lhm_clear :: "('k, 'v) LinkedHashMap \<Rightarrow> ('k, 'v) LinkedHashMap" where
  "lhm_clear m = m\<lparr>map_m := Map.empty, list_m := []\<rparr>"

definition lhm_empty :: "('k, 'v) LinkedHashMap \<Rightarrow> bool" where
  "lhm_empty m \<longleftrightarrow> list_m m = []"

definition erase_key ::
  "('k, 'v) LinkedHashMap \<Rightarrow> 'k \<Rightarrow> fault + ('k, 'v) LinkedHashMap \<times> nat" where
  "erase_key m key =
     (case map_m m key of
        None \<Rightarrow> Inr (m, 0)
      | Some i \<Rightarrow>
          (case map_of (list_m m) i of
             None \<Rightarrow> Inl UB
           | Some _ \<Rightarrow>
               Inr (m\<lparr>list_m := list_erase (list_m m) i, map_m := (map_m m)(key := None)\<rparr>, 1)))"

definition erase_at ::
  "('k, 'v) LinkedHashMap \<Rightarrow> iterator \<Rightarrow> fault + ('k, 'v) LinkedHashMap \<times> iterator" where
  "erase_at m position =
     (case deref m position of
        Inl f \<Rightarrow> Inl f
      | Inr kv \<Rightarrow>
          (case map_m m (fst kv) of
             None \<Rightarrow> Inl UB
           | Some j \<Rightarrow>
               if Some j \<noteq> position then Inl CHECK_failed
               else Inr (m\<lparr>map_m := (map_m m)(fst kv := None), list_m := list_erase (list_m m) j\<rparr>,
                         list_next (list_m m) j)))"

definition pop_front :: "('k, 'v) LinkedHashMap \<Rightarrow> fault + ('k, 'v) LinkedHashMap \<times> iterator" where
  "pop_front m = erase_at m (lhm_begin m)"

lemma erase_at_shorter:
  "erase_at m p = Inr (m', it) \<Longrightarrow> length (list_m m') < length (list_m m)"
proof -
  assume "erase_at m p = Inr (m', it)"
  then obtain j kv where j: "map_of (list_m m) j = Some kv"
    and m': "list_m m' = list_erase (list_m m) j"
    by (auto simp: erase_at_def deref_def split: option.splits sum.splits if_splits)
  from j have "(j, kv) \<in> set (list_m m)" by (rule map_of_SomeD)
  then show ?thesis unfolding m' list_erase_def by (rule length_filter_less) simp
qed

text \<open>\<^verbatim>\<open>erase(first, last)\<close>: the loop stops at \<^verbatim>\<open>last\<close> or at \<^verbatim>\<open>end()\<close>.\<close>

function erase_range ::
  "('k, 'v) LinkedHashMap \<Rightarrow> iterator \<Rightarrow> iterator
     \<Rightarrow> fault + ('k, 'v) LinkedHashMap \<times> iterator" where
  "erase_range m first_it last_it =
     (if first_it \<noteq> last_it \<and> first_it \<noteq> lhm_end m
      then (case erase_at m first_it of
              Inl f \<Rightarrow> Inl f
            | Inr r \<Rightarrow> erase_range (fst r) (snd r) last_it)
      else Inr (m, first_it))"
  by pat_completeness auto
termination
  by (relation "measure (\<lambda>(m, first_it, last_it). length (list_m m))")
     (auto dest: erase_at_shorter)

declare erase_range.simps [simp del]

definition lhm_find :: "('k, 'v) LinkedHashMap \<Rightarrow> 'k \<Rightarrow> iterator" where
  "lhm_find m key = (case map_m m key of None \<Rightarrow> lhm_end m | Some i \<Rightarrow> Some i)"

definition contains :: "('k, 'v) LinkedHashMap \<Rightarrow> 'k \<Rightarrow> bool" where
  "contains m key \<longleftrightarrow> lhm_find m key \<noteq> lhm_end m"

text \<open>
  \<^verbatim>\<open>InsertInternal\<close>: \<^verbatim>\<open>try_emplace\<close> keeps an existing entry; a new key gets a node at the end of
  the list, and the map's slot is set to its iterator.
\<close>

definition InsertInternal ::
  "('k, 'v) LinkedHashMap \<Rightarrow> 'k \<times> 'v \<Rightarrow> ('k, 'v) LinkedHashMap \<times> iterator \<times> bool" where
  "InsertInternal m pair =
     (case map_m m (fst pair) of
        Some i \<Rightarrow> (m, Some i, False)
      | None \<Rightarrow>
          (m\<lparr>list_m := list_m m @ [(fresh_m m, pair)], map_m := (map_m m)(fst pair \<mapsto> fresh_m m),
             fresh_m := Suc (fresh_m m)\<rparr>,
           Some (fresh_m m), True))"

definition lhm_insert ::
  "('k, 'v) LinkedHashMap \<Rightarrow> 'k \<times> 'v \<Rightarrow> ('k, 'v) LinkedHashMap \<times> iterator \<times> bool" where
  "lhm_insert m pair = InsertInternal m pair"

text \<open>\<^verbatim>\<open>operator[]\<close>: \<open>v0\<close> is the default-constructed value; the result is the reference.\<close>

definition index_op ::
  "'v \<Rightarrow> ('k, 'v) LinkedHashMap \<Rightarrow> 'k \<Rightarrow> ('k, 'v) LinkedHashMap \<times> iterator" where
  "index_op v0 m key = (let (m', it, _) = lhm_insert m (key, v0) in (m', it))"

text \<open>
  \<^verbatim>\<open>emplace\<close> builds the node in a donor list first, so the allocation happens on both paths; on a
  duplicate key the donor destroys it.
\<close>

definition emplace ::
  "('k, 'v) LinkedHashMap \<Rightarrow> 'k \<times> 'v \<Rightarrow> ('k, 'v) LinkedHashMap \<times> iterator \<times> bool" where
  "emplace m pair =
     (let node_pos = fresh_m m; m1 = m\<lparr>fresh_m := Suc node_pos\<rparr>; k = fst pair
      in case map_m m1 k of
           Some i \<Rightarrow> (m1, Some i, False)
         | None \<Rightarrow>
             (m1\<lparr>map_m := (map_m m1)(k \<mapsto> node_pos), list_m := list_m m1 @ [(node_pos, pair)]\<rparr>,
              Some node_pos, True))"

definition lhm_size :: "('k, 'v) LinkedHashMap \<Rightarrow> nat" where
  "lhm_size m = card (dom (map_m m))"

definition swap ::
  "('k, 'v) LinkedHashMap \<Rightarrow> ('k, 'v) LinkedHashMap
     \<Rightarrow> ('k, 'v) LinkedHashMap \<times> ('k, 'v) LinkedHashMap" where
  "swap m other =
     (m\<lparr>map_m := map_m other, list_m := list_m other, fresh_m := fresh_m other\<rparr>,
      other\<lparr>map_m := map_m m, list_m := list_m m, fresh_m := fresh_m m\<rparr>)"

section \<open>Consistency of the map and the list\<close>

text \<open>
  \<open>index_of\<close> is the hash map the list calls for; \<open>lhm_inv\<close> says the map is exactly that, that
  nodes have distinct addresses below the allocator's counter and distinct keys.
\<close>

definition index_of :: "('k, 'v) node list \<Rightarrow> ('k \<rightharpoonup> nat)" where
  "index_of ns = map_of (map (\<lambda>n. (fst (snd n), fst n)) ns)"

definition lhm_inv :: "('k, 'v) LinkedHashMap \<Rightarrow> bool" where
  "lhm_inv m \<longleftrightarrow>
     map_m m = index_of (list_m m) \<and>
     distinct (map fst (list_m m)) \<and>
     distinct (map (fst \<circ> snd) (list_m m)) \<and>
     (\<forall>n \<in> set (list_m m). fst n < fresh_m m)"

text \<open>The sequence of entries, and the value a key is bound to through \<^verbatim>\<open>find\<close>.\<close>

definition entries :: "('k, 'v) LinkedHashMap \<Rightarrow> ('k \<times> 'v) list" where
  "entries m = map snd (list_m m)"

definition find_value :: "('k, 'v) LinkedHashMap \<Rightarrow> 'k \<Rightarrow> 'v option" where
  "find_value m key =
     (case deref m (lhm_find m key) of Inl _ \<Rightarrow> None | Inr kv \<Rightarrow> Some (snd kv))"

lemma lhm_invD:
  assumes "lhm_inv m"
  shows "map_m m = index_of (list_m m)" and "distinct (map fst (list_m m))"
    and "distinct (map (fst \<circ> snd) (list_m m))"
    and "n \<in> set (list_m m) \<Longrightarrow> fst n < fresh_m m"
  using assms by (auto simp: lhm_inv_def)

lemma index_of_Nil [simp]: "index_of [] = Map.empty"
  by (simp add: index_of_def)

lemma index_of_None_iff: "index_of ns k = None \<longleftrightarrow> k \<notin> (fst \<circ> snd) ` set ns"
  by (simp add: index_of_def map_of_eq_None_iff image_image)

lemma index_of_SomeD: "index_of ns k = Some i \<Longrightarrow> \<exists>v. (i, k, v) \<in> set ns"
proof -
  assume "index_of ns k = Some i"
  then have "(k, i) \<in> set (map (\<lambda>n. (fst (snd n), fst n)) ns)"
    unfolding index_of_def by (rule map_of_SomeD)
  then show ?thesis by force
qed

lemma index_of_in:
  "distinct (map (fst \<circ> snd) ns) \<Longrightarrow> (i, k, v) \<in> set ns \<Longrightarrow> index_of ns k = Some i"
  unfolding index_of_def by (rule map_of_is_SomeI) (force simp: comp_def)+

lemma index_of_snoc:
  "k \<notin> (fst \<circ> snd) ` set ns \<Longrightarrow> index_of (ns @ [(i, k, v)]) = (index_of ns)(k \<mapsto> i)"
proof -
  assume "k \<notin> (fst \<circ> snd) ` set ns"
  then have "index_of ns k = None" by (simp add: index_of_None_iff)
  then show ?thesis by (auto simp: index_of_def fun_eq_iff map_add_def split: option.splits)
qed

text \<open>Nodes are determined by their address and, independently, by their key.\<close>

lemma node_by_key:
  assumes "lhm_inv m" and "(i, k, v) \<in> set (list_m m)" and "(j, k, w) \<in> set (list_m m)"
  shows "i = j \<and> v = w"
  using index_of_in [OF lhm_invD(3) [OF assms(1)] assms(2)]
    index_of_in [OF lhm_invD(3) [OF assms(1)] assms(3)]
    eq_key_imp_eq_value [OF lhm_invD(2) [OF assms(1)], of i "(k, v)" "(k, w)"] assms(2,3)
  by simp

lemma node_by_address:
  "lhm_inv m \<Longrightarrow> n \<in> set (list_m m) \<Longrightarrow> map_of (list_m m) (fst n) = Some (snd n)"
  by (rule map_of_is_SomeI) (simp_all add: lhm_invD)

lemma map_SomeD:
  assumes "lhm_inv m" and "map_m m k = Some i"
  obtains v where "(i, k, v) \<in> set (list_m m)" and "map_of (list_m m) i = Some (k, v)"
proof -
  from assms obtain v where v: "(i, k, v) \<in> set (list_m m)"
    by (metis index_of_SomeD lhm_invD(1))
  with node_by_address [OF assms(1) this] that show thesis by simp
qed

lemma map_None_iff: "lhm_inv m \<Longrightarrow> map_m m k = None \<longleftrightarrow> k \<notin> fst ` set (entries m)"
  by (simp add: lhm_invD(1) index_of_None_iff entries_def image_image)

section \<open>Effect of the operations under the invariant\<close>

lemma address_iff_key:
  assumes inv: "lhm_inv m" and n: "(i, k, v) \<in> set (list_m m)" and n': "n' \<in> set (list_m m)"
  shows "fst n' = i \<longleftrightarrow> fst (snd n') = k"
proof
  assume "fst n' = i"
  then have "Some (snd n') = Some (k, v)"
    using node_by_address [OF inv n'] node_by_address [OF inv n] by simp
  then show "fst (snd n') = k" by simp
next
  assume "fst (snd n') = k"
  then have "(fst n', k, snd (snd n')) \<in> set (list_m m)" using n' by (cases n') simp
  from node_by_key [OF inv n this] show "fst n' = i" by simp
qed

lemma list_erase_by_key:
  assumes "lhm_inv m" and "(i, k, v) \<in> set (list_m m)"
  shows "list_erase (list_m m) i = filter (\<lambda>n. fst (snd n) \<noteq> k) (list_m m)"
  unfolding list_erase_def by (rule filter_cong [OF refl]) (simp add: address_iff_key [OF assms])

lemma erase_node_inv:
  assumes inv: "lhm_inv m" and n: "(i, k, v) \<in> set (list_m m)"
  shows "lhm_inv (m\<lparr>list_m := list_erase (list_m m) i, map_m := (map_m m)(k := None)\<rparr>)"
proof -
  have "index_of (list_erase (list_m m) i) = (index_of (list_m m))(k := None)"
    unfolding list_erase_by_key [OF assms] index_of_def
    by (simp add: map_of_filter_neq [symmetric] filter_map comp_def)
  then show ?thesis
    using inv by (auto simp: lhm_inv_def list_erase_def distinct_map_filter)
qed

lemma entries_erase:
  assumes "lhm_inv m" and "(i, k, v) \<in> set (list_m m)"
  shows "map snd (list_erase (list_m m) i) = filter (\<lambda>p. fst p \<noteq> k) (entries m)"
  by (simp add: list_erase_by_key [OF assms] entries_def filter_map comp_def)

lemma distinct_entries: "lhm_inv m \<Longrightarrow> distinct (map fst (entries m))"
  by (simp add: entries_def lhm_invD(3) [unfolded comp_def] comp_def)

lemma find_value_entries: "lhm_inv m \<Longrightarrow> find_value m k = map_of (entries m) k"
proof (cases "map_m m k")
  case None
  moreover assume "lhm_inv m"
  ultimately have "map_of (entries m) k = None"
    by (simp add: map_None_iff map_of_eq_None_iff)
  with None show ?thesis
    by (simp add: find_value_def lhm_find_def lhm_end_def deref_def)
next
  case (Some i)
  assume inv: "lhm_inv m"
  from inv Some obtain v where v: "(i, k, v) \<in> set (list_m m)"
    and i: "map_of (list_m m) i = Some (k, v)" by (rule map_SomeD)
  from v have "(k, v) \<in> set (entries m)" by (force simp: entries_def)
  then have "map_of (entries m) k = Some v"
    using distinct_entries [OF inv] by simp
  with Some i show ?thesis
    by (simp add: find_value_def lhm_find_def lhm_end_def deref_def)
qed

lemma erase_key_cases:
  assumes "lhm_inv m"
  obtains (absent) "k \<notin> fst ` set (entries m)" and "erase_key m k = Inr (m, 0)"
  | (present) m' where "k \<in> fst ` set (entries m)" and "erase_key m k = Inr (m', 1)"
      and "lhm_inv m'" and "entries m' = filter (\<lambda>p. fst p \<noteq> k) (entries m)"
proof (cases "map_m m k")
  case None
  with absent show thesis by (simp add: erase_key_def map_None_iff [OF assms])
next
  case (Some i)
  from assms Some obtain v where v: "(i, k, v) \<in> set (list_m m)"
    and i: "map_of (list_m m) i = Some (k, v)" by (rule map_SomeD)
  show thesis
  proof (rule present)
    show "k \<in> fst ` set (entries m)" using v by (force simp: entries_def)
    show "erase_key m k =
      Inr (m\<lparr>list_m := list_erase (list_m m) i, map_m := (map_m m)(k := None)\<rparr>, 1)"
      using Some i by (simp add: erase_key_def)
    show "lhm_inv (m\<lparr>list_m := list_erase (list_m m) i, map_m := (map_m m)(k := None)\<rparr>)"
      by (rule erase_node_inv [OF assms v])
    show "entries (m\<lparr>list_m := list_erase (list_m m) i, map_m := (map_m m)(k := None)\<rparr>)
      = filter (\<lambda>p. fst p \<noteq> k) (entries m)"
      using entries_erase [OF assms v] by (simp add: entries_def)
  qed
qed

lemma InsertInternal_present:
  assumes "lhm_inv m" and "fst p \<in> fst ` set (entries m)"
  shows "\<exists>it. InsertInternal m p = (m, it, False) \<and> it = lhm_find m (fst p) \<and> it \<noteq> None"
  using assms map_None_iff [OF assms(1), of "fst p"]
  by (auto simp: InsertInternal_def lhm_find_def split: option.splits)

lemma InsertInternal_absent:
  assumes inv: "lhm_inv m" and k: "fst p \<notin> fst ` set (entries m)"
  shows "\<exists>m'. InsertInternal m p = (m', Some (fresh_m m), True) \<and> lhm_inv m' \<and>
           entries m' = entries m @ [p] \<and> lhm_find m' (fst p) = Some (fresh_m m) \<and>
           deref m' (Some (fresh_m m)) = Inr p"
proof -
  let ?m = "m\<lparr>list_m := list_m m @ [(fresh_m m, p)], map_m := (map_m m)(fst p \<mapsto> fresh_m m),
               fresh_m := Suc (fresh_m m)\<rparr>"
  have none: "map_m m (fst p) = None" using k by (simp add: map_None_iff [OF inv])
  have key: "fst p \<notin> (fst \<circ> snd) ` set (list_m m)" using k by (simp add: entries_def image_image)
  have addr: "fresh_m m \<notin> fst ` set (list_m m)" using lhm_invD(4) [OF inv] by fastforce
  have idx: "index_of (list_m m @ [(fresh_m m, p)]) = (map_m m)(fst p \<mapsto> fresh_m m)"
    using index_of_snoc [OF key, of "fresh_m m" "snd p"] lhm_invD(1) [OF inv] by simp
  have "lhm_inv ?m"
    unfolding lhm_inv_def using inv key addr idx by (auto simp: lhm_inv_def less_Suc_eq)
  moreover have "deref ?m (Some (fresh_m m)) = Inr p"
    using addr by (simp add: deref_def map_add_def map_of_eq_None_iff [THEN iffD2])
  ultimately show ?thesis
    using none by (simp add: InsertInternal_def entries_def lhm_find_def)
qed

lemma list_next_split:
  "i \<notin> fst ` set xs \<Longrightarrow> list_next (xs @ (i, kv) # ys) i = list_begin ys"
  by (induction xs) auto

lemma list_erase_split:
  "distinct (map fst (xs @ (i, kv) # ys)) \<Longrightarrow> list_erase (xs @ (i, kv) # ys) i = xs @ ys"
  unfolding list_erase_def by (simp add: filter_neq_id image_Un)

lemma erase_at_split:
  assumes inv: "lhm_inv m" and l: "list_m m = xs @ (i, kv) # ys"
  shows "\<exists>m'. erase_at m (Some i) = Inr (m', list_begin ys) \<and> list_m m' = xs @ ys \<and> lhm_inv m'"
proof -
  obtain k v where kv: "kv = (k, v)" by (cases kv)
  have n: "(i, k, v) \<in> set (list_m m)" using l kv by simp
  have d: "distinct (map fst (xs @ (i, kv) # ys))" using lhm_invD(2) [OF inv] l by simp
  have "map_m m k = Some i"
    using index_of_in [OF lhm_invD(3) [OF inv] n] lhm_invD(1) [OF inv] by simp
  moreover have "deref m (Some i) = Inr (k, v)"
    using node_by_address [OF inv n] by (simp add: deref_def)
  moreover have "list_erase (list_m m) i = xs @ ys"
    unfolding l by (rule list_erase_split [OF d])
  moreover have "list_next (list_m m) i = list_begin ys"
    unfolding l using d by (simp add: list_next_split)
  moreover have "lhm_inv (m\<lparr>list_m := list_erase (list_m m) i, map_m := (map_m m)(k := None)\<rparr>)"
    by (rule erase_node_inv [OF inv n])
  ultimately show ?thesis by (simp add: erase_at_def lhm_inv_def)
qed

text \<open>A live iterator points to a node of the list.\<close>

definition live :: "('k, 'v) LinkedHashMap \<Rightarrow> iterator \<Rightarrow> bool" where
  "live m it \<longleftrightarrow> it \<in> Some ` fst ` set (list_m m)"

lemma live_split:
  "live m it \<Longrightarrow> \<exists>xs i kv ys. it = Some i \<and> list_m m = xs @ (i, kv) # ys"
  unfolding live_def by (auto dest!: split_list) blast

lemma erase_at_live:
  assumes "lhm_inv m" and "live m it"
  shows "\<exists>m' next_it. erase_at m it = Inr (m', next_it) \<and> lhm_inv m'"
  using live_split [OF assms(2)] erase_at_split [OF assms(1)] by blast

lemma erase_range_split:
  "lhm_inv m \<Longrightarrow> list_m m = xs @ ys \<Longrightarrow>
     \<exists>m'. erase_range m (list_begin ys) last_it =
            Inr (m', list_begin (dropWhile (\<lambda>n. Some (fst n) \<noteq> last_it) ys)) \<and>
          list_m m' = xs @ dropWhile (\<lambda>n. Some (fst n) \<noteq> last_it) ys \<and> lhm_inv m'"
proof (induction ys arbitrary: m)
  case Nil
  then show ?case by (simp add: erase_range.simps [of m] list_begin_def lhm_end_def)
next
  case (Cons n ys)
  obtain i kv where n: "n = (i, kv)" by (cases n)
  show ?case
  proof (cases "Some i = last_it")
    case True
    with Cons.prems n show ?thesis by (simp add: erase_range.simps [of m] list_begin_def)
  next
    case False
    obtain m1 where m1: "erase_at m (Some i) = Inr (m1, list_begin ys)"
      "list_m m1 = xs @ ys" "lhm_inv m1"
      using erase_at_split [OF Cons.prems(1)] Cons.prems(2) n by blast
    from m1(1) False n have "erase_range m (list_begin (n # ys)) last_it
      = erase_range m1 (list_begin ys) last_it"
      by (simp add: erase_range.simps [of m "Some i"] list_begin_def lhm_end_def)
    with Cons.IH [OF m1(3,2)] False n show ?thesis by simp
  qed
qed

lemma emplace_InsertInternal:
  assumes "lhm_inv m"
  shows "fst (snd (emplace m p)) = fst (snd (InsertInternal m p)) \<and>
         snd (snd (emplace m p)) = snd (snd (InsertInternal m p)) \<and>
         list_m (fst (emplace m p)) = list_m (fst (InsertInternal m p)) \<and>
         map_m (fst (emplace m p)) = map_m (fst (InsertInternal m p)) \<and>
         lhm_inv (fst (emplace m p))"
proof (cases "map_m m (fst p)")
  case None
  then have "emplace m p = InsertInternal m p"
    by (simp add: emplace_def InsertInternal_def Let_def)
  moreover have "fst p \<notin> fst ` set (entries m)" using None by (simp add: map_None_iff [OF assms])
  ultimately show ?thesis using InsertInternal_absent [OF assms, of p] by auto
next
  case (Some i)
  with assms show ?thesis
    by (auto simp: emplace_def InsertInternal_def Let_def lhm_inv_def less_Suc_eq)
qed

lemma lhm_inv_new: "lhm_inv lhm_new"
  by (simp add: lhm_new_def lhm_inv_def)

lemma lhm_inv_clear: "lhm_inv (lhm_clear m)"
  by (simp add: lhm_clear_def lhm_inv_def)

lemma lhm_insert_inv: "lhm_inv m \<Longrightarrow> lhm_inv (fst (lhm_insert m p))"
  unfolding lhm_insert_def
  using InsertInternal_present [of m p] InsertInternal_absent [of m p]
  by (cases "fst p \<in> fst ` set (entries m)") auto

lemma index_op_inv: "lhm_inv m \<Longrightarrow> lhm_inv (fst (index_op v0 m k))"
  using lhm_insert_inv [of m "(k, v0)"] by (auto simp: index_op_def split: prod.split)

lemma erase_key_inv: "lhm_inv m \<Longrightarrow> erase_key m k = Inr (m', n) \<Longrightarrow> lhm_inv m'"
  by (rule erase_key_cases [of m k]) auto

section \<open>Every sequence of calls\<close>

text \<open>
  The maps a client can build: any sequence of the mutating operations, iterators taken from
  live nodes.  Moving and swapping exchange whole maps and need no rule.
\<close>

inductive lhm_reachable :: "('k, 'v) LinkedHashMap \<Rightarrow> bool" where
  new: "lhm_reachable lhm_new"
| ins: "lhm_reachable m \<Longrightarrow> lhm_insert m p = (m', it, b) \<Longrightarrow> lhm_reachable m'"
| emp: "lhm_reachable m \<Longrightarrow> emplace m p = (m', it, b) \<Longrightarrow> lhm_reachable m'"
| idx: "lhm_reachable m \<Longrightarrow> index_op v0 m k = (m', it) \<Longrightarrow> lhm_reachable m'"
| clr: "lhm_reachable m \<Longrightarrow> lhm_reachable (lhm_clear m)"
| era: "lhm_reachable m \<Longrightarrow> erase_key m k = Inr (m', n) \<Longrightarrow> lhm_reachable m'"
| pos: "lhm_reachable m \<Longrightarrow> live m it \<Longrightarrow> erase_at m it = Inr (m', it') \<Longrightarrow> lhm_reachable m'"
| rng: "lhm_reachable m \<Longrightarrow> live m it \<Longrightarrow> erase_range m it last_it = Inr (m', it')
          \<Longrightarrow> lhm_reachable m'"

lemma erase_range_live:
  assumes "lhm_inv m" and "live m it"
  shows "\<exists>m' it'. erase_range m it last_it = Inr (m', it') \<and> lhm_inv m'"
proof -
  from live_split [OF assms(2)] obtain xs i kv ys
    where "it = Some i" and l: "list_m m = xs @ (i, kv) # ys" by blast
  then have "it = list_begin ((i, kv) # ys)" by (simp add: list_begin_def)
  with erase_range_split [OF assms(1) l, of last_it] show ?thesis by blast
qed

lemma lhm_reachable_inv: "lhm_reachable m \<Longrightarrow> lhm_inv m"
proof (induction rule: lhm_reachable.induct)
  case new
  show ?case by (rule lhm_inv_new)
next
  case (ins m p m' it b)
  then show ?case using lhm_insert_inv [of m p] by simp
next
  case (emp m p m' it b)
  then show ?case using emplace_InsertInternal [of m p] by simp
next
  case (idx m v0 k m' it)
  then show ?case using index_op_inv [of m v0 k] by simp
next
  case (clr m)
  show ?case by (rule lhm_inv_clear)
next
  case (era m k m' n)
  then show ?case by (blast intro: erase_key_inv)
next
  case (pos m it m' it')
  then show ?case using erase_at_live [of m it] by auto
next
  case (rng m it last_it m' it')
  then show ?case using erase_range_live [of m it last_it] by auto
qed

section \<open>The contract of an ordered map\<close>

text \<open>
  What the event loop relies on: an invariant, the sequence of entries, lookup, insertion that
  appends a new key and refuses a present one, and removal by key that reports how many entries
  it removed and never faults.
\<close>

locale ordered_map =
  fixes inv :: "'m \<Rightarrow> bool"
    and seq :: "'m \<Rightarrow> ('k \<times> 'v) list"
    and look :: "'m \<Rightarrow> 'k \<Rightarrow> 'v option"
    and ins :: "'m \<Rightarrow> 'k \<times> 'v \<Rightarrow> 'm \<times> 'i \<times> bool"
    and del :: "'m \<Rightarrow> 'k \<Rightarrow> 'f + 'm \<times> nat"
  assumes seq_distinct: "inv m \<Longrightarrow> distinct (map fst (seq m))"
    and look_seq: "inv m \<Longrightarrow> look m k = map_of (seq m) k"
    and ins_present: "inv m \<Longrightarrow> look m (fst p) \<noteq> None \<Longrightarrow> \<exists>it. ins m p = (m, it, False)"
    and ins_absent: "inv m \<Longrightarrow> look m (fst p) = None \<Longrightarrow>
           \<exists>m' it. ins m p = (m', it, True) \<and> inv m' \<and> seq m' = seq m @ [p]"
    and del_seq: "inv m \<Longrightarrow>
           \<exists>m'. del m k = Inr (m', if look m k = None then 0 else 1) \<and> inv m' \<and>
                seq m' = filter (\<lambda>p. fst p \<noteq> k) (seq m)"
begin

lemma ins_flag: "inv m \<Longrightarrow> snd (snd (ins m p)) \<longleftrightarrow> look m (fst p) = None"
  using ins_present [of m p] ins_absent [of m p] by (cases "look m (fst p)") force+

lemma ins_inv: "inv m \<Longrightarrow> inv (fst (ins m p))"
  using ins_present [of m p] ins_absent [of m p] by (cases "look m (fst p)") force+

lemma ins_seq:
  "inv m \<Longrightarrow> seq (fst (ins m p)) = (if look m (fst p) = None then seq m @ [p] else seq m)"
  using ins_present [of m p] ins_absent [of m p] by (cases "look m (fst p)") force+

lemma ins_look:
  "inv m \<Longrightarrow> look m (fst p) = None \<Longrightarrow>
     look (fst (ins m p)) k = (if k = fst p then Some (snd p) else look m k)"
  using ins_inv [of m p] ins_seq [of m p]
  by (cases p) (auto simp: look_seq map_add_def split: option.splits)

lemma del_look:
  assumes "inv m" and "del m k = Inr (m', n)"
  shows "look m' j = (if j = k then None else look m j)"
proof -
  obtain m1 where "del m k = Inr (m1, if look m k = None then 0 else 1)" "inv m1"
    "seq m1 = filter (\<lambda>p. fst p \<noteq> k) (seq m)"
    using del_seq [OF assms(1)] by blast
  with assms show ?thesis by (simp add: look_seq map_of_filter_neq)
qed

lemma del_ok: "inv m \<Longrightarrow> \<exists>m'. del m k = Inr (m', if look m k = None then 0 else 1) \<and> inv m'"
  using del_seq by blast

lemma del_inv: "inv m \<Longrightarrow> del m k = Inr (m', n) \<Longrightarrow> inv m'"
  using del_ok [of m k] by auto

lemma del_result:
  "inv m \<Longrightarrow> del m k = Inr (m', n) \<Longrightarrow>
     n = (if look m k = None then 0 else 1) \<and> seq m' = filter (\<lambda>p. fst p \<noteq> k) (seq m)"
  using del_seq [of m k] by auto

text \<open>Inserting a new key and removing it again restores the entries and their order.\<close>

lemma ins_del_rollback:
  assumes "inv m" and "look m k = None"
  shows "\<exists>m'. del (fst (ins m (k, v))) k = Inr (m', 1) \<and> inv m' \<and> seq m' = seq m"
proof -
  let ?m = "fst (ins m (k, v))"
  have "inv ?m" using assms(1) by (rule ins_inv)
  moreover have "look ?m k = Some v" using ins_look [of m "(k, v)" k] assms by simp
  moreover have "seq ?m = seq m @ [(k, v)]" using ins_seq [of m "(k, v)"] assms by simp
  moreover have "k \<notin> set (map fst (seq m))"
    using assms by (simp add: look_seq map_of_eq_None_iff)
  ultimately show ?thesis using del_seq [of ?m k] by (auto simp: filter_neq_id)
qed

end

interpretation lhm: ordered_map lhm_inv entries find_value lhm_insert erase_key
proof unfold_locales
  fix m :: "('k, 'v) LinkedHashMap" and k p
  assume inv: "lhm_inv m"
  show "distinct (map fst (entries m))" by (rule distinct_entries [OF inv])
  show "find_value m k = map_of (entries m) k" by (rule find_value_entries [OF inv])
  have look: "find_value m j = None \<longleftrightarrow> j \<notin> fst ` set (entries m)" for j
    by (simp add: find_value_entries [OF inv] map_of_eq_None_iff)
  show "\<exists>it. lhm_insert m p = (m, it, False)" if "find_value m (fst p) \<noteq> None"
    using InsertInternal_present [OF inv, of p] that by (auto simp: lhm_insert_def look)
  show "\<exists>m' it. lhm_insert m p = (m', it, True) \<and> lhm_inv m' \<and> entries m' = entries m @ [p]"
    if "find_value m (fst p) = None"
    using InsertInternal_absent [OF inv, of p] that by (auto simp: lhm_insert_def look)
  show "\<exists>m'. erase_key m k = Inr (m', if find_value m k = None then 0 else 1) \<and> lhm_inv m' \<and>
             entries m' = filter (\<lambda>p. fst p \<noteq> k) (entries m)"
    by (rule erase_key_cases [OF inv, of k]) (use inv in \<open>auto simp: look filter_neq_id\<close>)
qed

section \<open>Properties\<close>

text \<open>C15. Whatever sequence of insertions, emplacements, subscripts, removals by key, by iterator
  or by range, and clears a client performs, the hash map and the list stay consistent: the hash
  map holds exactly the addresses of the list's nodes under their keys, keys and addresses are
  distinct, and no removal through a live iterator or by key faults, so the \<^verbatim>\<open>ABSL_CHECK\<close> of
  \<^verbatim>\<open>erase\<close> never fires.\<close>

theorem lhm_consistent:
  assumes "lhm_reachable m"
  shows "lhm_inv m \<and> (\<exists>r. erase_key m k = Inr r) \<and>
         (live m it \<longrightarrow> (\<exists>r. erase_at m it = Inr r) \<and> (\<exists>r. erase_range m it last_it = Inr r))"
proof -
  have inv: "lhm_inv m" using assms by (rule lhm_reachable_inv)
  then show ?thesis
    using lhm.del_ok [OF inv, of k] erase_at_live [OF inv, of it]
      erase_range_live [OF inv, of it last_it] by blast
qed

theorem lhm_consistent_witness:
  "lhm_inv (fst (lhm_insert lhm_new (7 :: nat, True))) \<and>
   (\<exists>r. erase_at (fst (lhm_insert lhm_new (7 :: nat, True))) (Some 0) = Inr r)"
proof -
  let ?m = "fst (lhm_insert lhm_new (7 :: nat, True))"
  have r: "lhm_reachable ?m"
    by (rule lhm_reachable.ins [OF lhm_reachable.new, of "(7, True)" _ "Some 0" True])
       (simp add: lhm_insert_def InsertInternal_def lhm_new_def)
  have "live ?m (Some 0)"
    by (simp add: live_def lhm_insert_def InsertInternal_def lhm_new_def)
  with lhm_consistent [OF r, of 7 "Some 0" None] show ?thesis by blast
qed

text \<open>\<^verbatim>\<open>erase(first, last)\<close> removes exactly the nodes from \<^verbatim>\<open>first\<close> up to, not including,
  \<^verbatim>\<open>last\<close> (up to the end of the list when \<^verbatim>\<open>last\<close> does not follow \<^verbatim>\<open>first\<close>), keeps every other node with
  its address and order, and returns the iterator to what follows the last removed node.\<close>

lemma erase_range_exact:
  assumes "lhm_inv m" and "list_m m = xs @ ys"
  shows "\<exists>m'. erase_range m (list_begin ys) last_it =
            Inr (m', list_begin (dropWhile (\<lambda>n. Some (fst n) \<noteq> last_it) ys)) \<and>
          list_m m' = xs @ dropWhile (\<lambda>n. Some (fst n) \<noteq> last_it) ys \<and> lhm_inv m'"
  using assms by (rule erase_range_split)

lemma erase_range_exact_example:
  "\<exists>m'. erase_range (\<lparr>map_m = [5 \<mapsto> 0, 6 \<mapsto> 1, 7 \<mapsto> 2], list_m = [(0, 5, True), (1, 6, False), (2, 7, True)],
            fresh_m = 3\<rparr> :: (nat, bool) LinkedHashMap) (Some 0) (Some 2) = Inr (m', Some 2) \<and>
        list_m m' = [(2, 7, True)] \<and> lhm_inv m'"
proof -
  let ?m = "\<lparr>map_m = [5 \<mapsto> 0, 6 \<mapsto> 1, 7 \<mapsto> 2], list_m = [(0, 5, True), (1, 6, False), (2, 7, True)],
            fresh_m = 3\<rparr> :: (nat, bool) LinkedHashMap"
  have "lhm_inv ?m" by (auto simp: lhm_inv_def index_of_def fun_eq_iff)
  from erase_range_exact [OF this, of "[]" "list_m ?m" "Some 2"] show ?thesis
    by (simp add: list_begin_def)
qed

text \<open>C9. Seen as a sequence of entries, the map is an insertion-ordered association list:
  insertion appends a new key and leaves a present one (and its value) alone, emplacement does
  the same, removal by key deletes that entry only and reports 0 or 1, lookup finds the value
  bound to the key, and the size is the number of entries.\<close>

theorem lhm_refines_ordered_alist:
  assumes "lhm_inv m"
  shows "entries (fst (lhm_insert m p)) =
           (if fst p \<in> fst ` set (entries m) then entries m else entries m @ [p]) \<and>
         entries (fst (emplace m p)) = entries (fst (lhm_insert m p)) \<and>
         snd (emplace m p) = snd (lhm_insert m p) \<and>
         map_sum id (map_prod entries id) (erase_key m k) =
           Inr (filter (\<lambda>p. fst p \<noteq> k) (entries m), if k \<in> fst ` set (entries m) then 1 else 0) \<and>
         find_value m k = map_of (entries m) k \<and>
         lhm_size m = length (entries m)"
proof -
  have look: "find_value m j = None \<longleftrightarrow> j \<notin> fst ` set (entries m)" for j
    by (simp add: lhm.look_seq [OF assms] map_of_eq_None_iff)
  have "dom (map_m m) = fst ` set (entries m)"
    using map_None_iff [OF assms] by (auto simp: dom_def)
  then have "lhm_size m = card (set (map fst (entries m)))" by (simp add: lhm_size_def)
  also have "\<dots> = length (entries m)"
    using distinct_card [OF lhm.seq_distinct [OF assms]] by simp
  finally have "lhm_size m = length (entries m)" .
  moreover obtain m' where "erase_key m k = Inr (m', if find_value m k = None then 0 else 1)"
    and "entries m' = filter (\<lambda>p. fst p \<noteq> k) (entries m)"
    using lhm.del_seq [OF assms] by blast
  moreover have "entries (fst (emplace m p)) = entries (fst (lhm_insert m p))"
    and "snd (emplace m p) = snd (lhm_insert m p)"
    using emplace_InsertInternal [OF assms, of p]
    by (simp_all add: lhm_insert_def entries_def prod_eq_iff)
  moreover have "find_value m k = map_of (entries m) k" by (rule lhm.look_seq [OF assms])
  ultimately show ?thesis
    using lhm.ins_seq [OF assms, of p] look [of k] by (simp add: look)
qed

theorem lhm_refines_ordered_alist_witness:
  "entries (fst (lhm_insert (lhm_new :: (nat, bool) LinkedHashMap) (4, True))) = [(4, True)]"
  using lhm_refines_ordered_alist [OF lhm_inv_new, of "(4 :: nat, True)" 0]
  by (simp add: entries_def lhm_new_def)

end
