(* ===== verification/TimeUtils.thy ===== *)
theory TimeUtils
  imports IO_Prelude
begin

text \<open>
  \<^verbatim>\<open>src/time_utils.h\<close> and \<^verbatim>\<open>src/time_utils.cc\<close>.  A clock reading (\<^verbatim>\<open>steady_clock::now()\<close> or
  \<^verbatim>\<open>system_clock::now()\<close>, in nanoseconds since the clock's epoch) is the argument \<open>ns\<close> of the functions that
  read it.  \<^verbatim>\<open>int64_t\<close> values are integers, \<^verbatim>\<open>uint32_t\<close> values are 32-bit words; division
  truncates towards zero.
\<close>

section \<open>Constants\<close>

definition kNumMillisecsPerSec :: int where "kNumMillisecsPerSec = 1000"
definition kNumMicrosecsPerSec :: int where "kNumMicrosecsPerSec = 1000000"
definition kNumNanosecsPerSec :: int where "kNumNanosecsPerSec = 1000000000"

definition kNumMicrosecsPerMillisec :: int where
  "kNumMicrosecsPerMillisec = kNumMicrosecsPerSec sdiv kNumMillisecsPerSec"
definition kNumNanosecsPerMillisec :: int where
  "kNumNanosecsPerMillisec = kNumNanosecsPerSec sdiv kNumMillisecsPerSec"
definition kNumNanosecsPerMicrosec :: int where
  "kNumNanosecsPerMicrosec = kNumNanosecsPerSec sdiv kNumMicrosecsPerSec"

definition kNtpJan1970Millisecs :: int where
  "kNtpJan1970Millisecs = 2208988800 * kNumMillisecsPerSec"

lemma time_units [simp]:
  "kNumMillisecsPerSec = 1000" "kNumMicrosecsPerSec = 1000000" "kNumNanosecsPerSec = 1000000000"
  "kNumMicrosecsPerMillisec = 1000" "kNumNanosecsPerMillisec = 1000000"
  "kNumNanosecsPerMicrosec = 1000"
  by (simp_all add: kNumMillisecsPerSec_def kNumMicrosecsPerSec_def kNumNanosecsPerSec_def
      kNumMicrosecsPerMillisec_def kNumNanosecsPerMillisec_def kNumNanosecsPerMicrosec_def)

section \<open>Reading the clocks\<close>

definition SystemTimeNanos :: "int \<Rightarrow> int" where
  "SystemTimeNanos ns = ns"

text \<open>
  On Windows the reading is bracketed by a request for a 1 ms timer period; \<open>begin_ok\<close> is whether
  \<^verbatim>\<open>timeBeginPeriod\<close> returned \<^verbatim>\<open>TIMERR_NOERROR\<close>.  The second component lists the calls made.
\<close>

datatype period_call = timeBeginPeriod nat | timeEndPeriod nat

definition CurrentTimeNanos :: "bool \<Rightarrow> int \<Rightarrow> int \<times> period_call list" where
  "CurrentTimeNanos begin_ok ns =
     (let kPeriod = 1; ret = SystemTimeNanos ns
      in (ret, timeBeginPeriod kPeriod # (if begin_ok then [timeEndPeriod kPeriod] else [])))"

definition CurrentTimeMicros :: "int \<Rightarrow> int" where
  "CurrentTimeMicros ns = fst (CurrentTimeNanos True ns) sdiv kNumNanosecsPerMicrosec"

definition SystemTimeMillis :: "int \<Rightarrow> int" where
  "SystemTimeMillis ns = SystemTimeNanos ns sdiv kNumNanosecsPerMillisec"

definition TimeNanos :: "int \<Rightarrow> int" where
  "TimeNanos ns = SystemTimeNanos ns"

definition Time32 :: "int \<Rightarrow> u32" where
  "Time32 ns = to_uint32 (TimeNanos ns sdiv kNumNanosecsPerMillisec)"

definition TimeMillis :: "int \<Rightarrow> int" where
  "TimeMillis ns = TimeNanos ns sdiv kNumNanosecsPerMillisec"

definition Time :: "int \<Rightarrow> int" where
  "Time ns = TimeMillis ns"

definition TimeMicros :: "int \<Rightarrow> int" where
  "TimeMicros ns = TimeNanos ns sdiv kNumNanosecsPerMicrosec"

definition TimeAfter :: "int \<Rightarrow> int \<Rightarrow> int" where
  "TimeAfter ns elapsed = TimeMillis ns + elapsed"

text \<open>\<^verbatim>\<open>TimeDiff32\<close> subtracts modulo 2 to the 32 and reads the result as \<^verbatim>\<open>int32_t\<close>.\<close>

definition TimeDiff32 :: "u32 \<Rightarrow> u32 \<Rightarrow> int" where
  "TimeDiff32 later earlier = sint (later - earlier)"

definition TimeDiff :: "int \<Rightarrow> int \<Rightarrow> int" where
  "TimeDiff later earlier = later - earlier"

definition TimeSince :: "int \<Rightarrow> int \<Rightarrow> int" where
  "TimeSince ns earlier = TimeMillis ns - earlier"

definition TimeUntil :: "int \<Rightarrow> int \<Rightarrow> int" where
  "TimeUntil ns later = later - TimeMillis ns"

definition TimeUTCMicros :: "int \<Rightarrow> int" where
  "TimeUTCMicros utc_ns = utc_ns sdiv kNumNanosecsPerMicrosec"

definition TimeUTCMillis :: "int \<Rightarrow> int" where
  "TimeUTCMillis utc_ns = TimeUTCMicros utc_ns sdiv kNumMicrosecsPerMillisec"

lemmas time_defs = SystemTimeNanos_def CurrentTimeNanos_def CurrentTimeMicros_def
  SystemTimeMillis_def TimeNanos_def Time32_def TimeMillis_def Time_def TimeMicros_def
  TimeAfter_def TimeDiff32_def TimeDiff_def TimeSince_def TimeUntil_def TimeUTCMicros_def
  TimeUTCMillis_def

section \<open>Lemmas\<close>

lemma CurrentTimeMicros_mono: "a \<le> b \<Longrightarrow> CurrentTimeMicros a \<le> CurrentTimeMicros b"
  by (simp add: time_defs sdiv_mono)

lemma TimeMillis_mono: "a \<le> b \<Longrightarrow> TimeMillis a \<le> TimeMillis b"
  by (simp add: time_defs sdiv_mono)

lemma sdiv_sdiv:
  fixes a b c :: int
  assumes "0 < b" and "0 < c"
  shows "a sdiv b sdiv c = a sdiv (b * c)"
proof (cases "0 \<le> a")
  case True
  with assms show ?thesis by (simp add: zdiv_zmult2_eq pos_imp_zdiv_nonneg_iff)
next
  case False
  have nn: "0 \<le> (- a) div b" using False assms by (simp add: pos_imp_zdiv_nonneg_iff)
  have "(- x) sdiv c = - (x div c)" if "0 \<le> x" for x :: int
    using that assms by (cases "x = 0") (simp_all add: sdiv_neg_eq)
  from this [OF nn] have "a sdiv b sdiv c = - ((- a) div b div c)"
    using False assms by (simp add: sdiv_neg_eq)
  then show ?thesis using False assms by (simp add: sdiv_neg_eq zdiv_zmult2_eq)
qed

lemma TimeMicros_to_Millis: "TimeMicros ns sdiv kNumMicrosecsPerMillisec = TimeMillis ns"
  by (simp add: time_defs sdiv_sdiv)

section \<open>Properties\<close>

text \<open>Subtracting two 32-bit millisecond stamps with \<^verbatim>\<open>TimeDiff32\<close> gives the exact signed
  number of milliseconds between the two clock readings, however often the 32-bit stamp has
  wrapped around, as long as the readings are less than 2 to the 31 milliseconds apart.\<close>

lemma TimeDiff32_exact_across_wrap:
  assumes "fits_int32 (TimeDiff (TimeMillis later) (TimeMillis earlier))"
  shows "TimeDiff32 (Time32 later) (Time32 earlier) =
         TimeDiff (TimeMillis later) (TimeMillis earlier)"
proof -
  have "Time32 later - Time32 earlier = to_uint32 (TimeMillis later - TimeMillis earlier)"
    by (simp add: Time32_def TimeMillis_def to_uint32_def)
  with to_int32_id [OF assms] show ?thesis
    by (simp add: TimeDiff32_def to_int32_def TimeDiff_def)
qed

lemma TimeDiff32_exact_across_wrap_example:
  "Time32 (4294967300 * 1000000) < Time32 (4294967290 * 1000000) \<and>
   TimeDiff32 (Time32 (4294967300 * 1000000)) (Time32 (4294967290 * 1000000)) = 10"
proof -
  have "fits_int32 (TimeDiff (TimeMillis (4294967300 * 1000000)) (TimeMillis (4294967290 * 1000000)))"
    by (simp add: fits_int32_def time_defs)
  from TimeDiff32_exact_across_wrap [OF this] show ?thesis
    by (simp add: time_defs to_uint32_def)
qed

text \<open>Time stamps are coherent: a stamp \<^verbatim>\<open>TimeAfter(elapsed)\<close> taken at one reading and
  compared at a later one with \<^verbatim>\<open>TimeUntil\<close>, \<^verbatim>\<open>TimeDiff\<close> or \<^verbatim>\<open>TimeSince\<close> leaves exactly \<^verbatim>\<open>elapsed\<close>
  minus the milliseconds that passed in between, never more than \<^verbatim>\<open>elapsed\<close>; and going through
  microseconds loses nothing over reading milliseconds directly.\<close>

lemma time_stamps_coherent:
  assumes "ns \<le> ns'"
  shows "TimeUntil ns' (TimeAfter ns elapsed) = elapsed - TimeSince ns' (TimeMillis ns) \<and>
         TimeDiff (TimeAfter ns elapsed) (TimeMillis ns') \<le> elapsed \<and>
         TimeMicros ns sdiv kNumMicrosecsPerMillisec = TimeMillis ns \<and>
         TimeUTCMillis ns = ns sdiv kNumNanosecsPerMillisec"
  using TimeMillis_mono [OF assms] TimeMicros_to_Millis [of ns]
  by (simp add: TimeUntil_def TimeAfter_def TimeSince_def TimeDiff_def TimeUTCMillis_def
      TimeUTCMicros_def sdiv_sdiv)

end
