(* ===== verification/EventLoopBase.thy ===== *)
theory EventLoopBase
  imports TimeUtils
begin

text \<open>
  \<^verbatim>\<open>src/task_queue_base.h\<close>, \<^verbatim>\<open>src/event_loop.h\<close> and \<^verbatim>\<open>src/event_loop.cc\<close>: the task queue interface
  and the platform-independent part of the event loop, as one thread sees it (the interleaving of threads is in
  the theory \<open>LoopThreads\<close>).

  The loop is a record that the Windows loop extends, as the C++ class is derived; the virtual
  members \<^verbatim>\<open>WakeUp\<close> and \<^verbatim>\<open>PostDelayedTaskOnTaskQueue\<close> are arguments of the operations that call
  them.  A queued \<^verbatim>\<open>absl::AnyInvocable\<close> is a \<open>closure\<close>: a task of the user, or one of the two
  lambdas the loop itself posts.  What a user task does when it runs is the argument \<open>run\<close> (or \<open>exec\<close>), an
  arbitrary state transformer.  The calling thread is the argument \<open>self\<close>.  The steady clock is
  the argument \<open>clk\<close>: its \<open>n\<close>-th reading, where \<open>env_calls\<close> counts the readings made.
\<close>

section \<open>Data\<close>

datatype ('u, 'd) closure =
  UserTask 'u
| PostDelayedClosure 'u int 'd
| BlockingClosure 'u nat

record ('u, 'd) EventLoop =
  thread_id_m :: u32
  running_m :: bool
  pending_m :: "('u, 'd) closure list"
  done_set :: "nat set"
  env_calls :: nat

datatype DelayPrecision = kLow | kHigh

record PostDelayedTaskTraits =
  high_precision :: bool

definition EventLoop_new :: "('u, 'd) EventLoop" where
  "EventLoop_new =
     \<lparr>thread_id_m = - 1, running_m = False, pending_m = [], done_set = {}, env_calls = 0\<rparr>"

section \<open>Operations\<close>

text \<open>
  \<^verbatim>\<open>ToCmsWait\<close>: the operands of the conditional have the common type \<^verbatim>\<open>int64_t\<close>; the return
  type is \<^verbatim>\<open>int\<close>.  \<open>INFINITE\<close> is the constant of the Windows headers.
\<close>

definition ToCmsWait :: "('d, 'z) absl_duration_scheme \<Rightarrow> int \<Rightarrow> 'd \<Rightarrow> int" where
  "ToCmsWait A INFINITE max_wait_duration =
     to_int32 (if max_wait_duration = InfiniteDuration A then INFINITE
               else max 1 (ToInt64Milliseconds A max_wait_duration))"

definition read_micros :: "(nat \<Rightarrow> int) \<Rightarrow> ('u, 'd, 'z) EventLoop_scheme
    \<Rightarrow> int \<times> ('u, 'd, 'z) EventLoop_scheme" where
  "read_micros clk l =
     (CurrentTimeMicros (clk (env_calls l)), l\<lparr>env_calls := Suc (env_calls l)\<rparr>)"

definition IsCurrent :: "u32 \<Rightarrow> ('u, 'd, 'z) EventLoop_scheme \<Rightarrow> bool" where
  "IsCurrent self l \<longleftrightarrow> thread_id_m l = self"

definition IsQuitting :: "('u, 'd, 'z) EventLoop_scheme \<Rightarrow> bool" where
  "IsQuitting l \<longleftrightarrow> running_m l \<noteq> True"

text \<open>The constructor of \<^verbatim>\<open>CurrentTaskQueueSetter\<close>, and \<^verbatim>\<open>Begin\<close>, which uses it.\<close>

definition CurrentTaskQueueSetter ::
  "u32 \<Rightarrow> ('u, 'd, 'z) EventLoop_scheme \<Rightarrow> ('u, 'd, 'z) EventLoop_scheme" where
  "CurrentTaskQueueSetter self task_queue = task_queue\<lparr>thread_id_m := self\<rparr>"

definition Begin ::
  "u32 \<Rightarrow> ('u, 'd, 'z) EventLoop_scheme \<Rightarrow> ('u, 'd, 'z) EventLoop_scheme" where
  "Begin self l = (CurrentTaskQueueSetter self l)\<lparr>running_m := True\<rparr>"

text \<open>
  Destroying a closure: the lambda of a blocking call owns an \<^verbatim>\<open>absl::Cleanup\<close> that sets the
  caller's \<^verbatim>\<open>done\<close> event.
\<close>

definition destroy ::
  "('u, 'd) closure \<Rightarrow> ('u, 'd, 'z) EventLoop_scheme \<Rightarrow> ('u, 'd, 'z) EventLoop_scheme" where
  "destroy c l =
     (case c of BlockingClosure f e \<Rightarrow> l\<lparr>done_set := insert e (done_set l)\<rparr> | _ \<Rightarrow> l)"

text \<open>\<^verbatim>\<open>Quit\<close>: the swapped-out tasks are destroyed at the end of the inner scope.\<close>

definition Quit :: "('u, 'd, 'z) EventLoop_scheme \<Rightarrow> ('u, 'd, 'z) EventLoop_scheme" where
  "Quit l = (fold destroy (pending_m l) (l\<lparr>pending_m := []\<rparr>))\<lparr>running_m := False\<rparr>"

definition RunPendingTasks ::
  "(('u, 'd) closure \<Rightarrow> ('u, 'd, 'z) EventLoop_scheme \<Rightarrow> ('u, 'd, 'z) EventLoop_scheme)
     \<Rightarrow> ('u, 'd, 'z) EventLoop_scheme \<Rightarrow> ('u, 'd, 'z) EventLoop_scheme" where
  "RunPendingTasks run l =
     (if pending_m l = [] then l
      else fold (\<lambda>task l. destroy task (run task l)) (pending_m l) (l\<lparr>pending_m := []\<rparr>))"

text \<open>
  \<^verbatim>\<open>PostTaskImpl\<close>.  Both branches append; they differ in whether \<^verbatim>\<open>pending_lock_\<close> is held.  A
  refused task is destroyed with the parameter that holds it.
\<close>

definition PostTaskImpl ::
  "u32 \<Rightarrow> (('u, 'd, 'z) EventLoop_scheme \<Rightarrow> ('u, 'd, 'z) EventLoop_scheme)
     \<Rightarrow> ('u, 'd) closure \<Rightarrow> ('u, 'd, 'z) EventLoop_scheme \<Rightarrow> ('u, 'd, 'z) EventLoop_scheme" where
  "PostTaskImpl self WakeUp task l =
     (if IsQuitting l then destroy task l
      else WakeUp (if IsCurrent self l
                   then l\<lparr>pending_m := pending_m l @ [task]\<rparr>
                   else l\<lparr>pending_m := pending_m l @ [task]\<rparr>))"

definition PostTask ::
  "u32 \<Rightarrow> (('u, 'd, 'z) EventLoop_scheme \<Rightarrow> ('u, 'd, 'z) EventLoop_scheme)
     \<Rightarrow> ('u, 'd) closure \<Rightarrow> ('u, 'd, 'z) EventLoop_scheme \<Rightarrow> ('u, 'd, 'z) EventLoop_scheme" where
  "PostTask self WakeUp task l = PostTaskImpl self WakeUp task l"

definition PostDelayedTaskImpl ::
  "('d, 'y) absl_duration_scheme \<Rightarrow> (nat \<Rightarrow> int) \<Rightarrow> u32
     \<Rightarrow> (('u, 'd, 'z) EventLoop_scheme \<Rightarrow> ('u, 'd, 'z) EventLoop_scheme)
     \<Rightarrow> ('u \<Rightarrow> int \<Rightarrow> 'd \<Rightarrow> ('u, 'd, 'z) EventLoop_scheme \<Rightarrow> ('u, 'd, 'z) EventLoop_scheme)
     \<Rightarrow> 'u \<Rightarrow> 'd \<Rightarrow> PostDelayedTaskTraits
     \<Rightarrow> ('u, 'd, 'z) EventLoop_scheme \<Rightarrow> ('u, 'd, 'z) EventLoop_scheme" where
  "PostDelayedTaskImpl A clk self WakeUp PostDelayedTaskOnTaskQueue task delay traits l =
     (if IsQuitting l then l
      else let (start_micros, l) = read_micros clk l
           in if dur_le A delay (ZeroDuration A) then PostTaskImpl self WakeUp (UserTask task) l
              else if IsCurrent self l then PostDelayedTaskOnTaskQueue task start_micros delay l
              else PostTask self WakeUp (PostDelayedClosure task start_micros delay) l)"

definition PostDelayedTask ::
  "('d, 'y) absl_duration_scheme \<Rightarrow> (nat \<Rightarrow> int) \<Rightarrow> u32
     \<Rightarrow> (('u, 'd, 'z) EventLoop_scheme \<Rightarrow> ('u, 'd, 'z) EventLoop_scheme)
     \<Rightarrow> ('u \<Rightarrow> int \<Rightarrow> 'd \<Rightarrow> ('u, 'd, 'z) EventLoop_scheme \<Rightarrow> ('u, 'd, 'z) EventLoop_scheme)
     \<Rightarrow> 'u \<Rightarrow> 'd \<Rightarrow> ('u, 'd, 'z) EventLoop_scheme \<Rightarrow> ('u, 'd, 'z) EventLoop_scheme" where
  "PostDelayedTask A clk self WakeUp on_queue task delay l =
     PostDelayedTaskImpl A clk self WakeUp on_queue task delay \<lparr>high_precision = False\<rparr> l"

definition PostDelayedHighPrecisionTask ::
  "('d, 'y) absl_duration_scheme \<Rightarrow> (nat \<Rightarrow> int) \<Rightarrow> u32
     \<Rightarrow> (('u, 'd, 'z) EventLoop_scheme \<Rightarrow> ('u, 'd, 'z) EventLoop_scheme)
     \<Rightarrow> ('u \<Rightarrow> int \<Rightarrow> 'd \<Rightarrow> ('u, 'd, 'z) EventLoop_scheme \<Rightarrow> ('u, 'd, 'z) EventLoop_scheme)
     \<Rightarrow> 'u \<Rightarrow> 'd \<Rightarrow> ('u, 'd, 'z) EventLoop_scheme \<Rightarrow> ('u, 'd, 'z) EventLoop_scheme" where
  "PostDelayedHighPrecisionTask A clk self WakeUp on_queue task delay l =
     PostDelayedTaskImpl A clk self WakeUp on_queue task delay \<lparr>high_precision = True\<rparr> l"

definition PostDelayedTaskWithPrecision ::
  "DelayPrecision \<Rightarrow> ('d, 'y) absl_duration_scheme \<Rightarrow> (nat \<Rightarrow> int) \<Rightarrow> u32
     \<Rightarrow> (('u, 'd, 'z) EventLoop_scheme \<Rightarrow> ('u, 'd, 'z) EventLoop_scheme)
     \<Rightarrow> ('u \<Rightarrow> int \<Rightarrow> 'd \<Rightarrow> ('u, 'd, 'z) EventLoop_scheme \<Rightarrow> ('u, 'd, 'z) EventLoop_scheme)
     \<Rightarrow> 'u \<Rightarrow> 'd \<Rightarrow> ('u, 'd, 'z) EventLoop_scheme \<Rightarrow> ('u, 'd, 'z) EventLoop_scheme" where
  "PostDelayedTaskWithPrecision precision A clk self WakeUp on_queue task delay l =
     (case precision of
        kLow \<Rightarrow> PostDelayedTask A clk self WakeUp on_queue task delay l
      | kHigh \<Rightarrow> PostDelayedHighPrecisionTask A clk self WakeUp on_queue task delay l)"

text \<open>
  \<^verbatim>\<open>BlockingCallImpl\<close>.  The second component is the \<^verbatim>\<open>done\<close> event the caller goes on to wait for, if
  any: the call returns when that event is in \<open>done_set\<close>.  \<open>e\<close> identifies the caller's fresh,
  unset event.
\<close>

definition BlockingCallImpl ::
  "u32 \<Rightarrow> (('u, 'd, 'z) EventLoop_scheme \<Rightarrow> ('u, 'd, 'z) EventLoop_scheme)
     \<Rightarrow> ('u \<Rightarrow> ('u, 'd, 'z) EventLoop_scheme \<Rightarrow> ('u, 'd, 'z) EventLoop_scheme)
     \<Rightarrow> nat \<Rightarrow> 'u \<Rightarrow> ('u, 'd, 'z) EventLoop_scheme \<Rightarrow> ('u, 'd, 'z) EventLoop_scheme \<times> nat option" where
  "BlockingCallImpl self WakeUp call e functor l =
     (if IsQuitting l then (l, None)
      else if IsCurrent self l then (call functor l, None)
      else (PostTask self WakeUp (BlockingClosure functor e)
              (l\<lparr>done_set := done_set l - {e}\<rparr>), Some e))"

text \<open>\<^verbatim>\<open>BlockingCall\<close> of a functor without a result.\<close>

definition BlockingCall_void ::
  "u32 \<Rightarrow> (('u, 'd, 'z) EventLoop_scheme \<Rightarrow> ('u, 'd, 'z) EventLoop_scheme)
     \<Rightarrow> ('u \<Rightarrow> ('u, 'd, 'z) EventLoop_scheme \<Rightarrow> ('u, 'd, 'z) EventLoop_scheme)
     \<Rightarrow> nat \<Rightarrow> 'u \<Rightarrow> ('u, 'd, 'z) EventLoop_scheme \<Rightarrow> ('u, 'd, 'z) EventLoop_scheme \<times> nat option" where
  "BlockingCall_void self WakeUp call e functor l = BlockingCallImpl self WakeUp call e functor l"

text \<open>
  \<^verbatim>\<open>BlockingCall\<close> of a functor with a result: the lambda stores it in the caller's local variable \<^verbatim>\<open>result\<close>,
  which is not initialised and which the caller reads when it goes on.  Those variables, each under the number of its caller's
  event, are part of the state: \<open>upd\<close> updates them, and a value never stored is \<open>None\<close>.
\<close>

definition store_result ::
  "(((nat \<rightharpoonup> 'r) \<Rightarrow> nat \<rightharpoonup> 'r) \<Rightarrow> 'l \<Rightarrow> 'l) \<Rightarrow> ('u \<Rightarrow> 'l \<Rightarrow> 'r \<times> 'l) \<Rightarrow> 'u \<times> nat \<Rightarrow> 'l \<Rightarrow> 'l" where
  "store_result upd functor fe l =
     (let (r, l) = functor (fst fe) l in upd (\<lambda>result. result(snd fe \<mapsto> r)) l)"

definition BlockingCall ::
  "(((nat \<rightharpoonup> 'r) \<Rightarrow> nat \<rightharpoonup> 'r) \<Rightarrow> ('u \<times> nat, 'd, 'z) EventLoop_scheme \<Rightarrow> ('u \<times> nat, 'd, 'z) EventLoop_scheme) \<Rightarrow> u32
     \<Rightarrow> (('u \<times> nat, 'd, 'z) EventLoop_scheme \<Rightarrow> ('u \<times> nat, 'd, 'z) EventLoop_scheme)
     \<Rightarrow> ('u \<Rightarrow> ('u \<times> nat, 'd, 'z) EventLoop_scheme \<Rightarrow> 'r \<times> ('u \<times> nat, 'd, 'z) EventLoop_scheme)
     \<Rightarrow> nat \<Rightarrow> 'u \<Rightarrow> ('u \<times> nat, 'd, 'z) EventLoop_scheme \<Rightarrow> ('u \<times> nat, 'd, 'z) EventLoop_scheme \<times> nat option" where
  "BlockingCall upd self WakeUp functor e f l =
     BlockingCall_void self WakeUp (store_result upd functor) e (f, e) (upd (\<lambda>result. result(e := None)) l)"

lemmas loop_defs = IsCurrent_def IsQuitting_def CurrentTaskQueueSetter_def Begin_def
  PostTask_def PostTaskImpl_def

section \<open>Lemmas\<close>

lemma destroy_fields [simp]:
  "thread_id_m (destroy c l) = thread_id_m l" "running_m (destroy c l) = running_m l"
  "pending_m (destroy c l) = pending_m l" "env_calls (destroy c l) = env_calls l"
  "EventLoop.more (destroy c l) = EventLoop.more l"
  by (simp_all add: destroy_def split: closure.splits)

lemma done_set_destroy:
  "done_set (destroy c l) =
     (case c of BlockingClosure f e \<Rightarrow> insert e (done_set l) | _ \<Rightarrow> done_set l)"
  by (simp add: destroy_def split: closure.splits)

definition released :: "('u, 'd) closure list \<Rightarrow> nat set" where
  "released cs = {e. \<exists>f. BlockingClosure f e \<in> set cs}"

lemma released_simps [simp]:
  "released [] = {}"
  "released (c # cs) = (case c of BlockingClosure f e \<Rightarrow> {e} | _ \<Rightarrow> {}) \<union> released cs"
  by (auto simp: released_def split: closure.splits)

lemma fold_destroy_fields [simp]:
  "thread_id_m (fold destroy cs l) = thread_id_m l" "running_m (fold destroy cs l) = running_m l"
  "pending_m (fold destroy cs l) = pending_m l" "env_calls (fold destroy cs l) = env_calls l"
  "EventLoop.more (fold destroy cs l) = EventLoop.more l"
  by (induction cs arbitrary: l) simp_all

lemma done_set_fold_destroy: "done_set (fold destroy cs l) = released cs \<union> done_set l"
  by (induction cs arbitrary: l) (auto simp: done_set_destroy split: closure.splits)

lemma fold_run_released:
  assumes mono: "\<And>c l. done_set l \<subseteq> done_set (run c l)"
  shows "released cs \<union> done_set l \<subseteq> done_set (fold (\<lambda>c l. destroy c (run c l)) cs l)"
proof (induction cs arbitrary: l)
  case (Cons c cs)
  have "done_set l \<subseteq> done_set (destroy c (run c l))"
    using mono [of l c] by (auto simp: done_set_destroy split: closure.splits)
  moreover have "(case c of BlockingClosure f e \<Rightarrow> {e} | _ \<Rightarrow> {}) \<subseteq> done_set (destroy c (run c l))"
    by (simp add: done_set_destroy split: closure.splits)
  ultimately show ?case using Cons.IH [of "destroy c (run c l)"] by auto
qed simp

text \<open>
  Running the tasks of one round when each task appends to the queue what it posts and to the log its own
  name: the log grows by exactly the round's tasks, in order.
\<close>

lemma fold_run_trace:
  assumes step: "\<And>c l. log (run c l) = log l @ [c]"
    and ext: "\<And>c l. log (destroy c l) = log l"
  shows "log (fold (\<lambda>c l. destroy c (run c l)) cs l) = log l @ cs"
  by (induction cs arbitrary: l) (simp_all add: step ext)

lemma fold_run_pending:
  assumes "\<And>c l. pending_m (run c l) = pending_m l @ posts c"
  shows "pending_m (fold (\<lambda>c l. destroy c (run c l)) cs l) = pending_m l @ concat (map posts cs)"
  by (induction cs arbitrary: l) (simp_all add: assms)

text \<open>
  The interface of a loop's implementation as the posting operations see it: \<^verbatim>\<open>WakeUp\<close> leaves the queue and its
  clients alone, and the local variables of blocked callers are not the loop's data.
\<close>

locale calling_loop =
  fixes WakeUp :: "('u \<times> nat, 'd, 'z) EventLoop_scheme \<Rightarrow> ('u \<times> nat, 'd, 'z) EventLoop_scheme"
    and results :: "('u \<times> nat, 'd, 'z) EventLoop_scheme \<Rightarrow> nat \<rightharpoonup> 'r"
    and upd :: "((nat \<rightharpoonup> 'r) \<Rightarrow> nat \<rightharpoonup> 'r) \<Rightarrow> ('u \<times> nat, 'd, 'z) EventLoop_scheme \<Rightarrow> ('u \<times> nat, 'd, 'z) EventLoop_scheme"
  assumes pending_WakeUp [simp]: "pending_m (WakeUp l) = pending_m l"
    and results_WakeUp [simp]: "results (WakeUp l) = results l"
    and results_upd [simp]: "results (upd f l) = f (results l)"
    and upd_fields [simp]: "pending_m (upd f l) = pending_m l" "running_m (upd f l) = running_m l"
      "thread_id_m (upd f l) = thread_id_m l"
    and results_fields [simp]: "results (l\<lparr>pending_m := cs\<rparr>) = results l" "results (l\<lparr>done_set := es\<rparr>) = results l"
      "results (l\<lparr>running_m := b\<rparr>) = results l"
begin

lemma results_destroy [simp]: "results (destroy c l) = results l"
  by (simp add: destroy_def split: closure.split)

lemma results_fold_destroy [simp]: "results (fold destroy cs l) = results l"
  by (induction cs arbitrary: l) simp_all

text \<open>A blocking call with a result that the loop refuses, or that \<^verbatim>\<open>Quit\<close> drops, releases its caller as well, which then
  returns the uninitialised variable.\<close>

lemma dropped_call:
  assumes "running_m l" and "thread_id_m l \<noteq> self"
  shows "snd (BlockingCall upd self WakeUp functor e f l) = Some e \<and>
    e \<in> done_set (Quit (fst (BlockingCall upd self WakeUp functor e f l))) \<and>
    results (Quit (fst (BlockingCall upd self WakeUp functor e f l))) e = None"
  using assms
  by (simp add: BlockingCall_def BlockingCall_void_def BlockingCallImpl_def loop_defs Quit_def done_set_fold_destroy done_set_destroy)

lemma refused_call:
  "snd (BlockingCall upd self WakeUp functor e f (Quit l)) = None \<and>
   results (fst (BlockingCall upd self WakeUp functor e f (Quit l))) e = None"
  by (simp add: BlockingCall_def BlockingCall_void_def BlockingCallImpl_def loop_defs Quit_def)

text \<open>On the loop's own thread the functor is called at once, and its result is the variable's value.\<close>

lemma own_call:
  assumes "running_m l" and "thread_id_m l = self"
  shows "snd (BlockingCall upd self WakeUp functor e f l) = None \<and>
    results (fst (BlockingCall upd self WakeUp functor e f l)) e =
      Some (fst (functor f (upd (\<lambda>result. result(e := None)) l)))"
  using assms
  by (simp add: BlockingCall_def BlockingCall_void_def BlockingCallImpl_def loop_defs store_result_def split: prod.split)

end

section \<open>Properties\<close>

text \<open>One round of \<^verbatim>\<open>RunPendingTasks\<close> executes exactly the tasks that were pending when it
  started, each once and in the order they were posted (\<open>log\<close> observes the executions); whatever
  the tasks post while they run is left, in order, for the next round.\<close>

lemma RunPendingTasks_fifo:
  assumes "\<And>c l. log (run c l) = log l @ [c]"
    and "\<And>c l. log (destroy c l) = log l" and "\<And>l. log (l\<lparr>pending_m := []\<rparr>) = log l"
    and "\<And>c l. pending_m (run c l) = pending_m l @ posts c"
  shows "log (RunPendingTasks run l) = log l @ pending_m l \<and>
         pending_m (RunPendingTasks run l) = concat (map posts (pending_m l))"
  using fold_run_trace [of log run, OF assms(1,2)] fold_run_pending [of run posts, OF assms(4)]
  by (simp add: RunPendingTasks_def assms(3))

lemma RunPendingTasks_fifo_example:
  "EventLoop.more (RunPendingTasks (\<lambda>c l. EventLoop.more_update (\<lambda>t. t @ [c]) l)
     \<lparr>thread_id_m = 1, running_m = True,
      pending_m = [UserTask (0 :: nat), PostDelayedClosure 1 5 (Micros 3)], done_set = {},
      env_calls = 0, \<dots> = []\<rparr>)
   = [UserTask 0, PostDelayedClosure 1 5 (Micros 3)]"
  using RunPendingTasks_fifo [of EventLoop.more "\<lambda>c l. EventLoop.more_update (\<lambda>t. t @ [c]) l" "\<lambda>_. []"
      "\<lparr>thread_id_m = 1, running_m = True,
      pending_m = [UserTask (0 :: nat), PostDelayedClosure 1 5 (Micros 3)], done_set = {},
      env_calls = 0, \<dots> = []\<rparr>"]
  by simp

text \<open>A thread blocked in \<^verbatim>\<open>BlockingCall\<close> is always released: its \<^verbatim>\<open>done\<close> event is set when
  the post is refused because the loop is quitting, when the loop runs its pending tasks, and
  when \<^verbatim>\<open>Quit\<close> drops them.\<close>

lemma BlockingCall_released:
  assumes post: "BlockingCallImpl self WakeUp call e functor l = (l', Some e)"
    and wake: "\<And>l. pending_m (WakeUp l) = pending_m l"
    and mono: "\<And>c l. done_set l \<subseteq> done_set (run c l)"
  shows "BlockingClosure functor e \<in> set (pending_m l') \<and>
         e \<in> done_set (RunPendingTasks run l') \<and> e \<in> done_set (Quit l') \<and>
         e \<in> done_set (PostTask self WakeUp (BlockingClosure functor e) (Quit l))"
proof -
  from post have l': "l' = WakeUp (l\<lparr>done_set := done_set l - {e},
      pending_m := pending_m l @ [BlockingClosure functor e]\<rparr>)"
    by (auto simp: BlockingCallImpl_def loop_defs split: if_splits)
  then have q: "BlockingClosure functor e \<in> set (pending_m l')" by (simp add: wake)
  then have r: "e \<in> released (pending_m l')" by (auto simp: released_def)
  from q have "pending_m l' \<noteq> []" by auto
  with r have "e \<in> done_set (RunPendingTasks run l')"
    using fold_run_released [of run "pending_m l'" "l'\<lparr>pending_m := []\<rparr>", OF mono]
    by (auto simp: RunPendingTasks_def)
  moreover from r have "e \<in> done_set (Quit l')"
    by (simp add: Quit_def done_set_fold_destroy)
  ultimately show ?thesis
    using q by (simp add: PostTask_def PostTaskImpl_def IsQuitting_def Quit_def done_set_destroy)
qed

lemma BlockingCall_released_example:
  "3 \<in> done_set (RunPendingTasks (\<lambda>_ l. l)
     (fst (BlockingCallImpl 2 id (\<lambda>_ l. l) 3 (0 :: nat)
        (Begin 1 EventLoop_new :: (nat, micros) EventLoop))))"
proof -
  let ?l = "Begin 1 EventLoop_new :: (nat, micros) EventLoop"
  have "BlockingCallImpl 2 id (\<lambda>_ l. l) 3 (0 :: nat) ?l =
    (fst (BlockingCallImpl 2 id (\<lambda>_ l. l) 3 (0 :: nat) ?l), Some 3)"
    by (simp add: BlockingCallImpl_def loop_defs EventLoop_new_def)
  from BlockingCall_released [OF this, of "\<lambda>_ l. l"] show ?thesis by simp
qed

text \<open>For every finite duration whose millisecond count fits an \<^verbatim>\<open>int\<close>, \<^verbatim>\<open>ToCmsWait\<close> gives
  that count rounded up to at least one millisecond, and the \<^verbatim>\<open>DWORD\<close> the wait call receives is
  the same number; the infinite duration gives the \<^verbatim>\<open>INFINITE\<close> time-out.\<close>

lemma ToCmsWait_exact:
  assumes "ToInt64Milliseconds A d < 2 ^ 31" and "d \<noteq> InfiniteDuration A"
    and "INFINITE = 2 ^ 32 - 1"
  shows "ToCmsWait A INFINITE d = max 1 (ToInt64Milliseconds A d) \<and>
         uint (to_uint32 (ToCmsWait A INFINITE d)) = max 1 (ToInt64Milliseconds A d) \<and>
         ToCmsWait A INFINITE (InfiniteDuration A) = - 1 \<and>
         uint (to_uint32 (ToCmsWait A INFINITE (InfiniteDuration A))) = INFINITE"
proof -
  let ?ms = "max 1 (ToInt64Milliseconds A d)"
  have "fits_int32 ?ms" using assms(1) by (auto simp: fits_int32_def)
  then have c: "ToCmsWait A INFINITE d = ?ms"
    using assms(2) by (simp add: ToCmsWait_def to_int32_id)
  have "uint (to_uint32 ?ms) = ?ms"
    using assms(1) by (auto simp: to_uint32_def uint_word_of_int)
  with c show ?thesis
    by (simp add: ToCmsWait_def assms(3) to_int32_def to_uint32_def)
qed

lemma ToCmsWait_exact_example:
  "ToCmsWait micros_duration (2 ^ 32 - 1) (Micros 2500) = 2"
  using ToCmsWait_exact [of micros_duration "Micros 2500" "2 ^ 32 - 1"] by simp

text \<open>A finite duration of 2 to the 32 milliseconds (about 50 days) and one of 2 to the 32
  minus one milliseconds do not survive the narrowing to \<^verbatim>\<open>int\<close>: \<^verbatim>\<open>ToCmsWait\<close> returns 0 for the
  first, below the minimum of one millisecond it computes, and -1, the infinite time-out, for the second.\<close>

lemma ToCmsWait_narrowing:
  "ToCmsWait micros_duration (2 ^ 32 - 1) (Micros (2 ^ 32 * 1000)) = 0 \<and>
   ToCmsWait micros_duration (2 ^ 32 - 1) (Micros ((2 ^ 32 - 1) * 1000)) = - 1"
  by (simp add: ToCmsWait_def to_int32_def to_uint32_def)

text \<open>Posting a delayed task: a quitting loop drops it; a delay of zero or less posts it for
  immediate execution; on the loop's own thread it goes to the timer queue with the current time
  as its start; from another thread a closure carrying that start time is queued and the loop is woken, so that
  the time spent in the queue can be compensated.  The precision of the request makes no
  difference to this loop.\<close>

lemma PostDelayedTask_branches:
  assumes "running_m l"
  shows "PostDelayedTaskWithPrecision prec A clk self WakeUp on_queue task delay l =
           (let l1 = l\<lparr>env_calls := Suc (env_calls l)\<rparr>; start = CurrentTimeMicros (clk (env_calls l))
            in if dur_le A delay (ZeroDuration A)
               then WakeUp (l1\<lparr>pending_m := pending_m l @ [UserTask task]\<rparr>)
               else if thread_id_m l = self then on_queue task start delay l1
               else WakeUp (l1\<lparr>pending_m := pending_m l @ [PostDelayedClosure task start delay]\<rparr>)) \<and>
         PostDelayedTaskWithPrecision prec A clk self WakeUp on_queue task delay (Quit l) = Quit l"
  using assms
  by (simp add: PostDelayedTaskWithPrecision_def PostDelayedTask_def PostDelayedHighPrecisionTask_def
      PostDelayedTaskImpl_def read_micros_def loop_defs Quit_def Let_def split: DelayPrecision.split)

lemma PostDelayedTask_branches_example:
  "pending_m (PostDelayedTaskWithPrecision kLow micros_duration (\<lambda>n. 7000) 2 id (\<lambda>_ _ _ l. l)
     (0 :: nat) (Micros 5) (Begin 1 EventLoop_new)) = [PostDelayedClosure 0 7 (Micros 5)]"
  using PostDelayedTask_branches [of "Begin 1 EventLoop_new" kLow micros_duration "\<lambda>n. 7000" 2 id
      "\<lambda>_ _ _ l. l" "0 :: nat" "Micros 5"]
  by (simp add: loop_defs EventLoop_new_def time_defs)

end
