(* ===== verification/TimerQueue.thy ===== *)
theory TimerQueue
  imports IO_Prelude
begin

text \<open>
  The queue of delayed tasks of the Windows loop: \<^verbatim>\<open>DelayedTaskInfo\<close> of \<^verbatim>\<open>src/event_loop_win.h\<close> and
  \<^verbatim>\<open>src/event_loop_win.cc\<close>, and the \<^verbatim>\<open>std::priority_queue\<close> ordered by \<^verbatim>\<open>std::greater\<close> that holds
  them (smallest due time on top).

  The queue is a list in the order of the due times, a new task behind those that are due at the
  same time.  C++ promises less about ties, so the loop's lemmas use only the locale \<open>min_queue\<close>:
  the top is a smallest element, \<^verbatim>\<open>pop\<close> removes the top, \<^verbatim>\<open>push\<close> adds one element, and pushing an
  element that is not smaller than the top leaves the top in place, as sifting up a heap does.
\<close>

section \<open>Delayed tasks and the priority queue\<close>

record 'u DelayedTaskInfo =
  due_time_micros_m :: int
  task_m :: "'u"

text \<open>\<^verbatim>\<open>operator>\<close>, which \<^verbatim>\<open>std::greater\<close> calls.\<close>

definition later_than :: "'u DelayedTaskInfo \<Rightarrow> 'u DelayedTaskInfo \<Rightarrow> bool" where
  "later_than a other \<longleftrightarrow> due_time_micros_m a > due_time_micros_m other"

text \<open>The constructor with a delay; \<open>now\<close> is the clock reading it makes.\<close>

definition DelayedTaskInfo_new ::
  "('d, 'z) absl_duration_scheme \<Rightarrow> int \<Rightarrow> 'd \<Rightarrow> 'u \<Rightarrow> 'u DelayedTaskInfo" where
  "DelayedTaskInfo_new A now delay task =
     \<lparr>due_time_micros_m = now + ToInt64Microseconds A delay, task_m = task\<rparr>"

fun pq_push :: "'u DelayedTaskInfo \<Rightarrow> 'u DelayedTaskInfo list \<Rightarrow> 'u DelayedTaskInfo list" where
  "pq_push x [] = [x]"
| "pq_push x (y # ys) = (if later_than y x then x # y # ys else y # pq_push x ys)"

definition pq_top :: "'u DelayedTaskInfo list \<Rightarrow> 'u DelayedTaskInfo" where
  "pq_top q = hd q"

definition pq_pop :: "'u DelayedTaskInfo list \<Rightarrow> 'u DelayedTaskInfo list" where
  "pq_pop q = tl q"

definition pq_wf :: "'u DelayedTaskInfo list \<Rightarrow> bool" where
  "pq_wf q \<longleftrightarrow> sorted (map due_time_micros_m q)"

section \<open>The contract\<close>

locale min_queue =
  fixes key :: "'a \<Rightarrow> int"
    and push :: "'a \<Rightarrow> 'q \<Rightarrow> 'q"
    and top :: "'q \<Rightarrow> 'a"
    and pop :: "'q \<Rightarrow> 'q"
    and elems :: "'q \<Rightarrow> 'a multiset"
    and wf :: "'q \<Rightarrow> bool"
  assumes elems_push: "elems (push x q) = add_mset x (elems q)"
    and top_in: "wf q \<Longrightarrow> elems q \<noteq> {#} \<Longrightarrow> top q \<in># elems q"
    and top_least: "wf q \<Longrightarrow> x \<in># elems q \<Longrightarrow> key (top q) \<le> key x"
    and elems_pop: "wf q \<Longrightarrow> elems q \<noteq> {#} \<Longrightarrow> elems (pop q) = elems q - {#top q#}"
    and wf_push: "wf q \<Longrightarrow> wf (push x q)"
    and wf_pop: "wf q \<Longrightarrow> wf (pop q)"
    and push_top: "wf q \<Longrightarrow> elems q \<noteq> {#} \<Longrightarrow> key (top q) \<le> key x \<Longrightarrow> top (push x q) = top q"
begin

lemma wf_fold_push: "wf q \<Longrightarrow> wf (fold push xs q)"
  by (induction xs arbitrary: q) (simp_all add: wf_push)

lemma elems_fold_push: "elems (fold push xs q) = elems q + mset xs"
  by (induction xs arbitrary: q) (simp_all add: elems_push)

lemma top_fold_push:
  "wf q \<Longrightarrow> elems q \<noteq> {#} \<Longrightarrow> (\<And>x. x \<in> set xs \<Longrightarrow> key (top q) \<le> key x)
     \<Longrightarrow> top (fold push xs q) = top q"
proof (induction xs arbitrary: q)
  case (Cons x xs)
  have "top (push x q) = top q" using Cons.prems by (simp add: push_top)
  moreover have "elems (push x q) \<noteq> {#}" by (simp add: elems_push)
  ultimately show ?case using Cons by (simp add: wf_push)
qed simp

text \<open>
  Running the top and popping afterwards: whatever elements not smaller than the top are pushed in
  between, the pop removes exactly the element that was on top.
\<close>

lemma run_then_pop:
  assumes "wf q" and "elems q \<noteq> {#}" and "\<And>x. x \<in> set xs \<Longrightarrow> key (top q) \<le> key x"
  shows "elems (pop (fold push xs q)) = (elems q - {#top q#}) + mset xs"
proof -
  have "elems (fold push xs q) \<noteq> {#}" using assms(2) by (simp add: elems_fold_push)
  then have "elems (pop (fold push xs q)) = elems q + mset xs - {#top q#}"
    using elems_pop [OF wf_fold_push [OF assms(1)]] top_fold_push [OF assms]
    by (simp add: elems_fold_push)
  then show ?thesis using top_in [OF assms(1,2)] by (simp add: multiset_diff_union_assoc)
qed

lemma nothing_due: "wf q \<Longrightarrow> now < key (top q) \<Longrightarrow> {#x \<in># elems q. key x \<le> now#} = {#}"
  using top_least by (fastforce simp: filter_mset_eq_mempty_iff)

text \<open>
  The elements due at \<open>now\<close>, after running and popping the top: one fewer, when what was pushed
  is due later.
\<close>

lemma due_after_run:
  assumes "wf q" and "elems q \<noteq> {#}" and "key (top q) \<le> now"
    and "\<And>x. x \<in> set xs \<Longrightarrow> now < key x"
  shows "{#x \<in># elems q. key x \<le> now#} =
         add_mset (top q) {#x \<in># elems (pop (fold push xs q)). key x \<le> now#}"
proof -
  have "elems (pop (fold push xs q)) = (elems q - {#top q#}) + mset xs"
    using run_then_pop [OF assms(1,2), of xs] assms(3,4) by fastforce
  moreover have "{#x \<in># mset xs. key x \<le> now#} = {#}"
    using assms(4) by fastforce
  ultimately have "{#x \<in># elems (pop (fold push xs q)). key x \<le> now#} =
      {#x \<in># elems q. key x \<le> now#} - {#top q#}"
    using assms(3) by (simp del: filter_mset_eq_mempty_iff)
  then show ?thesis using top_in [OF assms(1,2)] assms(3) by simp
qed

end

section \<open>The model's queue meets the contract\<close>

lemma mset_pq_push [simp]: "mset (pq_push x q) = add_mset x (mset q)"
  by (induction q) auto

lemma set_pq_push [simp]: "set (pq_push x q) = insert x (set q)"
  by (induction q) auto

lemma pq_wf_push: "pq_wf q \<Longrightarrow> pq_wf (pq_push x q)"
  by (induction q) (auto simp: pq_wf_def later_than_def)

lemma pq_top_least: "pq_wf q \<Longrightarrow> x \<in> set q \<Longrightarrow> due_time_micros_m (pq_top q) \<le> due_time_micros_m x"
  by (cases q) (auto simp: pq_wf_def pq_top_def)

interpretation pq: min_queue due_time_micros_m pq_push pq_top pq_pop mset pq_wf
proof unfold_locales
  fix x :: "'u DelayedTaskInfo" and q
  show "mset (pq_push x q) = add_mset x (mset q)" by simp
  show "pq_top q \<in># mset q" if "mset q \<noteq> {#}" using that by (cases q) (auto simp: pq_top_def)
  show "due_time_micros_m (pq_top q) \<le> due_time_micros_m x" if "pq_wf q" "x \<in># mset q"
    using that pq_top_least by simp
  show "mset (pq_pop q) = mset q - {#pq_top q#}" if "mset q \<noteq> {#}"
    using that by (cases q) (auto simp: pq_pop_def pq_top_def)
  show "pq_wf (pq_push x q)" if "pq_wf q" using that by (rule pq_wf_push)
  show "pq_wf (pq_pop q)" if "pq_wf q" using that by (cases q) (auto simp: pq_wf_def pq_pop_def)
  show "pq_top (pq_push x q) = pq_top q"
    if "mset q \<noteq> {#}" "due_time_micros_m (pq_top q) \<le> due_time_micros_m x"
    using that by (cases q) (auto simp: pq_top_def later_than_def)
qed

lemma pq_wf_Nil [simp]: "pq_wf []"
  by (simp add: pq_wf_def)

lemma pq_push_not_Nil [simp]: "pq_push x q \<noteq> []"
  by (cases q) auto

lemma fold_pq_push_Nil_iff [simp]: "fold pq_push xs q = [] \<longleftrightarrow> xs = [] \<and> q = []"
proof (induction xs arbitrary: q)
  case (Cons x xs)
  then show ?case by simp
qed simp

end
