(* ===== verification/EventLoopWin.thy ===== *)
theory EventLoopWin
  imports EventLoopBase LinkedHashMap TimerQueue
begin

unbundle bit_operations_syntax

text \<open>
  \<^verbatim>\<open>src/event_loop_win.h\<close> and \<^verbatim>\<open>src/event_loop_win.cc\<close>: the event loop on Windows.

  The Windows API is the argument \<open>W\<close>: the constants of its headers, the clock, and its calls, each a
  function of the number of environment calls made so far (the state's \<open>env_calls\<close>) and of its arguments, so that a call
  may answer differently each time.  An event object is whether it is signalled.  The user's task
  bodies are the argument \<open>exec\<close>, the listeners' \<^verbatim>\<open>OnSocketEvent\<close> the argument \<open>on_event\<close>; both are
  arbitrary state transformers, so they may call back into the loop.

  Registrations live in a store, \<open>reg_heap\<close>; the linked hash map holds their addresses.  The map
  owns them (\<^verbatim>\<open>shared_ptr\<close>), a ready-list entry only observes them (\<^verbatim>\<open>weak_ptr\<close>): erasing a map entry frees the
  registration, and locking a weak pointer succeeds while the address is live.  (The callback
  loop's own \<^verbatim>\<open>shared_ptr\<close> keeps alive only the registration whose callback runs, which no
  other entry observes.)  \<^verbatim>\<open>ABSL_DCHECK\<close>s are recorded in \<open>dcheck_failed\<close> and
  do not stop the run, as in a release build; \<open>ub_reached\<close> records a fault of the map.
\<close>

section \<open>Event masks\<close>

definition kEventReadable :: u8 where "kEventReadable = 0x01"
definition kEventWritable :: u8 where "kEventWritable = 0x02"
definition kEventError :: u8 where "kEventError = 0x04"

record WSANETWORKEVENTS =
  lNetworkEvents :: u32
  connect_error :: int

record win_api =
  POLLIN :: u32
  POLLOUT :: u32
  POLLERR :: u32
  POLLHUP :: u32
  FD_READ :: u32
  FD_WRITE :: u32
  FD_ACCEPT :: u32
  FD_CONNECT :: u32
  FD_CLOSE :: u32
  WSA_WAIT_EVENT_0 :: u32
  WSA_WAIT_TIMEOUT :: u32
  WSA_WAIT_FAILED :: u32
  INFINITE :: int
  steady_clock :: "nat \<Rightarrow> int"
  WSAEventSelect :: "nat \<Rightarrow> u64 \<Rightarrow> u32 \<Rightarrow> int"
  WSAEnumNetworkEvents :: "nat \<Rightarrow> u64 \<Rightarrow> int \<times> WSANETWORKEVENTS"
  WSAWaitForMultipleEvents :: "nat \<Rightarrow> bool list \<Rightarrow> u32 \<Rightarrow> u32"
  timeSetEvent :: "nat \<Rightarrow> u32 \<Rightarrow> u32"
  SetTimer :: "nat \<Rightarrow> u32 \<Rightarrow> u64"

definition GetPollMask :: "('a) win_api_scheme \<Rightarrow> u8 \<Rightarrow> u32" where
  "GetPollMask W event_mask =
     (if event_mask AND kEventReadable \<noteq> 0 then POLLIN W else 0) OR
     (if event_mask AND kEventWritable \<noteq> 0 then POLLOUT W else 0) OR
     (if event_mask AND kEventError \<noteq> 0 then POLLERR W else 0)"

definition GetEventMask :: "('a) win_api_scheme \<Rightarrow> u32 \<Rightarrow> u8" where
  "GetEventMask W poll_mask =
     (if poll_mask AND POLLIN W \<noteq> 0 then kEventReadable else 0) OR
     (if poll_mask AND POLLOUT W \<noteq> 0 then kEventWritable else 0) OR
     (if poll_mask AND POLLERR W \<noteq> 0 then kEventError else 0)"

section \<open>State\<close>

record 'l Registration =
  events :: u8
  listener :: "'l"
  artificially_notify_at_next_iteration :: u8

record ReadyListEntry =
  entry_fd :: u64
  entry_registration :: nat
  entry_events :: u8

record MultimediaTimer =
  event_m :: bool
  mm_timer_id_m :: u32

record ('u, 'd, 'l) EventLoopWin = "('u, 'd) EventLoop" +
  registrations_m :: "(u64, nat) LinkedHashMap"
  reg_heap :: "nat \<rightharpoonup> 'l Registration"
  next_reg :: nat
  has_artificial_events_pending_m :: bool
  wakeup_ev_m :: bool
  socket_ev_m :: bool
  timer_m :: MultimediaTimer
  timer_tasks_m :: "'u DelayedTaskInfo list"
  timer_id_m :: u64
  dcheck_failed :: bool
  ub_reached :: bool

definition dcheck :: "bool \<Rightarrow> ('u, 'd, 'l, 'z) EventLoopWin_scheme \<Rightarrow> ('u, 'd, 'l, 'z) EventLoopWin_scheme" where
  "dcheck b s = (if b then s else s\<lparr>dcheck_failed := True\<rparr>)"

text \<open>
  The constructors: \<^verbatim>\<open>WSACreateEvent\<close> may fail, which the \<^verbatim>\<open>ABSL_CHECK\<close>s turn into an abort.  The
  arguments say whether each creation succeeded; new events are not signalled.
\<close>

definition MultimediaTimer_new :: "bool \<Rightarrow> fault + MultimediaTimer" where
  "MultimediaTimer_new created =
     (if created then Inr \<lparr>event_m = False, mm_timer_id_m = 0\<rparr> else Inl CHECK_failed)"

definition EventLoopWin_new ::
  "bool \<Rightarrow> bool \<Rightarrow> bool \<Rightarrow> fault + ('u, 'd, 'l) EventLoopWin" where
  "EventLoopWin_new wakeup_created socket_created timer_created =
     (case MultimediaTimer_new timer_created of
        Inl f \<Rightarrow> Inl f
      | Inr t \<Rightarrow>
          if \<not> wakeup_created then Inl CHECK_failed
          else if \<not> socket_created then Inl CHECK_failed
          else Inr (EventLoop.extend EventLoop_new
                 (EventLoopWin.fields lhm_new Map.empty 0 False False False t [] 0 False False)))"

section \<open>Registering sockets\<close>

definition WakeUp :: "('u, 'd, 'l, 'z) EventLoopWin_scheme \<Rightarrow> ('u, 'd, 'l, 'z) EventLoopWin_scheme" where
  "WakeUp s = s\<lparr>wakeup_ev_m := True\<rparr>"

definition upd_reg ::
  "nat \<Rightarrow> ('l Registration \<Rightarrow> 'l Registration)
     \<Rightarrow> ('u, 'd, 'l, 'z) EventLoopWin_scheme \<Rightarrow> ('u, 'd, 'l, 'z) EventLoopWin_scheme" where
  "upd_reg rid f s = s\<lparr>reg_heap := (reg_heap s)(rid := map_option f (reg_heap s rid))\<rparr>"

definition count_call :: "('u, 'd, 'l, 'z) EventLoopWin_scheme \<Rightarrow> ('u, 'd, 'l, 'z) EventLoopWin_scheme" where
  "count_call s = s\<lparr>env_calls := Suc (env_calls s)\<rparr>"

text \<open>\<^verbatim>\<open>registrations_.erase(fd)\<close>: the map drops its owning pointer, which frees the registration.\<close>

definition erase_registration ::
  "u64 \<Rightarrow> ('u, 'd, 'l, 'z) EventLoopWin_scheme \<Rightarrow> nat \<times> ('u, 'd, 'l, 'z) EventLoopWin_scheme" where
  "erase_registration fd s =
     (case erase_key (registrations_m s) fd of
        Inl f \<Rightarrow> (0, s\<lparr>ub_reached := True\<rparr>)
      | Inr r \<Rightarrow>
          (snd r,
           s\<lparr>registrations_m := fst r,
             reg_heap := (case find_value (registrations_m s) fd of
                            None \<Rightarrow> reg_heap s
                          | Some rid \<Rightarrow> (reg_heap s)(rid := None))\<rparr>))"

definition RegisterSocket ::
  "('a) win_api_scheme \<Rightarrow> u64 \<Rightarrow> u8 \<Rightarrow> 'l \<Rightarrow> ('u, 'd, 'l, 'z) EventLoopWin_scheme
     \<Rightarrow> bool \<times> ('u, 'd, 'l, 'z) EventLoopWin_scheme" where
  "RegisterSocket W fd evs lst s =
     (if IsQuitting s then (False, s)
      else
        let rid = next_reg s;
            s = s\<lparr>next_reg := Suc rid\<rparr>;
            (regs, it, success) = lhm_insert (registrations_m s) (fd, rid)
        in if \<not> success then (False, s)
           else
             let s = s\<lparr>registrations_m := regs,
                       reg_heap := (reg_heap s)(rid \<mapsto>
                         \<lparr>events = evs, listener = lst,
                          artificially_notify_at_next_iteration = 0\<rparr>)\<rparr>;
                 result = WSAEventSelect W (env_calls s) fd (GetPollMask W evs);
                 s = count_call s
             in if result \<noteq> 0 then (False, snd (erase_registration fd s))
                else (True, s))"

definition UnregisterSocket ::
  "('a) win_api_scheme \<Rightarrow> u64 \<Rightarrow> ('u, 'd, 'l, 'z) EventLoopWin_scheme
     \<Rightarrow> bool \<times> ('u, 'd, 'l, 'z) EventLoopWin_scheme" where
  "UnregisterSocket W fd s =
     (if IsQuitting s then (False, s)
      else if lhm_find (registrations_m s) fd = lhm_end (registrations_m s) then (False, s)
      else let (n, s) = erase_registration fd (count_call s) in (n \<noteq> 0, s))"

definition RearmSocket ::
  "('a) win_api_scheme \<Rightarrow> u64 \<Rightarrow> u8 \<Rightarrow> ('u, 'd, 'l, 'z) EventLoopWin_scheme
     \<Rightarrow> bool \<times> ('u, 'd, 'l, 'z) EventLoopWin_scheme" where
  "RearmSocket W fd evs s =
     (if IsQuitting s then (False, s)
      else case find_value (registrations_m s) fd of
             None \<Rightarrow> (False, s)
           | Some rid \<Rightarrow>
               let s = upd_reg rid (\<lambda>r. r\<lparr>events := events r OR evs\<rparr>) s;
                   armed = (case reg_heap s rid of None \<Rightarrow> 0 | Some r \<Rightarrow> events r);
                   result = WSAEventSelect W (env_calls s) fd (GetPollMask W armed);
                   s = count_call s
               in (result = 0, s))"

definition ArtificiallyNotifyEvent ::
  "u64 \<Rightarrow> u8 \<Rightarrow> ('u, 'd, 'l, 'z) EventLoopWin_scheme
     \<Rightarrow> bool \<times> ('u, 'd, 'l, 'z) EventLoopWin_scheme" where
  "ArtificiallyNotifyEvent fd evs s =
     (if IsQuitting s then (False, s)
      else case find_value (registrations_m s) fd of
             None \<Rightarrow> (False, s)
           | Some rid \<Rightarrow>
               let s = s\<lparr>has_artificial_events_pending_m := True\<rparr>;
                   s = upd_reg rid (\<lambda>r. r\<lparr>artificially_notify_at_next_iteration :=
                         artificially_notify_at_next_iteration r OR evs\<rparr>) s
               in (True, s\<lparr>socket_ev_m := True\<rparr>))"

section \<open>Dispatching socket events\<close>

text \<open>
  The conversion of a socket's network events to a poll mask; \<^verbatim>\<open>revents\<close> is a \<^verbatim>\<open>short\<close>, so assigning
  a 32-bit constant keeps its low 16 bits.
\<close>

definition network_revents :: "('a) win_api_scheme \<Rightarrow> WSANETWORKEVENTS \<Rightarrow> u16" where
  "network_revents W ne =
     (let lne = lNetworkEvents ne;
          revents = (0 :: u16);
          revents = (if lne AND FD_READ W \<noteq> 0 then revents OR ucast (POLLIN W) else revents);
          revents = (if lne AND FD_WRITE W \<noteq> 0 then revents OR ucast (POLLOUT W) else revents);
          revents = (if lne AND FD_CLOSE W \<noteq> 0 then revents OR ucast (POLLHUP W) else revents);
          revents = (if lne AND FD_ACCEPT W \<noteq> 0 then revents OR ucast (POLLIN W) else revents)
      in if lne AND FD_CONNECT W \<noteq> 0
         then let revents = revents OR ucast (POLLOUT W)
              in if connect_error ne \<noteq> 0 then revents OR ucast (POLLERR W) else revents
         else revents)"

text \<open>
  \<^verbatim>\<open>DispatchSocketEvent\<close>: passing the \<^verbatim>\<open>short\<close> mask to \<^verbatim>\<open>GetEventMask(uint32_t)\<close> extends its sign.
\<close>

definition DispatchSocketEvent ::
  "('a) win_api_scheme \<Rightarrow> u64 \<Rightarrow> u16
     \<Rightarrow> ReadyListEntry list \<times> ('u, 'd, 'l, 'z) EventLoopWin_scheme
     \<Rightarrow> ReadyListEntry list \<times> ('u, 'd, 'l, 'z) EventLoopWin_scheme" where
  "DispatchSocketEvent W fd msk rs =
     (let (ready_list, s) = rs
      in case find_value (registrations_m s) fd of
           None \<Rightarrow> (ready_list, s)
         | Some rid \<Rightarrow>
             (case reg_heap s rid of
                None \<Rightarrow> (ready_list, s)
              | Some registration \<Rightarrow>
                  let msk = msk AND ucast (GetPollMask W (events registration))
                  in if msk = 0 then (ready_list, s)
                     else
                       let evs = GetEventMask W (scast msk)
                       in (ready_list @ [\<lparr>entry_fd = fd, entry_registration = rid, entry_events = evs\<rparr>],
                           upd_reg rid (\<lambda>r. r\<lparr>events := events r AND NOT evs\<rparr>) s)))"

text \<open>
  One iteration of the loop over the registrations.  A successful \<^verbatim>\<open>WSAEnumNetworkEvents\<close> that
  names an event object resets it.
\<close>

definition process_registration ::
  "('a) win_api_scheme \<Rightarrow> u64 \<times> nat
     \<Rightarrow> ReadyListEntry list \<times> ('u, 'd, 'l, 'z) EventLoopWin_scheme
     \<Rightarrow> ReadyListEntry list \<times> ('u, 'd, 'l, 'z) EventLoopWin_scheme" where
  "process_registration W entry rs =
     (let (fd, rid) = entry;
          (ready_list, s) = rs;
          (result, network_events) = WSAEnumNetworkEvents W (env_calls s) fd;
          s = count_call s
      in if result \<noteq> 0 then (ready_list, s)
         else
           let s = s\<lparr>socket_ev_m := False\<rparr>;
               artificial = (case reg_heap s rid of
                               None \<Rightarrow> 0 | Some r \<Rightarrow> artificially_notify_at_next_iteration r);
               revents = network_revents W network_events OR ucast (GetPollMask W artificial);
               s = upd_reg rid (\<lambda>r. r\<lparr>artificially_notify_at_next_iteration := 0\<rparr>) s
           in if revents \<noteq> 0 then DispatchSocketEvent W fd revents (ready_list, s)
              else (ready_list, s))"

definition run_ready_entry ::
  "('l \<Rightarrow> u64 \<Rightarrow> u8 \<Rightarrow> ('u, 'd, 'l, 'z) EventLoopWin_scheme \<Rightarrow> ('u, 'd, 'l, 'z) EventLoopWin_scheme)
     \<Rightarrow> ReadyListEntry \<Rightarrow> ('u, 'd, 'l, 'z) EventLoopWin_scheme \<Rightarrow> ('u, 'd, 'l, 'z) EventLoopWin_scheme" where
  "run_ready_entry on_event entry s =
     (case reg_heap s (entry_registration entry) of
        None \<Rightarrow> s
      | Some registration \<Rightarrow>
          on_event (listener registration) (entry_fd entry) (entry_events entry) s)"

definition RunReadyCallbacks ::
  "('l \<Rightarrow> u64 \<Rightarrow> u8 \<Rightarrow> ('u, 'd, 'l, 'z) EventLoopWin_scheme \<Rightarrow> ('u, 'd, 'l, 'z) EventLoopWin_scheme)
     \<Rightarrow> ReadyListEntry list \<Rightarrow> ('u, 'd, 'l, 'z) EventLoopWin_scheme \<Rightarrow> ('u, 'd, 'l, 'z) EventLoopWin_scheme" where
  "RunReadyCallbacks on_event ready_list s = fold (run_ready_entry on_event) ready_list s"

definition collect_ready ::
  "('a) win_api_scheme \<Rightarrow> ('u, 'd, 'l, 'z) EventLoopWin_scheme
     \<Rightarrow> ReadyListEntry list \<times> ('u, 'd, 'l, 'z) EventLoopWin_scheme" where
  "collect_ready W s = fold (process_registration W) (entries (registrations_m s)) ([], s)"

definition ProcessSocketEvents ::
  "('a) win_api_scheme
     \<Rightarrow> ('l \<Rightarrow> u64 \<Rightarrow> u8 \<Rightarrow> ('u, 'd, 'l, 'z) EventLoopWin_scheme \<Rightarrow> ('u, 'd, 'l, 'z) EventLoopWin_scheme)
     \<Rightarrow> ('u, 'd, 'l, 'z) EventLoopWin_scheme \<Rightarrow> ('u, 'd, 'l, 'z) EventLoopWin_scheme" where
  "ProcessSocketEvents W on_event s =
     (if lhm_empty (registrations_m s) then s
      else let (ready_list, s) = collect_ready W s;
               s = s\<lparr>has_artificial_events_pending_m := False\<rparr>
           in if ready_list \<noteq> [] then RunReadyCallbacks on_event ready_list s else s)"

section \<open>Timers\<close>

definition StartOneShotTimer ::
  "('a) win_api_scheme \<Rightarrow> u32 \<Rightarrow> ('u, 'd, 'l, 'z) EventLoopWin_scheme
     \<Rightarrow> bool \<times> ('u, 'd, 'l, 'z) EventLoopWin_scheme" where
  "StartOneShotTimer W delay_ms s =
     (let s = dcheck (mm_timer_id_m (timer_m s) = 0) s;
          tid = timeSetEvent W (env_calls s) delay_ms;
          s = (count_call s)\<lparr>timer_m := (timer_m s)\<lparr>mm_timer_id_m := tid\<rparr>\<rparr>
      in (tid \<noteq> 0, s))"

definition Cancel :: "MultimediaTimer \<Rightarrow> MultimediaTimer" where
  "Cancel t = (if mm_timer_id_m t \<noteq> 0 then t\<lparr>mm_timer_id_m := 0\<rparr> else t)\<lparr>event_m := False\<rparr>"

definition CancelTimers ::
  "('u, 'd, 'l, 'z) EventLoopWin_scheme \<Rightarrow> ('u, 'd, 'l, 'z) EventLoopWin_scheme" where
  "CancelTimers s =
     (let s = s\<lparr>timer_m := Cancel (timer_m s)\<rparr>
      in if timer_id_m s \<noteq> 0 then s\<lparr>timer_id_m := 0\<rparr> else s)"

definition ScheduleNextTimer ::
  "('a) win_api_scheme \<Rightarrow> ('d, 'b) absl_duration_scheme \<Rightarrow> ('u, 'd, 'l, 'z) EventLoopWin_scheme
     \<Rightarrow> ('u, 'd, 'l, 'z) EventLoopWin_scheme" where
  "ScheduleNextTimer W A s =
     (let s = dcheck (timer_id_m s = 0) s
      in if timer_tasks_m s = [] then s
         else
           let next_task = pq_top (timer_tasks_m s);
               (now, s) = read_micros (steady_clock W) s;
               delay = dur_max A (ZeroDuration A) (Microseconds A (due_time_micros_m next_task - now));
               milliseconds = to_uint32 (ToInt64Milliseconds A delay);
               (started, s) = StartOneShotTimer W milliseconds s
           in if \<not> started
              then (count_call s)\<lparr>timer_id_m := SetTimer W (env_calls s) milliseconds\<rparr>
              else s)"

definition PostDelayedTaskOnTaskQueue ::
  "('a) win_api_scheme \<Rightarrow> ('d, 'b) absl_duration_scheme \<Rightarrow> 'u \<Rightarrow> int \<Rightarrow> 'd
     \<Rightarrow> ('u, 'd, 'l, 'z) EventLoopWin_scheme \<Rightarrow> ('u, 'd, 'l, 'z) EventLoopWin_scheme" where
  "PostDelayedTaskOnTaskQueue W A task start_micros delay s =
     (let (now_micros, s) = read_micros (steady_clock W) s;
          delay = dur_minus A delay (Microseconds A (now_micros - start_micros));
          (now, s) = read_micros (steady_clock W) s;
          info = DelayedTaskInfo_new A now delay task;
          need_to_schedule_timers =
            (timer_tasks_m s = [] \<or>
             due_time_micros_m (pq_top (timer_tasks_m s)) > due_time_micros_m info);
          s = s\<lparr>timer_tasks_m := pq_push info (timer_tasks_m s)\<rparr>
      in if need_to_schedule_timers then ScheduleNextTimer W A (CancelTimers s) else s)"

text \<open>
  The loop of \<^verbatim>\<open>RunDueTasks\<close>.  The task on top runs while it is still in the queue and is popped
  afterwards.  Nothing in the code bounds the number of iterations, so a run that does not end is
  \<open>None\<close>.
\<close>

partial_function (option) run_due ::
  "('u \<Rightarrow> ('u, 'd, 'l, 'z) EventLoopWin_scheme \<Rightarrow> ('u, 'd, 'l, 'z) EventLoopWin_scheme) \<Rightarrow> int
     \<Rightarrow> ('u, 'd, 'l, 'z) EventLoopWin_scheme \<Rightarrow> ('u, 'd, 'l, 'z) EventLoopWin_scheme option" where
  "run_due exec now_micros s =
     (let top = pq_top (timer_tasks_m s)
      in if due_time_micros_m top > now_micros then Some s
         else
           let s1 = exec (task_m top) s;
               s2 = s1\<lparr>timer_tasks_m := pq_pop (timer_tasks_m s1)\<rparr>
           in if timer_tasks_m s2 \<noteq> [] then run_due exec now_micros s2 else Some s2)"

definition RunDueTasks ::
  "('a) win_api_scheme
     \<Rightarrow> ('u \<Rightarrow> ('u, 'd, 'l, 'z) EventLoopWin_scheme \<Rightarrow> ('u, 'd, 'l, 'z) EventLoopWin_scheme)
     \<Rightarrow> ('u, 'd, 'l, 'z) EventLoopWin_scheme \<Rightarrow> ('u, 'd, 'l, 'z) EventLoopWin_scheme option" where
  "RunDueTasks W exec s =
     (let s = dcheck (timer_tasks_m s \<noteq> []) s;
          (now_micros, s) = read_micros (steady_clock W) s
      in run_due exec now_micros s)"

definition ProcessTimerTasksUpTo ::
  "('a) win_api_scheme \<Rightarrow> ('d, 'b) absl_duration_scheme
     \<Rightarrow> ('u \<Rightarrow> ('u, 'd, 'l, 'z) EventLoopWin_scheme \<Rightarrow> ('u, 'd, 'l, 'z) EventLoopWin_scheme) \<Rightarrow> int
     \<Rightarrow> ('u, 'd, 'l, 'z) EventLoopWin_scheme \<Rightarrow> ('u, 'd, 'l, 'z) EventLoopWin_scheme option" where
  "ProcessTimerTasksUpTo W A exec current_time_micros s =
     (if timer_tasks_m s = [] then Some s
      else map_option (ScheduleNextTimer W A)
             (RunDueTasks W exec (s\<lparr>timer_m := Cancel (timer_m s)\<rparr>)))"

section \<open>Running the loop\<close>

text \<open>What a queued closure does when it is invoked.\<close>

definition run_closure ::
  "('a) win_api_scheme \<Rightarrow> ('d, 'b) absl_duration_scheme
     \<Rightarrow> ('u \<Rightarrow> ('u, 'd, 'l, 'z) EventLoopWin_scheme \<Rightarrow> ('u, 'd, 'l, 'z) EventLoopWin_scheme)
     \<Rightarrow> ('u, 'd) closure
     \<Rightarrow> ('u, 'd, 'l, 'z) EventLoopWin_scheme \<Rightarrow> ('u, 'd, 'l, 'z) EventLoopWin_scheme" where
  "run_closure W A exec c s =
     (case c of
        UserTask u \<Rightarrow> exec u s
      | PostDelayedClosure u start_micros delay \<Rightarrow> PostDelayedTaskOnTaskQueue W A u start_micros delay s
      | BlockingClosure f e \<Rightarrow> exec f s)"

definition ProcessPendingTasks ::
  "('a) win_api_scheme \<Rightarrow> ('d, 'b) absl_duration_scheme
     \<Rightarrow> ('u \<Rightarrow> ('u, 'd, 'l, 'z) EventLoopWin_scheme \<Rightarrow> ('u, 'd, 'l, 'z) EventLoopWin_scheme)
     \<Rightarrow> ('u, 'd, 'l, 'z) EventLoopWin_scheme \<Rightarrow> ('u, 'd, 'l, 'z) EventLoopWin_scheme" where
  "ProcessPendingTasks W A exec s =
     RunPendingTasks (run_closure W A exec) (s\<lparr>wakeup_ev_m := False\<rparr>)"

definition RunEventLoopOnce ::
  "('a) win_api_scheme \<Rightarrow> ('d, 'b) absl_duration_scheme
     \<Rightarrow> ('u \<Rightarrow> ('u, 'd, 'l, 'z) EventLoopWin_scheme \<Rightarrow> ('u, 'd, 'l, 'z) EventLoopWin_scheme)
     \<Rightarrow> ('l \<Rightarrow> u64 \<Rightarrow> u8 \<Rightarrow> ('u, 'd, 'l, 'z) EventLoopWin_scheme \<Rightarrow> ('u, 'd, 'l, 'z) EventLoopWin_scheme)
     \<Rightarrow> 'd \<Rightarrow> ('u, 'd, 'l, 'z) EventLoopWin_scheme \<Rightarrow> ('u, 'd, 'l, 'z) EventLoopWin_scheme option" where
  "RunEventLoopOnce W A exec on_event default_timeout s =
     (let timeout_ms = ToCmsWait A (INFINITE W) default_timeout;
          evs = [wakeup_ev_m s, event_m (timer_m s), socket_ev_m s];
          wait_result = WSAWaitForMultipleEvents W (env_calls s) evs (to_uint32 timeout_ms);
          s = count_call s
      in if wait_result = WSA_WAIT_FAILED W then Some s
         else if wait_result = WSA_WAIT_TIMEOUT W \<and> \<not> has_artificial_events_pending_m s then Some s
         else
           let index = wait_result - WSA_WAIT_EVENT_0 W;
               after = (if index = 0 then Some (ProcessPendingTasks W A exec s)
                        else if index = 1
                        then let (now, s) = read_micros (steady_clock W) s
                             in ProcessTimerTasksUpTo W A exec now s
                        else Some (ProcessSocketEvents W on_event s))
           in if index = 2 then map_option (\<lambda>s. s\<lparr>socket_ev_m := False\<rparr>) after else after)"

text \<open>
  The destructors: the body of the loop's closes two event objects, then its member \<^verbatim>\<open>timer_\<close> is destroyed, which cancels the
  multimedia timer and closes its event.  A closed event is not signalled; the timer of \<^verbatim>\<open>SetTimer\<close> is not killed.
\<close>

definition MultimediaTimer_delete :: "MultimediaTimer \<Rightarrow> MultimediaTimer" where
  "MultimediaTimer_delete t = (Cancel t)\<lparr>event_m := False\<rparr>"

definition EventLoopWin_delete ::
  "('u, 'd, 'l, 'z) EventLoopWin_scheme \<Rightarrow> ('u, 'd, 'l, 'z) EventLoopWin_scheme" where
  "EventLoopWin_delete s =
     (let s = s\<lparr>wakeup_ev_m := False\<rparr>; s = s\<lparr>socket_ev_m := False\<rparr>
      in s\<lparr>timer_m := MultimediaTimer_delete (timer_m s)\<rparr>)"

lemma fallback_timer_outlives_loop:
  "mm_timer_id_m (timer_m (EventLoopWin_delete s)) = 0 \<and> timer_id_m (EventLoopWin_delete s) = timer_id_m s"
  by (simp add: EventLoopWin_delete_def MultimediaTimer_delete_def Cancel_def Let_def)

end
