(* ===== verification/WinSockets.thy ===== *)
theory WinSockets
  imports EventLoopWin
begin

unbundle bit_operations_syntax

text \<open>
  Properties of the socket side of the Windows loop: the translation between event masks and
  poll masks, registration and its roll-back, the one-shot delivery of events in
  registration order, and callbacks that unregister sockets while the ready list is being run.
\<close>

section \<open>Event masks and poll masks\<close>

text \<open>
  What the code relies on about the poll constants: they are non-zero, disjoint, and fit a
  non-negative \<^verbatim>\<open>short\<close>.
\<close>

definition poll_consts_ok :: "'a win_api_scheme \<Rightarrow> bool" where
  "poll_consts_ok W \<longleftrightarrow>
     (\<forall>c \<in> {POLLIN W, POLLOUT W, POLLERR W, POLLHUP W}. c \<noteq> 0 \<and> c < 2 ^ 15) \<and>
     POLLIN W AND POLLOUT W = 0 \<and> POLLIN W AND POLLERR W = 0 \<and> POLLIN W AND POLLHUP W = 0 \<and>
     POLLOUT W AND POLLERR W = 0 \<and> POLLOUT W AND POLLHUP W = 0 \<and> POLLERR W AND POLLHUP W = 0"

lemma poll_consts_okD:
  assumes "poll_consts_ok W"
  shows "POLLIN W \<noteq> 0" "POLLOUT W \<noteq> 0" "POLLERR W \<noteq> 0" "POLLHUP W \<noteq> 0"
    "POLLIN W < 2 ^ 15" "POLLOUT W < 2 ^ 15" "POLLERR W < 2 ^ 15" "POLLHUP W < 2 ^ 15"
    "POLLIN W AND POLLOUT W = 0" "POLLIN W AND POLLERR W = 0" "POLLOUT W AND POLLERR W = 0"
    "POLLOUT W AND POLLIN W = 0" "POLLERR W AND POLLIN W = 0" "POLLERR W AND POLLOUT W = 0"
    "POLLIN W AND POLLHUP W = 0" "POLLOUT W AND POLLHUP W = 0" "POLLERR W AND POLLHUP W = 0"
  using assms by (simp_all add: poll_consts_ok_def and.commute)

text \<open>An event mask as three flags.\<close>

definition evmask :: "bool \<Rightarrow> bool \<Rightarrow> bool \<Rightarrow> u8" where
  "evmask r w e = (if r then 1 else 0) OR (if w then 2 else 0) OR (if e then 4 else 0)"

lemma evmask_flags [simp]:
  "evmask r w e AND 1 \<noteq> 0 \<longleftrightarrow> r" "evmask r w e AND 2 \<noteq> 0 \<longleftrightarrow> w" "evmask r w e AND 4 \<noteq> 0 \<longleftrightarrow> e"
  "evmask r w e = 0 \<longleftrightarrow> \<not> r \<and> \<not> w \<and> \<not> e"
  by (simp_all add: evmask_def)

lemma evmask_of: "m AND 7 = evmask (m AND 1 \<noteq> 0) (m AND 2 \<noteq> 0) (m AND 4 \<noteq> 0)" for m :: u8
proof -
  have "m AND 7 = (m AND 1) OR (m AND 2) OR (m AND 4)"
    by (simp flip: bit.conj_disj_distrib)
  also have "\<dots> = evmask (m AND 1 \<noteq> 0) (m AND 2 \<noteq> 0) (m AND 4 \<noteq> 0)"
    using and_exp_flag [of m 0] and_exp_flag [of m 1] and_exp_flag [of m 2]
    by (auto simp: evmask_def)
  finally show ?thesis .
qed

lemmas event_consts = kEventReadable_def kEventWritable_def kEventError_def

lemma GetEventMask_evmask:
  "GetEventMask W p = evmask (p AND POLLIN W \<noteq> 0) (p AND POLLOUT W \<noteq> 0) (p AND POLLERR W \<noteq> 0)"
  by (simp add: GetEventMask_def evmask_def event_consts)

text \<open>The flags of a poll mask that comes from an event mask.\<close>

lemma GetPollMask_flags:
  assumes "poll_consts_ok W"
  shows "GetPollMask W m AND POLLIN W = 0 \<longleftrightarrow> m AND 1 = 0"
    and "GetPollMask W m AND POLLOUT W = 0 \<longleftrightarrow> m AND 2 = 0"
    and "GetPollMask W m AND POLLERR W = 0 \<longleftrightarrow> m AND 4 = 0"
    and "GetPollMask W m AND POLLHUP W = 0"
  by (simp_all add: GetPollMask_def event_consts flag_simps poll_consts_okD [OF assms])

lemma GetPollMask_zero: "poll_consts_ok W \<Longrightarrow> GetPollMask W m = 0 \<longleftrightarrow> m AND 7 = 0"
  using GetPollMask_flags [of W m]
  by (auto simp: evmask_of) (auto simp: GetPollMask_def event_consts)

text \<open>
  What \<^verbatim>\<open>DispatchSocketEvent\<close> computes for a registration with events \<open>m\<close> and a mask \<open>r\<close> of
  occurred poll events: the flags that are in both.
\<close>

definition delivered :: "'a win_api_scheme \<Rightarrow> u16 \<Rightarrow> u8 \<Rightarrow> u8" where
  "delivered W r m = GetEventMask W (scast (r AND ucast (GetPollMask W m)))"

lemma and_ucast_GetPollMask:
  fixes r :: u16
  assumes "poll_consts_ok W"
  shows "(r AND ucast (GetPollMask W m)) AND ucast (POLLIN W) = 0 \<longleftrightarrow>
           r AND ucast (POLLIN W) = 0 \<or> m AND 1 = 0"
    and "(r AND ucast (GetPollMask W m)) AND ucast (POLLOUT W) = 0 \<longleftrightarrow>
           r AND ucast (POLLOUT W) = 0 \<or> m AND 2 = 0"
    and "(r AND ucast (GetPollMask W m)) AND ucast (POLLERR W) = 0 \<longleftrightarrow>
           r AND ucast (POLLERR W) = 0 \<or> m AND 4 = 0"
proof -
  have u: "ucast (GetPollMask W m) =
    (if m AND 1 \<noteq> 0 then ucast (POLLIN W) else 0) OR
    (if m AND 2 \<noteq> 0 then ucast (POLLOUT W) else 0) OR
    (if m AND 4 \<noteq> 0 then ucast (POLLERR W) else 0 :: u16)"
    by (simp add: GetPollMask_def event_consts unsigned_or_eq)
  have d: "ucast a AND ucast b = (0 :: u16)" if "a AND b = 0" for a b :: u32
    using that by (simp flip: unsigned_and_eq)
  note dis = poll_consts_okD(9-14) [OF assms, THEN d]
  show "(r AND ucast (GetPollMask W m)) AND ucast (POLLIN W) = 0 \<longleftrightarrow>
           r AND ucast (POLLIN W) = 0 \<or> m AND 1 = 0"
    unfolding u and.assoc by (simp add: bit.conj_disj_distrib2 dis)
  show "(r AND ucast (GetPollMask W m)) AND ucast (POLLOUT W) = 0 \<longleftrightarrow>
           r AND ucast (POLLOUT W) = 0 \<or> m AND 2 = 0"
    unfolding u and.assoc by (simp add: bit.conj_disj_distrib2 dis)
  show "(r AND ucast (GetPollMask W m)) AND ucast (POLLERR W) = 0 \<longleftrightarrow>
           r AND ucast (POLLERR W) = 0 \<or> m AND 4 = 0"
    unfolding u and.assoc by (simp add: bit.conj_disj_distrib2 dis)
qed

lemma delivered_flags:
  assumes "poll_consts_ok W"
  shows "delivered W r m = evmask (r AND ucast (POLLIN W) \<noteq> 0 \<and> m AND 1 \<noteq> 0)
           (r AND ucast (POLLOUT W) \<noteq> 0 \<and> m AND 2 \<noteq> 0) (r AND ucast (POLLERR W) \<noteq> 0 \<and> m AND 4 \<noteq> 0)"
  unfolding delivered_def GetEventMask_evmask
  by (simp add: poll_consts_okD(5-7) [OF assms, THEN scast_and_const] and_ucast_GetPollMask [OF assms])

lemma evmask_subset:
  "(r \<longrightarrow> m AND 1 \<noteq> 0) \<Longrightarrow> (w \<longrightarrow> m AND 2 \<noteq> 0) \<Longrightarrow> (e \<longrightarrow> m AND 4 \<noteq> 0) \<Longrightarrow> evmask r w e AND NOT m = 0"
proof -
  assume f: "r \<longrightarrow> m AND 1 \<noteq> 0" "w \<longrightarrow> m AND 2 \<noteq> 0" "e \<longrightarrow> m AND 4 \<noteq> 0"
  have "(1 :: u8) AND NOT m = 0" if "m AND 1 \<noteq> 0"
    using and_exp_flag [of m 0] that mask_subset_trans [of 1 m] by (simp add: and.commute)
  moreover have "(2 :: u8) AND NOT m = 0" if "m AND 2 \<noteq> 0"
    using and_exp_flag [of m 1] that mask_subset_trans [of 2 m] by (simp add: and.commute)
  moreover have "(4 :: u8) AND NOT m = 0" if "m AND 4 \<noteq> 0"
    using and_exp_flag [of m 2] that mask_subset_trans [of 4 m] by (simp add: and.commute)
  ultimately show ?thesis using f by (simp add: evmask_def or_and_zero)
qed

lemma delivered_subset: "poll_consts_ok W \<Longrightarrow> delivered W r m AND NOT m = 0"
  by (simp add: delivered_flags evmask_subset)

lemma delivered_nonzero:
  assumes "poll_consts_ok W" and "r AND ucast (GetPollMask W m) \<noteq> 0"
  shows "delivered W r m \<noteq> 0"
proof
  assume "delivered W r m = 0"
  then have z: "r AND ucast (POLLIN W) = 0 \<or> m AND 1 = 0" "r AND ucast (POLLOUT W) = 0 \<or> m AND 2 = 0"
    "r AND ucast (POLLERR W) = 0 \<or> m AND 4 = 0"
    by (auto simp: delivered_flags [OF assms(1)])
  have "ucast (GetPollMask W m) =
    (if m AND 1 \<noteq> 0 then ucast (POLLIN W) else 0) OR
    (if m AND 2 \<noteq> 0 then ucast (POLLOUT W) else 0) OR
    (if m AND 4 \<noteq> 0 then ucast (POLLERR W) else 0 :: u16)"
    by (simp add: GetPollMask_def event_consts unsigned_or_eq)
  with z assms(2) show False by (auto simp: bit.conj_disj_distrib split: if_splits)
qed

section \<open>The registration invariant\<close>

text \<open>
  The map is consistent, its addresses are distinct, allocated, and exactly the live
  registrations; no fault of the map was hit.
\<close>

definition reg_inv :: "('u, 'd, 'l, 'z) EventLoopWin_scheme \<Rightarrow> bool" where
  "reg_inv s \<longleftrightarrow>
     lhm_inv (registrations_m s) \<and> \<not> ub_reached s \<and>
     distinct (map snd (entries (registrations_m s))) \<and>
     dom (reg_heap s) = snd ` set (entries (registrations_m s)) \<and>
     (\<forall>rid \<in> dom (reg_heap s). rid < next_reg s)"

lemma reg_invD:
  assumes "reg_inv s"
  shows "lhm_inv (registrations_m s)" and "\<not> ub_reached s"
    and "distinct (map snd (entries (registrations_m s)))"
    and "dom (reg_heap s) = snd ` set (entries (registrations_m s))"
    and "reg_heap s rid \<noteq> None \<Longrightarrow> rid < next_reg s"
  using assms by (auto simp: reg_inv_def)

text \<open>The registration of a socket, through the map and the store.\<close>

definition registration_of :: "('u, 'd, 'l, 'z) EventLoopWin_scheme \<Rightarrow> u64 \<Rightarrow> 'l Registration option" where
  "registration_of s fd = Option.bind (find_value (registrations_m s) fd) (reg_heap s)"

lemma registered_live:
  assumes "reg_inv s" and "find_value (registrations_m s) fd = Some rid"
  obtains r where "reg_heap s rid = Some r"
proof -
  have "(fd, rid) \<in> set (entries (registrations_m s))"
    using assms(2) by (simp add: lhm.look_seq [OF reg_invD(1) [OF assms(1)]] map_of_SomeD)
  then have "rid \<in> dom (reg_heap s)" using reg_invD(4) [OF assms(1)] by force
  with that show thesis by blast
qed

lemma registration_of_None_iff:
  "reg_inv s \<Longrightarrow> registration_of s fd = None \<longleftrightarrow> find_value (registrations_m s) fd = None"
  by (auto simp: registration_of_def elim: registered_live split: Option.bind_splits)

text \<open>Distinct sockets have distinct registrations.\<close>

lemma registration_inj:
  assumes "reg_inv s" and "find_value (registrations_m s) a = Some rid"
    and "find_value (registrations_m s) b = Some rid"
  shows "a = b"
proof -
  have "(a, rid) \<in> set (entries (registrations_m s))" "(b, rid) \<in> set (entries (registrations_m s))"
    using assms(2,3) by (simp_all add: lhm.look_seq [OF reg_invD(1) [OF assms(1)]] map_of_SomeD)
  from distinct_map_eqD [OF reg_invD(3) [OF assms(1)] this] show ?thesis by simp
qed

lemma reg_inv_cong:
  assumes "registrations_m t = registrations_m s" "dom (reg_heap t) = dom (reg_heap s)"
    "ub_reached t = ub_reached s" "next_reg s \<le> next_reg t"
  shows "reg_inv s \<Longrightarrow> reg_inv t"
  using assms by (fastforce simp: reg_inv_def)

lemma upd_reg_fields [simp]:
  "registrations_m (upd_reg rid f s) = registrations_m s" "ub_reached (upd_reg rid f s) = ub_reached s"
  "next_reg (upd_reg rid f s) = next_reg s" "env_calls (upd_reg rid f s) = env_calls s"
  "reg_heap (upd_reg rid f s) k = (if k = rid then map_option f (reg_heap s rid) else reg_heap s k)"
  "running_m (upd_reg rid f s) = running_m s" "thread_id_m (upd_reg rid f s) = thread_id_m s"
  "timer_tasks_m (upd_reg rid f s) = timer_tasks_m s" "timer_m (upd_reg rid f s) = timer_m s"
  "timer_id_m (upd_reg rid f s) = timer_id_m s" "dcheck_failed (upd_reg rid f s) = dcheck_failed s"
  "pending_m (upd_reg rid f s) = pending_m s" "wakeup_ev_m (upd_reg rid f s) = wakeup_ev_m s"
  "done_set (upd_reg rid f s) = done_set s" "socket_ev_m (upd_reg rid f s) = socket_ev_m s"
  "has_artificial_events_pending_m (upd_reg rid f s) = has_artificial_events_pending_m s"
  by (simp_all add: upd_reg_def)

lemma dom_upd_reg [simp]: "dom (reg_heap (upd_reg rid f s)) = dom (reg_heap s)"
  by (auto simp: upd_reg_def split: if_splits)

lemma count_call_fields [simp]:
  "registrations_m (count_call s) = registrations_m s" "ub_reached (count_call s) = ub_reached s"
  "next_reg (count_call s) = next_reg s" "env_calls (count_call s) = Suc (env_calls s)"
  "reg_heap (count_call s) = reg_heap s"
  "running_m (count_call s) = running_m s" "thread_id_m (count_call s) = thread_id_m s"
  "timer_tasks_m (count_call s) = timer_tasks_m s" "timer_m (count_call s) = timer_m s"
  "timer_id_m (count_call s) = timer_id_m s" "dcheck_failed (count_call s) = dcheck_failed s"
  "pending_m (count_call s) = pending_m s" "wakeup_ev_m (count_call s) = wakeup_ev_m s"
  "done_set (count_call s) = done_set s" "socket_ev_m (count_call s) = socket_ev_m s"
  "has_artificial_events_pending_m (count_call s) = has_artificial_events_pending_m s"
  by (simp_all add: count_call_def)

lemma reg_inv_upd_reg: "reg_inv s \<Longrightarrow> reg_inv (upd_reg rid f s)"
  by (rule reg_inv_cong [of _ s]) simp_all

lemma reg_inv_count_call: "reg_inv s \<Longrightarrow> reg_inv (count_call s)"
  by (rule reg_inv_cong [of _ s]) simp_all

lemma erase_registration_spec:
  assumes inv: "reg_inv s"
  shows "reg_inv (snd (erase_registration fd s)) \<and>
         fst (erase_registration fd s) = (if registration_of s fd = None then 0 else 1) \<and>
         entries (registrations_m (snd (erase_registration fd s))) =
           filter (\<lambda>p. fst p \<noteq> fd) (entries (registrations_m s)) \<and>
         (\<forall>g. registration_of (snd (erase_registration fd s)) g =
               (if g = fd then None else registration_of s g))"
proof -
  note m = reg_invD(1) [OF inv]
  obtain m' where e: "erase_key (registrations_m s) fd =
      Inr (m', if find_value (registrations_m s) fd = None then 0 else 1)"
    and inv': "lhm_inv m'" and seq: "entries m' = filter (\<lambda>p. fst p \<noteq> fd) (entries (registrations_m s))"
    using lhm.del_seq [OF m, of fd] by blast
  have look: "find_value m' g = (if g = fd then None else find_value (registrations_m s) g)" for g
    using lhm.del_look [OF m e] .
  show ?thesis
  proof (cases "find_value (registrations_m s) fd")
    case None
    then have "fd \<notin> set (map fst (entries (registrations_m s)))"
      by (simp add: lhm.look_seq [OF m] map_of_eq_None_iff)
    then have same: "entries m' = entries (registrations_m s)" unfolding seq by (rule filter_neq_id)
    from None inv inv' same show ?thesis
      by (auto simp: erase_registration_def e reg_inv_def registration_of_def look filter_neq_id [symmetric] seq)
  next
    case (Some rid)
    have "map_of (entries (registrations_m s)) fd = Some rid"
      using Some by (simp add: lhm.look_seq [OF m])
    then have in_s: "(fd, rid) \<in> set (entries (registrations_m s))" by (rule map_of_SomeD)
    have d: "snd ` set (entries m') = snd ` set (entries (registrations_m s)) - {rid}"
    proof -
      have "snd p = rid \<longleftrightarrow> fst p = fd" if "p \<in> set (entries (registrations_m s))" for p
        using distinct_map_eqD [OF reg_invD(3) [OF inv] that in_s]
          distinct_map_eqD [OF lhm.seq_distinct [OF m] that in_s] by (metis fst_conv snd_conv)
      then show ?thesis unfolding seq by (auto simp: image_iff)
    qed
    obtain r where r: "reg_heap s rid = Some r" using registered_live [OF inv Some] .
    have other: "reg_heap s rid' = ((reg_heap s)(rid := None)) rid'"
      if "find_value (registrations_m s) g = Some rid'" "g \<noteq> fd" for g rid'
      using registration_inj [OF inv that(1), of fd] Some that(2) by auto
    have "registration_of (snd (erase_registration fd s)) g =
      (if g = fd then None else registration_of s g)" for g
      using other by (auto simp: erase_registration_def e Some registration_of_def look
          split: Option.bind_splits)
    moreover have "reg_inv (snd (erase_registration fd s))"
      using inv inv' d distinct_map_filter [OF reg_invD(3) [OF inv], of "\<lambda>p. fst p \<noteq> fd"]
      by (auto simp: erase_registration_def e Some reg_inv_def seq)
    ultimately show ?thesis
      using Some r by (auto simp: erase_registration_def e seq registration_of_def)
  qed
qed

section \<open>The operations on registrations\<close>

text \<open>The state after a new entry is added to the map and its registration to the store.\<close>

definition add_registration ::
  "u64 \<Rightarrow> u8 \<Rightarrow> 'l \<Rightarrow> ('u, 'd, 'l, 'z) EventLoopWin_scheme \<Rightarrow> ('u, 'd, 'l, 'z) EventLoopWin_scheme" where
  "add_registration fd evs lst s =
     s\<lparr>next_reg := Suc (next_reg s),
       registrations_m := fst (lhm_insert (registrations_m s) (fd, next_reg s)),
       reg_heap := (reg_heap s)(next_reg s \<mapsto>
         \<lparr>events = evs, listener = lst, artificially_notify_at_next_iteration = 0\<rparr>)\<rparr>"

lemma add_registration_spec:
  assumes inv: "reg_inv s" and new: "registration_of s fd = None"
  shows "reg_inv (add_registration fd evs lst s)"
    and "entries (registrations_m (add_registration fd evs lst s)) =
         entries (registrations_m s) @ [(fd, next_reg s)]"
    and "registration_of (add_registration fd evs lst s) g =
         (if g = fd then Some \<lparr>events = evs, listener = lst, artificially_notify_at_next_iteration = 0\<rparr>
          else registration_of s g)"
proof -
  note m = reg_invD(1) [OF inv]
  have none: "find_value (registrations_m s) fd = None"
    using new by (simp add: registration_of_None_iff [OF inv])
  show seq: "entries (registrations_m (add_registration fd evs lst s)) =
         entries (registrations_m s) @ [(fd, next_reg s)]"
    using lhm.ins_seq [OF m, of "(fd, next_reg s)"] none by (simp add: add_registration_def)
  have fresh: "next_reg s \<notin> dom (reg_heap s)" using reg_invD(5) [OF inv, of "next_reg s"] by auto
  then have live: "next_reg s \<notin> snd ` set (entries (registrations_m s))"
    by (simp add: reg_invD(4) [OF inv])
  show "reg_inv (add_registration fd evs lst s)"
    using inv seq live lhm.ins_inv [OF m, of "(fd, next_reg s)"]
    by (auto simp: reg_inv_def add_registration_def less_Suc_eq)
  have look: "find_value (registrations_m (add_registration fd evs lst s)) g =
      (if g = fd then Some (next_reg s) else find_value (registrations_m s) g)"
    using lhm.ins_look [OF m, of "(fd, next_reg s)" g] none by (simp add: add_registration_def)
  have "rid \<noteq> next_reg s" if "find_value (registrations_m s) g = Some rid" for rid
    using registered_live [OF inv that] fresh by (metis domIff option.distinct(1))
  then show "registration_of (add_registration fd evs lst s) g =
         (if g = fd then Some \<lparr>events = evs, listener = lst, artificially_notify_at_next_iteration = 0\<rparr>
          else registration_of s g)"
    unfolding registration_of_def look
    by (auto simp: add_registration_def split: Option.bind_splits)
qed

lemma RegisterSocket_cases:
  assumes "reg_inv s"
  shows "RegisterSocket W fd evs lst s =
     (if IsQuitting s then (False, s)
      else if registration_of s fd \<noteq> None then (False, s\<lparr>next_reg := Suc (next_reg s)\<rparr>)
      else if WSAEventSelect W (env_calls s) fd (GetPollMask W evs) \<noteq> 0
      then (False, snd (erase_registration fd (count_call (add_registration fd evs lst s))))
      else (True, count_call (add_registration fd evs lst s)))"
proof -
  note m = reg_invD(1) [OF assms]
  have "snd (snd (lhm_insert (registrations_m s) (fd, next_reg s))) \<longleftrightarrow> registration_of s fd = None"
    using lhm.ins_flag [OF m, of "(fd, next_reg s)"] by (simp add: registration_of_None_iff [OF assms])
  then show ?thesis
    by (auto simp: RegisterSocket_def Let_def add_registration_def split: prod.split)
qed

lemma lhm_find_end_iff:
  "reg_inv s \<Longrightarrow> lhm_find (registrations_m s) fd = lhm_end (registrations_m s)
     \<longleftrightarrow> registration_of s fd = None"
proof -
  assume inv: "reg_inv s"
  have "lhm_find (registrations_m s) fd = lhm_end (registrations_m s)
     \<longleftrightarrow> map_m (registrations_m s) fd = None"
    by (simp add: lhm_find_def lhm_end_def split: option.split)
  also have "\<dots> \<longleftrightarrow> find_value (registrations_m s) fd = None"
    using reg_invD(1) [OF inv] by (simp add: map_None_iff find_value_entries map_of_eq_None_iff)
  finally show ?thesis by (simp add: registration_of_None_iff [OF inv])
qed

lemma UnregisterSocket_cases:
  assumes "reg_inv s"
  shows "UnregisterSocket W fd s =
     (if IsQuitting s \<or> registration_of s fd = None then (False, s)
      else (True, snd (erase_registration fd (count_call s))))"
  using assms lhm_find_end_iff [OF assms, of fd]
    erase_registration_spec [OF reg_inv_count_call [OF assms], of fd]
  by (auto simp: UnregisterSocket_def registration_of_def split: prod.split)

lemma registration_of_upd_reg:
  assumes "reg_inv s" and "find_value (registrations_m s) fd = Some rid"
  shows "registration_of (upd_reg rid f s) g =
         (if g = fd then map_option f (registration_of s fd) else registration_of s g)"
proof (cases "g = fd")
  case True
  with assms(2) show ?thesis by (simp add: registration_of_def)
next
  case False
  then have "find_value (registrations_m s) g \<noteq> Some rid"
    using registration_inj [OF assms, of g] by auto
  with False show ?thesis
    by (cases "find_value (registrations_m s) g") (simp_all add: registration_of_def)
qed

lemma reg_inv_ops:
  assumes inv: "reg_inv s"
  shows "reg_inv (snd (RegisterSocket W fd evs lst s))"
    and "reg_inv (snd (UnregisterSocket W fd s))"
    and "reg_inv (snd (RearmSocket W fd evs s))"
    and "reg_inv (snd (ArtificiallyNotifyEvent fd evs s))"
proof -
  have "reg_inv (s\<lparr>next_reg := Suc (next_reg s)\<rparr>)"
    by (rule reg_inv_cong [OF _ _ _ _ inv]) simp_all
  moreover have added: "reg_inv (count_call (add_registration fd evs lst s))" if "registration_of s fd = None"
    using add_registration_spec(1) [OF inv that] by (rule reg_inv_count_call)
  moreover have "reg_inv (snd (erase_registration fd (count_call (add_registration fd evs lst s))))"
    if "registration_of s fd = None"
    using erase_registration_spec [OF added [OF that], of fd] by blast
  ultimately show "reg_inv (snd (RegisterSocket W fd evs lst s))"
    using inv by (simp add: RegisterSocket_cases [OF inv])
  show "reg_inv (snd (UnregisterSocket W fd s))"
    using inv erase_registration_spec [OF reg_inv_count_call [OF inv]]
    by (simp add: UnregisterSocket_cases [OF inv])
  show "reg_inv (snd (RearmSocket W fd evs s))"
    using inv by (auto simp: RearmSocket_def Let_def reg_inv_count_call reg_inv_upd_reg split: option.splits)
  have "reg_inv (upd_reg rid f (s\<lparr>has_artificial_events_pending_m := True\<rparr>)\<lparr>socket_ev_m := True\<rparr>)" for rid f
    by (rule reg_inv_cong [OF _ _ _ _ inv]) simp_all
  then show "reg_inv (snd (ArtificiallyNotifyEvent fd evs s))"
    using inv by (auto simp: ArtificiallyNotifyEvent_def Let_def split: option.splits)
qed

section \<open>Collecting the ready list\<close>

text \<open>
  What one visit of a socket does to its registration: the events delivered, and the registration
  afterwards.  \<open>n\<close> is the number of environment calls made before the visit.
\<close>

definition visit :: "'a win_api_scheme \<Rightarrow> nat \<Rightarrow> u64 \<Rightarrow> 'l Registration \<Rightarrow> u8 \<times> 'l Registration" where
  "visit W n fd r =
     (if fst (WSAEnumNetworkEvents W n fd) \<noteq> 0 then (0, r)
      else let d = delivered W (network_revents W (snd (WSAEnumNetworkEvents W n fd)) OR
                     ucast (GetPollMask W (artificially_notify_at_next_iteration r))) (events r)
           in (d, r\<lparr>artificially_notify_at_next_iteration := 0, events := events r AND NOT d\<rparr>))"

definition ready_entry :: "u64 \<Rightarrow> nat \<Rightarrow> u8 \<Rightarrow> ReadyListEntry list" where
  "ready_entry fd rid d =
     (if d = 0 then [] else [\<lparr>entry_fd = fd, entry_registration = rid, entry_events = d\<rparr>])"

lemma delivered_0: "r AND ucast (GetPollMask W m) = 0 \<Longrightarrow> delivered W r m = 0"
  by (simp add: delivered_def GetEventMask_def)

lemma delivered_zero_iff:
  "poll_consts_ok W \<Longrightarrow> delivered W r m = 0 \<longleftrightarrow> r AND ucast (GetPollMask W m) = 0"
  using delivered_nonzero [of W r m] by (metis delivered_0)

lemma process_registration_visit:
  assumes W: "poll_consts_ok W" and inv: "reg_inv s"
    and look: "find_value (registrations_m s) fd = Some rid" and r: "reg_heap s rid = Some r"
  obtains s' where "process_registration W (fd, rid) (rl, s) =
      (rl @ ready_entry fd rid (fst (visit W (env_calls s) fd r)), s')"
    and "reg_heap s' = (reg_heap s)(rid \<mapsto> snd (visit W (env_calls s) fd r))"
    and "registrations_m s' = registrations_m s" and "env_calls s' = Suc (env_calls s)"
    and "next_reg s' = next_reg s" and "ub_reached s' = ub_reached s"
proof (cases "fst (WSAEnumNetworkEvents W (env_calls s) fd) = 0")
  case False
  then show thesis
    using r by (intro that [of "count_call s"])
      (auto simp: process_registration_def visit_def ready_entry_def split: prod.split)
next
  case True
  let ?rev = "network_revents W (snd (WSAEnumNetworkEvents W (env_calls s) fd)) OR
       ucast (GetPollMask W (artificially_notify_at_next_iteration r))"
  let ?t = "upd_reg rid (\<lambda>r. r\<lparr>artificially_notify_at_next_iteration := 0\<rparr>)
      ((count_call s)\<lparr>socket_ev_m := False\<rparr>)"
  obtain ne where en: "WSAEnumNetworkEvents W (env_calls s) fd = (0, ne)"
    using True by (cases "WSAEnumNetworkEvents W (env_calls s) fd") simp
  have p: "process_registration W (fd, rid) (rl, s) =
      (if ?rev \<noteq> 0 then DispatchSocketEvent W fd ?rev (rl, ?t) else (rl, ?t))"
    using r by (simp add: process_registration_def en Let_def)
  have d: "DispatchSocketEvent W fd ?rev (rl, ?t) =
      (if delivered W ?rev (events r) = 0 then (rl, ?t)
       else (rl @ ready_entry fd rid (delivered W ?rev (events r)),
             upd_reg rid (\<lambda>r'. r'\<lparr>events := events r' AND NOT (delivered W ?rev (events r))\<rparr>) ?t))"
    using r look
    by (auto simp: DispatchSocketEvent_def ready_entry_def delivered_zero_iff [OF W] Let_def)
       (simp_all add: delivered_def)
  have z: "delivered W 0 (events r) = 0" by (simp add: delivered_def GetEventMask_def)
  show thesis
  proof (cases "delivered W ?rev (events r) = 0")
    case True
    then have "process_registration W (fd, rid) (rl, s) = (rl, ?t)" using p d by simp
    then show thesis using True r
      by (intro that [of ?t]) (auto simp: visit_def en ready_entry_def fun_eq_iff Let_def)
  next
    case False
    then have "?rev \<noteq> 0" using z by auto
    then have "process_registration W (fd, rid) (rl, s) =
       (rl @ ready_entry fd rid (delivered W ?rev (events r)),
        upd_reg rid (\<lambda>r'. r'\<lparr>events := events r' AND NOT (delivered W ?rev (events r))\<rparr>) ?t)"
      using p d False by simp
    then show thesis using False r
      by (intro that [of "upd_reg rid (\<lambda>r'. r'\<lparr>events := events r' AND NOT (delivered W ?rev (events r))\<rparr>) ?t"])
        (auto simp: visit_def en fun_eq_iff Let_def)
  qed
qed

text \<open>The ready list of a walk over \<open>es\<close> that starts after \<open>n\<close> environment calls with the store \<open>h\<close>.\<close>

fun ready_of :: "'a win_api_scheme \<Rightarrow> nat \<Rightarrow> (u64 \<times> nat) list \<Rightarrow> (nat \<rightharpoonup> 'l Registration) \<Rightarrow> ReadyListEntry list" where
  "ready_of W n [] h = []"
| "ready_of W n ((fd, rid) # es) h =
     ready_entry fd rid (fst (visit W n fd (the (h rid)))) @ ready_of W (Suc n) es h"

lemma ready_of_other: "rid \<notin> snd ` set es \<Longrightarrow> ready_of W n es (h(rid := v)) = ready_of W n es h"
  by (induction W n es h rule: ready_of.induct) auto

lemma fold_visits:
  assumes W: "poll_consts_ok W"
  shows "reg_inv s \<Longrightarrow> distinct (map snd es) \<Longrightarrow>
    (\<forall>(fd, rid) \<in> set es. find_value (registrations_m s) fd = Some rid) \<Longrightarrow>
    \<exists>s'. fold (process_registration W) es (rl, s) = (rl @ ready_of W (env_calls s) es (reg_heap s), s') \<and>
      registrations_m s' = registrations_m s \<and> env_calls s' = env_calls s + length es \<and> reg_inv s' \<and>
      (\<forall>rid. rid \<notin> snd ` set es \<longrightarrow> reg_heap s' rid = reg_heap s rid) \<and>
      (\<forall>i < length es. reg_heap s' (snd (es ! i)) =
         Some (snd (visit W (env_calls s + i) (fst (es ! i)) (the (reg_heap s (snd (es ! i)))))))"
proof (induction es arbitrary: s rl)
  case (Cons p es)
  obtain fd rid where p: "p = (fd, rid)" by (cases p)
  have look: "find_value (registrations_m s) fd = Some rid" using Cons.prems p by simp
  obtain r where r: "reg_heap s rid = Some r" using registered_live [OF Cons.prems(1) look] .
  obtain s1 where s1: "process_registration W (fd, rid) (rl, s) =
      (rl @ ready_entry fd rid (fst (visit W (env_calls s) fd r)), s1)"
    and h1: "reg_heap s1 = (reg_heap s)(rid \<mapsto> snd (visit W (env_calls s) fd r))"
    and f1: "registrations_m s1 = registrations_m s" "env_calls s1 = Suc (env_calls s)"
      "next_reg s1 = next_reg s" "ub_reached s1 = ub_reached s"
    using process_registration_visit [OF W Cons.prems(1) look r] .
  have inv1: "reg_inv s1"
    by (rule reg_inv_cong [OF _ _ _ _ Cons.prems(1)]) (use r h1 f1 in auto)
  have "distinct (map snd es)" "\<forall>(fd, rid) \<in> set es. find_value (registrations_m s1) fd = Some rid"
    using Cons.prems(2,3) f1(1) by simp_all
  from Cons.IH [OF inv1 this]
  obtain s' where s': "fold (process_registration W) es
      (rl @ ready_entry fd rid (fst (visit W (env_calls s) fd r)), s1) =
      ((rl @ ready_entry fd rid (fst (visit W (env_calls s) fd r))) @
        ready_of W (env_calls s1) es (reg_heap s1), s')"
    and f': "registrations_m s' = registrations_m s1" "env_calls s' = env_calls s1 + length es" "reg_inv s'"
    and out: "\<And>k. k \<notin> snd ` set es \<Longrightarrow> reg_heap s' k = reg_heap s1 k"
    and inside: "\<And>i. i < length es \<Longrightarrow> reg_heap s' (snd (es ! i)) =
         Some (snd (visit W (env_calls s1 + i) (fst (es ! i)) (the (reg_heap s1 (snd (es ! i))))))"
    by blast
  have new: "rid \<notin> snd ` set es" using Cons.prems(2) p by auto
  have "reg_heap s' (snd ((p # es) ! i)) = Some (snd (visit W (env_calls s + i) (fst ((p # es) ! i))
          (the (reg_heap s (snd ((p # es) ! i))))))" if "i < length (p # es)" for i
  proof (cases i)
    case 0
    then show ?thesis using out [OF new] h1 r p by simp
  next
    case (Suc j)
    with that have j: "j < length es" by simp
    then have "snd (es ! j) \<noteq> rid" using new by (metis image_eqI nth_mem)
    with inside [OF j] Suc h1 f1 show ?thesis by simp
  qed
  moreover have "reg_heap s' k = reg_heap s k" if "k \<notin> snd ` set (p # es)" for k
    using out [of k] that h1 p by auto
  moreover have "fold (process_registration W) (p # es) (rl, s) =
      (rl @ ready_of W (env_calls s) (p # es) (reg_heap s), s')"
    using s' s1 r ready_of_other [OF new] by (simp add: p h1 f1)
  ultimately show ?case using f' f1 by (intro exI [of _ s']) simp
qed simp

lemma collect_ready_walk:
  assumes "poll_consts_ok W" and "reg_inv s"
  obtains s' where "collect_ready W s =
      (ready_of W (env_calls s) (entries (registrations_m s)) (reg_heap s), s')"
    and "registrations_m s' = registrations_m s" and "reg_inv s'"
    and "\<And>i. i < length (entries (registrations_m s)) \<Longrightarrow>
      reg_heap s' (snd (entries (registrations_m s) ! i)) =
      Some (snd (visit W (env_calls s + i) (fst (entries (registrations_m s) ! i))
                   (the (reg_heap s (snd (entries (registrations_m s) ! i))))))"
proof -
  have "\<forall>(fd, rid) \<in> set (entries (registrations_m s)). find_value (registrations_m s) fd = Some rid"
    using lhm.seq_distinct [OF reg_invD(1) [OF assms(2)]]
    by (auto simp: lhm.look_seq [OF reg_invD(1) [OF assms(2)]])
  from fold_visits [OF assms reg_invD(3) [OF assms(2)] this, of "[]"] that
  show thesis unfolding collect_ready_def by auto
qed

lemma fst_collect_ready:
  "poll_consts_ok W \<Longrightarrow> reg_inv s \<Longrightarrow>
     fst (collect_ready W s) = ready_of W (env_calls s) (entries (registrations_m s)) (reg_heap s)"
  by (metis collect_ready_walk fst_conv)

lemma set_ready_of:
  "e \<in> set (ready_of W n es h) \<longleftrightarrow>
     (\<exists>i < length es. entry_fd e = fst (es ! i) \<and> entry_registration e = snd (es ! i) \<and>
        entry_events e = fst (visit W (n + i) (fst (es ! i)) (the (h (snd (es ! i))))) \<and> entry_events e \<noteq> 0)"
proof (induction W n es h rule: ready_of.induct)
  case (2 W n fd rid es h)
  have e: "e = \<lparr>entry_fd = a, entry_registration = b, entry_events = c\<rparr> \<longleftrightarrow>
      entry_fd e = a \<and> entry_registration e = b \<and> entry_events e = c" for a b c
    by (cases e) simp
  show ?case
    unfolding ready_of.simps set_append Un_iff "2.IH"
    by (subst ex_less_Suc_iff) (auto simp: ready_entry_def e)
qed simp

lemma ready_of_order: "subseq (map entry_fd (ready_of W n es h)) (map fst es)"
  by (induction W n es h rule: ready_of.induct) (auto simp: ready_entry_def)

lemma visit_subset: "poll_consts_ok W \<Longrightarrow> fst (visit W n fd r) AND NOT (events r) = 0"
  by (simp add: visit_def delivered_subset Let_def)

lemma visit_one_shot: "events (snd (visit W n fd r)) AND fst (visit W n fd r) = 0"
  by (simp add: visit_def Let_def and.assoc)

lemma entry_registration_of:
  assumes "reg_inv s" and "i < length (entries (registrations_m s))"
  shows "find_value (registrations_m s) (fst (entries (registrations_m s) ! i)) =
           Some (snd (entries (registrations_m s) ! i))"
    and "registration_of s (fst (entries (registrations_m s) ! i)) =
           Some (the (reg_heap s (snd (entries (registrations_m s) ! i))))"
proof -
  let ?p = "entries (registrations_m s) ! i"
  note m = reg_invD(1) [OF assms(1)]
  have "(fst ?p, snd ?p) \<in> set (entries (registrations_m s))" using assms(2) by simp
  then show look: "find_value (registrations_m s) (fst ?p) = Some (snd ?p)"
    using lhm.seq_distinct [OF m] by (simp add: lhm.look_seq [OF m])
  obtain r where "reg_heap s (snd ?p) = Some r" using registered_live [OF assms(1) look] .
  with look show "registration_of s (fst ?p) = Some (the (reg_heap s (snd ?p)))"
    by (simp add: registration_of_def)
qed

lemma collect_ready_entry:
  assumes W: "poll_consts_ok W" and inv: "reg_inv s" and e: "e \<in> set (fst (collect_ready W s))"
  obtains n r where "registration_of s (entry_fd e) = Some r"
    and "entry_events e = fst (visit W n (entry_fd e) r)" and "entry_events e \<noteq> 0"
    and "registration_of (snd (collect_ready W s)) (entry_fd e) = Some (snd (visit W n (entry_fd e) r))"
proof -
  let ?es = "entries (registrations_m s)"
  obtain s' where c: "collect_ready W s = (ready_of W (env_calls s) ?es (reg_heap s), s')"
    and same: "registrations_m s' = registrations_m s"
    and h: "\<And>i. i < length ?es \<Longrightarrow> reg_heap s' (snd (?es ! i)) =
       Some (snd (visit W (env_calls s + i) (fst (?es ! i)) (the (reg_heap s (snd (?es ! i))))))"
    using collect_ready_walk [OF W inv] by blast
  from e obtain i where i: "i < length ?es" and fd: "entry_fd e = fst (?es ! i)"
    and d: "entry_events e = fst (visit W (env_calls s + i) (fst (?es ! i)) (the (reg_heap s (snd (?es ! i)))))"
    and nz: "entry_events e \<noteq> 0"
    unfolding c fst_conv set_ready_of by blast
  have "registration_of s' (entry_fd e) = reg_heap s' (snd (?es ! i))"
    using entry_registration_of(1) [OF inv i] by (simp add: registration_of_def fd same)
  with h [OF i] show thesis
    using that [of "the (reg_heap s (snd (?es ! i)))" "env_calls s + i"] entry_registration_of(2) [OF inv i] d nz
    by (simp add: fd c)
qed

lemma collect_ready_inv:
  "poll_consts_ok W \<Longrightarrow> reg_inv s \<Longrightarrow> reg_inv (snd (collect_ready W s))"
  by (metis collect_ready_walk snd_conv)

section \<open>Sequences of socket calls\<close>

text \<open>What a listener may do to the registrations: call the four operations, in any order.\<close>

inductive socket_calls ::
  "'a win_api_scheme \<Rightarrow> ('u, 'd, 'l, 'z) EventLoopWin_scheme \<Rightarrow> ('u, 'd, 'l, 'z) EventLoopWin_scheme \<Rightarrow> bool"
  for W where
  sc_none: "socket_calls W s s"
| sc_register: "socket_calls W s t \<Longrightarrow> socket_calls W s (snd (RegisterSocket W fd evs lst t))"
| sc_unregister: "socket_calls W s t \<Longrightarrow> socket_calls W s (snd (UnregisterSocket W fd t))"
| sc_rearm: "socket_calls W s t \<Longrightarrow> socket_calls W s (snd (RearmSocket W fd evs t))"
| sc_artificial: "socket_calls W s t \<Longrightarrow> socket_calls W s (snd (ArtificiallyNotifyEvent fd evs t))"

text \<open>An address that has been given out and freed.\<close>

definition freed :: "nat \<Rightarrow> ('u, 'd, 'l, 'z) EventLoopWin_scheme \<Rightarrow> bool" where
  "freed rid s \<longleftrightarrow> rid < next_reg s \<and> reg_heap s rid = None"

lemma freed_erase: "freed rid s \<Longrightarrow> freed rid (snd (erase_registration fd s))"
  by (auto simp: freed_def erase_registration_def split: sum.split option.split)

lemma erase_freed:
  assumes inv: "reg_inv s" and look: "find_value (registrations_m s) fd = Some rid"
  shows "freed rid (snd (erase_registration fd s))"
proof -
  obtain m' n where "erase_key (registrations_m s) fd = Inr (m', n)"
    using lhm.del_seq [OF reg_invD(1) [OF inv], of fd] by blast
  moreover have "rid < next_reg s" using registered_live [OF inv look] reg_invD(5) [OF inv, of rid] by auto
  ultimately show ?thesis using look by (simp add: erase_registration_def freed_def)
qed

lemma freed_count_call [simp]: "freed rid (count_call s) = freed rid s"
  by (simp add: freed_def)

lemma freed_ops:
  assumes "freed rid s"
  shows "freed rid (snd (RegisterSocket W fd evs lst s))" "freed rid (snd (UnregisterSocket W fd s))"
    "freed rid (snd (RearmSocket W fd evs s))" "freed rid (snd (ArtificiallyNotifyEvent fd evs s))"
proof -
  have a: "freed rid (s\<lparr>next_reg := Suc (next_reg s), registrations_m := m, reg_heap := (reg_heap s)(next_reg s \<mapsto> r)\<rparr>)"
    "freed rid (s\<lparr>next_reg := Suc (next_reg s)\<rparr>)" for m r
    using assms by (auto simp: freed_def)
  show "freed rid (snd (RegisterSocket W fd evs lst s))"
    using assms a by (auto simp: RegisterSocket_def Let_def freed_erase split: prod.split)
  show "freed rid (snd (UnregisterSocket W fd s))"
    using assms freed_erase [of rid "count_call s" fd]
    by (auto simp: UnregisterSocket_def split: prod.split)
  show "freed rid (snd (RearmSocket W fd evs s))"
    using assms by (auto simp: RearmSocket_def Let_def freed_def split: option.split)
  show "freed rid (snd (ArtificiallyNotifyEvent fd evs s))"
    using assms by (auto simp: ArtificiallyNotifyEvent_def Let_def freed_def split: option.split)
qed

lemma socket_calls_keep:
  "socket_calls W s t \<Longrightarrow> reg_inv s \<Longrightarrow> reg_inv t"
  "socket_calls W s t \<Longrightarrow> freed rid s \<Longrightarrow> freed rid t"
  by (induction rule: socket_calls.induct) (simp_all add: reg_inv_ops freed_ops)

lemma socket_calls_trans: "socket_calls W t u \<Longrightarrow> socket_calls W s t \<Longrightarrow> socket_calls W s u"
  by (induction rule: socket_calls.induct) (auto intro: socket_calls.intros)

lemma RunReadyCallbacks_calls:
  assumes "\<And>l fd evs s. socket_calls W s (on_event l fd evs s)"
  shows "socket_calls W s (RunReadyCallbacks on_event rl s)"
  unfolding RunReadyCallbacks_def
proof (induction rl arbitrary: s)
  case (Cons e rl)
  have "socket_calls W s (run_ready_entry on_event e s)"
    using assms by (simp add: run_ready_entry_def sc_none split: option.split)
  with Cons show ?case by (auto intro: socket_calls_trans)
qed (simp add: sc_none)

section \<open>The constants of the Windows headers\<close>

text \<open>
  The documented values of the constants, and calls that succeed and report nothing; the
  witnesses and the findings override the calls they need.
\<close>

definition windows_headers :: win_api where
  "windows_headers =
     \<lparr>POLLIN = 0x300, POLLOUT = 0x10, POLLERR = 0x1, POLLHUP = 0x2,
      FD_READ = 0x1, FD_WRITE = 0x2, FD_ACCEPT = 0x8, FD_CONNECT = 0x10, FD_CLOSE = 0x20,
      WSA_WAIT_EVENT_0 = 0, WSA_WAIT_TIMEOUT = 258, WSA_WAIT_FAILED = 0xFFFFFFFF, INFINITE = 2 ^ 32 - 1,
      steady_clock = (\<lambda>n. 0), WSAEventSelect = (\<lambda>n fd m. 0),
      WSAEnumNetworkEvents = (\<lambda>n fd. (0, \<lparr>lNetworkEvents = 0, connect_error = 0\<rparr>)),
      WSAWaitForMultipleEvents = (\<lambda>n evs ms. 258),
      timeSetEvent = (\<lambda>n ms. 1), SetTimer = (\<lambda>n ms. 1)\<rparr>"

lemma windows_headers_simps [simp]:
  "POLLIN windows_headers = 0x300" "POLLOUT windows_headers = 0x10" "POLLERR windows_headers = 0x1"
  "POLLHUP windows_headers = 0x2" "FD_READ windows_headers = 0x1" "FD_WRITE windows_headers = 0x2"
  "FD_ACCEPT windows_headers = 0x8" "FD_CONNECT windows_headers = 0x10" "FD_CLOSE windows_headers = 0x20"
  "WSA_WAIT_EVENT_0 windows_headers = 0" "WSA_WAIT_TIMEOUT windows_headers = 258"
  "WSA_WAIT_FAILED windows_headers = 0xFFFFFFFF" "INFINITE windows_headers = 2 ^ 32 - 1"
  "steady_clock windows_headers n = 0" "WSAEventSelect windows_headers n fd m = 0"
  "WSAEnumNetworkEvents windows_headers n fd = (0, \<lparr>lNetworkEvents = 0, connect_error = 0\<rparr>)"
  "WSAWaitForMultipleEvents windows_headers n evs ms = 258"
  "timeSetEvent windows_headers n ms = 1" "SetTimer windows_headers n ms' = 1"
  by (simp_all add: windows_headers_def)

lemma windows_headers_ok: "poll_consts_ok windows_headers"
  by (simp add: poll_consts_ok_def)

text \<open>A running loop without registrations, and the same with one socket registered.\<close>

definition idle_loop :: "(nat, micros, nat) EventLoopWin" where
  "idle_loop = (case EventLoopWin_new True True True of Inr s \<Rightarrow> Begin 1 s)"

lemma idle_loop_eq:
  "idle_loop = \<lparr>thread_id_m = 1, running_m = True, pending_m = [], done_set = {}, env_calls = 0,
     registrations_m = lhm_new, reg_heap = Map.empty, next_reg = 0,
     has_artificial_events_pending_m = False, wakeup_ev_m = False, socket_ev_m = False,
     timer_m = \<lparr>event_m = False, mm_timer_id_m = 0\<rparr>, timer_tasks_m = [], timer_id_m = 0,
     dcheck_failed = False, ub_reached = False\<rparr>"
  by (simp add: idle_loop_def EventLoopWin_new_def MultimediaTimer_new_def EventLoop_new_def
      EventLoop.extend_def EventLoopWin.fields_def loop_defs)

lemma idle_loop_inv: "reg_inv idle_loop"
proof -
  have "entries lhm_new = ([] :: (u64 \<times> nat) list)" by (simp add: entries_def lhm_new_def)
  then show ?thesis by (simp add: reg_inv_def idle_loop_eq lhm_inv_new)
qed

lemma registration_of_same_fields:
  assumes "registrations_m t = registrations_m s" "reg_heap t = reg_heap s"
  shows "registration_of t = registration_of s"
  using assms by (intro ext) (simp add: registration_of_def)

lemma idle_loop_registration: "registration_of idle_loop fd = None"
  by (simp add: registration_of_def idle_loop_eq find_value_def lhm_new_def)

section \<open>Properties\<close>

text \<open>\<^verbatim>\<open>RegisterSocket\<close> succeeds exactly when the loop is running, the socket is not registered
  and \<^verbatim>\<open>WSAEventSelect\<close> accepts it.  Success adds the socket, with the given events and listener, behind
  the sockets registered before; every failure, including one of \<^verbatim>\<open>WSAEventSelect\<close>
  after the entry was inserted, leaves all registrations and their order as they were.  The map
  and the store stay consistent.\<close>

lemma RegisterSocket_all_or_nothing:
  assumes inv: "reg_inv s"
  shows "case RegisterSocket W fd evs lst s of (ok, s') \<Rightarrow>
     (ok \<longleftrightarrow> \<not> IsQuitting s \<and> registration_of s fd = None \<and>
             WSAEventSelect W (env_calls s) fd (GetPollMask W evs) = 0) \<and>
     map fst (entries (registrations_m s')) =
       map fst (entries (registrations_m s)) @ (if ok then [fd] else []) \<and>
     registration_of s' =
       (if ok then (registration_of s)(fd \<mapsto>
          \<lparr>events = evs, listener = lst, artificially_notify_at_next_iteration = 0\<rparr>)
        else registration_of s) \<and>
     reg_inv s'"
proof (cases "registration_of s fd")
  case (Some r)
  have "registration_of (s\<lparr>next_reg := Suc (next_reg s)\<rparr>) = registration_of s"
    by (rule registration_of_same_fields) simp_all
  moreover have "reg_inv (s\<lparr>next_reg := Suc (next_reg s)\<rparr>)"
    by (rule reg_inv_cong [OF _ _ _ _ inv]) simp_all
  ultimately show ?thesis
    using Some inv by (simp add: RegisterSocket_cases [OF inv])
next
  case None
  let ?a = "add_registration fd evs lst s"
  note added = add_registration_spec [OF inv None, of evs lst]
  have a: "registration_of (count_call ?a) = registration_of ?a"
    by (rule registration_of_same_fields) simp_all
  have absent: "fd \<notin> set (map fst (entries (registrations_m s)))"
    using None unfolding registration_of_None_iff [OF inv]
    by (simp add: lhm.look_seq [OF reg_invD(1) [OF inv]] map_of_eq_None_iff)
  note erased = erase_registration_spec [OF reg_inv_count_call [OF added(1)], of fd]
  have "entries (registrations_m (snd (erase_registration fd (count_call ?a)))) =
      entries (registrations_m s)"
    using erased filter_neq_id [OF absent] by (simp add: added(2))
  moreover have "registration_of (snd (erase_registration fd (count_call ?a))) = registration_of s"
    using erased None by (auto simp: a added(3) fun_eq_iff)
  ultimately show ?thesis
    using erased None added inv reg_inv_count_call [OF added(1)]
    by (simp add: RegisterSocket_cases [OF inv] a fun_eq_iff)
qed

lemma RegisterSocket_all_or_nothing_example:
  "fst (RegisterSocket windows_headers 5 kEventReadable (9 :: nat) idle_loop) \<and>
   registration_of (snd (RegisterSocket windows_headers 5 kEventReadable 9 idle_loop)) 5 =
     Some \<lparr>events = kEventReadable, listener = 9, artificially_notify_at_next_iteration = 0\<rparr>"
  using RegisterSocket_all_or_nothing [OF idle_loop_inv, where W = windows_headers and fd = 5 and evs = kEventReadable and lst = 9]
    idle_loop_registration
  by (simp add: case_prod_beta) (simp add: loop_defs idle_loop_eq)

text \<open>\<^verbatim>\<open>UnregisterSocket\<close>, \<^verbatim>\<open>RearmSocket\<close> and \<^verbatim>\<open>ArtificiallyNotifyEvent\<close> on a running loop: each
  finds the socket or changes nothing; unregistering removes it and keeps the order of the others,
  rearming and notifying add to the socket's own masks only, and notifying signals the socket
  event.  Rearming reports whether \<^verbatim>\<open>WSAEventSelect\<close> accepted the whole updated mask.\<close>

lemma socket_operations:
  assumes inv: "reg_inv s" and "running_m s" and r: "registration_of s fd = Some r"
    and absent: "registration_of s g = None"
  shows "fst (UnregisterSocket W fd s) \<and>
     registration_of (snd (UnregisterSocket W fd s)) = (registration_of s)(fd := None) \<and>
     map fst (entries (registrations_m (snd (UnregisterSocket W fd s)))) =
       filter (\<lambda>k. k \<noteq> fd) (map fst (entries (registrations_m s))) \<and>
     registration_of (snd (RearmSocket W fd evs s)) =
       (registration_of s)(fd \<mapsto> r\<lparr>events := events r OR evs\<rparr>) \<and>
     (fst (RearmSocket W fd evs s) \<longleftrightarrow>
        WSAEventSelect W (env_calls s) fd (GetPollMask W (events r OR evs)) = 0) \<and>
     fst (ArtificiallyNotifyEvent fd evs s) \<and> socket_ev_m (snd (ArtificiallyNotifyEvent fd evs s)) \<and>
     registration_of (snd (ArtificiallyNotifyEvent fd evs s)) =
       (registration_of s)(fd \<mapsto> r\<lparr>artificially_notify_at_next_iteration :=
          artificially_notify_at_next_iteration r OR evs\<rparr>) \<and>
     UnregisterSocket W g s = (False, s) \<and> RearmSocket W g evs s = (False, s) \<and>
     ArtificiallyNotifyEvent g evs s = (False, s)"
proof -
  have running: "\<not> IsQuitting s" using assms(2) by (simp add: loop_defs)
  obtain rid where look: "find_value (registrations_m s) fd = Some rid" and h: "reg_heap s rid = Some r"
    using r by (auto simp: registration_of_def bind_eq_Some_conv)
  have none: "find_value (registrations_m s) g = None"
    using absent by (simp add: registration_of_None_iff [OF inv])
  have c: "registration_of (count_call s) = registration_of s"
    by (rule registration_of_same_fields) simp_all
  have re: "registration_of (snd (RearmSocket W fd evs s)) =
      registration_of (upd_reg rid (\<lambda>r. r\<lparr>events := events r OR evs\<rparr>) s)"
    by (rule registration_of_same_fields) (simp_all add: RearmSocket_def running look Let_def)
  have art: "registration_of (snd (ArtificiallyNotifyEvent fd evs s)) =
      registration_of (upd_reg rid (\<lambda>r. r\<lparr>artificially_notify_at_next_iteration :=
          artificially_notify_at_next_iteration r OR evs\<rparr>) s)"
    by (rule registration_of_same_fields)
      (simp_all add: ArtificiallyNotifyEvent_def running look Let_def upd_reg_def)
  show ?thesis
    unfolding re art fun_eq_iff registration_of_upd_reg [OF inv look]
    using erase_registration_spec [OF reg_inv_count_call [OF inv], of fd] running r none absent
    by (simp add: UnregisterSocket_cases [OF inv] RearmSocket_def ArtificiallyNotifyEvent_def Let_def
        c look h filter_map o_def)
qed

lemma socket_operations_example:
  "fst (UnregisterSocket windows_headers 5
     (snd (RegisterSocket windows_headers 5 kEventReadable (9 :: nat) idle_loop)))"
proof -
  let ?s = "snd (RegisterSocket windows_headers 5 kEventReadable (9 :: nat) idle_loop)"
  have c: "RegisterSocket windows_headers 5 kEventReadable (9 :: nat) idle_loop =
      (True, count_call (add_registration 5 kEventReadable 9 idle_loop))"
    using idle_loop_registration [of 5]
    by (simp add: RegisterSocket_cases [OF idle_loop_inv]) (simp add: loop_defs idle_loop_eq)
  have f: "registration_of ?s k = (if k = 5 then Some \<lparr>events = kEventReadable, listener = 9,
      artificially_notify_at_next_iteration = 0\<rparr> else None)" for k
    using add_registration_spec(3) [OF idle_loop_inv idle_loop_registration, of 5 kEventReadable 9]
      registration_of_same_fields [of ?s "add_registration 5 kEventReadable 9 idle_loop"]
    by (simp add: c idle_loop_registration)
  have "running_m ?s" unfolding c by (simp add: add_registration_def) (simp add: idle_loop_eq)
  from socket_operations [OF reg_inv_ops(1) [OF idle_loop_inv] this f [of 5, simplified] f [of 6, simplified],
      of windows_headers 0]
  show ?thesis by blast
qed

text \<open>Translating an event mask to poll flags and back gives the mask's readable, writable and
  error bits, and nothing else; poll flags that are not among the three (such as hang-up) are
  dropped.\<close>

lemma event_mask_roundtrip:
  assumes "poll_consts_ok W"
  shows "GetEventMask W (GetPollMask W m) = m AND (kEventReadable OR kEventWritable OR kEventError) \<and>
         GetEventMask W (POLLHUP W) = 0 \<and>
         GetPollMask W (GetEventMask W (GetPollMask W m)) = GetPollMask W m"
proof -
  have 1: "GetEventMask W (GetPollMask W m) = m AND 7"
    by (simp add: GetEventMask_evmask GetPollMask_flags [OF assms] evmask_of)
  have 2: "GetEventMask W (POLLHUP W) = 0"
    using poll_consts_okD(15-17) [OF assms] by (simp add: GetEventMask_def and.commute)
  have "GetPollMask W (m AND 7) = GetPollMask W m"
    by (simp add: GetPollMask_def event_consts and.assoc)
  with 1 2 show ?thesis by (simp add: event_consts)
qed

lemma event_mask_roundtrip_example:
  "GetEventMask windows_headers (GetPollMask windows_headers 0x13) = 0x3"
  using event_mask_roundtrip [OF windows_headers_ok, where m = "0x13"] by (simp add: event_consts)

text \<open>One pass over the registered sockets makes the ready list the walk prescribes: sockets
  appear in registration order and at most once, each with a non-empty mask, and a socket is on the list exactly
  when its enumeration succeeds and some event that occurred, or was requested artificially, is
  among its registered events; the entry carries precisely those events.\<close>

lemma collect_ready_exact:
  assumes W: "poll_consts_ok W" and inv: "reg_inv s"
  shows "subseq (map entry_fd (fst (collect_ready W s))) (map fst (entries (registrations_m s))) \<and>
    distinct (map entry_fd (fst (collect_ready W s))) \<and>
    (\<forall>e. e \<in> set (fst (collect_ready W s)) \<longleftrightarrow>
      (\<exists>i < length (entries (registrations_m s)). \<exists>r ne.
         (entry_fd e, entry_registration e) = entries (registrations_m s) ! i \<and>
         registration_of s (entry_fd e) = Some r \<and>
         WSAEnumNetworkEvents W (env_calls s + i) (entry_fd e) = (0, ne) \<and>
         entry_events e = delivered W (network_revents W ne OR
            ucast (GetPollMask W (artificially_notify_at_next_iteration r))) (events r) \<and>
         entry_events e \<noteq> 0))"
proof -
  let ?es = "entries (registrations_m s)"
  note rl = fst_collect_ready [OF W inv]
  note m = reg_invD(1) [OF inv]
  have sub: "subseq (map entry_fd (fst (collect_ready W s))) (map fst ?es)"
    unfolding rl by (rule ready_of_order)
  then have dist: "distinct (map entry_fd (fst (collect_ready W s)))"
    using lhm.seq_distinct [OF m] by (rule subseq_distinct)
  note reg = entry_registration_of(2) [OF inv]
  have v: "d = fst (visit W n fd r) \<and> d \<noteq> 0 \<longleftrightarrow> (\<exists>ne. WSAEnumNetworkEvents W n fd = (0, ne) \<and>
      d = delivered W (network_revents W ne OR
            ucast (GetPollMask W (artificially_notify_at_next_iteration r))) (events r) \<and> d \<noteq> 0)" for n fd d
      and r :: "'d Registration"
    by (cases "WSAEnumNetworkEvents W n fd") (auto simp: visit_def Let_def)
  have "(entry_fd e = fst (?es ! i) \<and> entry_registration e = snd (?es ! i) \<and>
        entry_events e = fst (visit W (env_calls s + i) (fst (?es ! i)) (the (reg_heap s (snd (?es ! i))))) \<and>
        entry_events e \<noteq> 0) \<longleftrightarrow>
      (\<exists>r ne. (entry_fd e, entry_registration e) = ?es ! i \<and> registration_of s (entry_fd e) = Some r \<and>
         WSAEnumNetworkEvents W (env_calls s + i) (entry_fd e) = (0, ne) \<and>
         entry_events e = delivered W (network_revents W ne OR
            ucast (GetPollMask W (artificially_notify_at_next_iteration r))) (events r) \<and>
         entry_events e \<noteq> 0)" if "i < length ?es" for e i
    using reg [OF that] unfolding v by (cases "?es ! i") auto
  then have "e \<in> set (fst (collect_ready W s)) \<longleftrightarrow>
      (\<exists>i < length ?es. \<exists>r ne.
         (entry_fd e, entry_registration e) = ?es ! i \<and> registration_of s (entry_fd e) = Some r \<and>
         WSAEnumNetworkEvents W (env_calls s + i) (entry_fd e) = (0, ne) \<and>
         entry_events e = delivered W (network_revents W ne OR
            ucast (GetPollMask W (artificially_notify_at_next_iteration r))) (events r) \<and>
         entry_events e \<noteq> 0)" for e
    unfolding rl set_ready_of by (intro ex_cong1 conj_cong refl)
  with sub dist show ?thesis by blast
qed

text \<open>The witnesses' loop: socket 5 registered for reading and writing, with a listener.\<close>

definition one_socket :: "(nat, micros, nat) EventLoopWin" where
  "one_socket = snd (RegisterSocket windows_headers 5 3 9 idle_loop)"

lemma one_socket_eq: "one_socket = count_call (add_registration 5 3 9 idle_loop)"
  unfolding one_socket_def RegisterSocket_cases [OF idle_loop_inv] idle_loop_registration
  by (simp add: loop_defs) (simp add: idle_loop_eq)

lemma one_socket_facts:
  "reg_inv one_socket" "entries (registrations_m one_socket) = [(5, 0)]"
  "env_calls one_socket = 1" "running_m one_socket"
  "reg_heap one_socket 0 = Some \<lparr>events = 3, listener = 9, artificially_notify_at_next_iteration = 0\<rparr>"
  "find_value (registrations_m one_socket) 5 = Some 0"
proof -
  show inv: "reg_inv one_socket" unfolding one_socket_def by (rule reg_inv_ops [OF idle_loop_inv])
  show e: "entries (registrations_m one_socket) = [(5, 0)]"
    using add_registration_spec(2) [OF idle_loop_inv idle_loop_registration, of 5 3 9]
    by (simp add: one_socket_eq) (simp add: idle_loop_eq entries_def lhm_new_def)
  show "env_calls one_socket = 1" "running_m one_socket"
    "reg_heap one_socket 0 = Some \<lparr>events = 3, listener = 9, artificially_notify_at_next_iteration = 0\<rparr>"
    by (simp_all add: one_socket_eq add_registration_def) (simp_all add: idle_loop_eq)
  show "find_value (registrations_m one_socket) 5 = Some 0"
    by (simp add: lhm.look_seq [OF reg_invD(1) [OF inv]] e)
qed

lemma one_socket_registration:
  "registration_of one_socket 5 = Some \<lparr>events = 3, listener = 9, artificially_notify_at_next_iteration = 0\<rparr>"
  by (simp add: registration_of_def one_socket_facts)

text \<open>The same headers, with a socket that has data to read whenever it is asked.\<close>

definition readable_api :: win_api where
  "readable_api = windows_headers\<lparr>WSAEnumNetworkEvents :=
     \<lambda>n fd. (0, \<lparr>lNetworkEvents = 1, connect_error = 0\<rparr>)\<rparr>"

lemma readable_api_ok: "poll_consts_ok readable_api"
  by (simp add: poll_consts_ok_def readable_api_def)

lemma collect_ready_exact_example:
  "\<lparr>entry_fd = 5, entry_registration = 0, entry_events = kEventReadable\<rparr> \<in> set (fst (collect_ready readable_api one_socket))"
proof -
  let ?e = "\<lparr>entry_fd = 5, entry_registration = 0, entry_events = kEventReadable\<rparr> :: ReadyListEntry"
  have "delivered readable_api (network_revents readable_api \<lparr>lNetworkEvents = 1, connect_error = 0\<rparr> OR
      ucast (GetPollMask readable_api 0)) 3 = kEventReadable"
    by (simp add: delivered_def network_revents_def GetPollMask_def GetEventMask_def readable_api_def
        event_consts)
  then show ?thesis
    using collect_ready_exact [OF readable_api_ok one_socket_facts(1), THEN conjunct2, THEN conjunct2,
        THEN spec, of ?e]
    by (simp add: one_socket_facts(2,3) one_socket_registration)
      (simp add: readable_api_def event_consts)
qed

text \<open>C19. Events are one-shot: every entry of the ready list carries only events its socket was
  registered for, and the registration loses exactly these, together with its artificial
  notifications; a second pass without a \<^verbatim>\<open>RearmSocket\<close> in between delivers none of them again.\<close>

theorem events_one_shot:
  assumes W: "poll_consts_ok W" and inv: "reg_inv s" and e: "e \<in> set (fst (collect_ready W s))"
  shows "\<exists>r r'. registration_of s (entry_fd e) = Some r \<and> entry_events e AND NOT (events r) = 0 \<and>
           registration_of (snd (collect_ready W s)) (entry_fd e) = Some r' \<and>
           events r' = events r AND NOT (entry_events e) \<and>
           artificially_notify_at_next_iteration r' = 0 \<and>
           (\<forall>e' \<in> set (fst (collect_ready W (snd (collect_ready W s)))).
              entry_fd e' = entry_fd e \<longrightarrow> entry_events e' AND entry_events e = 0)"
proof -
  obtain n r where r: "registration_of s (entry_fd e) = Some r"
    and d: "entry_events e = fst (visit W n (entry_fd e) r)" and nz: "entry_events e \<noteq> 0"
    and r': "registration_of (snd (collect_ready W s)) (entry_fd e) = Some (snd (visit W n (entry_fd e) r))"
    using collect_ready_entry [OF W inv e] .
  let ?r' = "snd (visit W n (entry_fd e) r)"
  have step: "events ?r' = events r AND NOT (entry_events e) \<and> artificially_notify_at_next_iteration ?r' = 0"
    using d nz by (auto simp: visit_def Let_def split: if_splits)
  have "entry_events e' AND entry_events e = 0"
    if again: "e' \<in> set (fst (collect_ready W (snd (collect_ready W s))))" and fd: "entry_fd e' = entry_fd e" for e'
  proof -
    obtain k where d2: "entry_events e' = fst (visit W k (entry_fd e) ?r')"
      using collect_ready_entry [OF W collect_ready_inv [OF W inv] again] r' fd by (metis option.inject)
    have "entry_events e' AND NOT (events ?r') = 0" unfolding d2 by (rule visit_subset [OF W])
    then show ?thesis using step by (auto simp: word_zero_bits bit_simps)
  qed
  then show ?thesis using r r' step visit_subset [OF W, of n "entry_fd e" r] d by auto
qed

theorem events_one_shot_witness:
  "\<exists>r'. registration_of (snd (collect_ready readable_api one_socket)) 5 = Some r' \<and> events r' = kEventWritable"
proof -
  let ?e = "\<lparr>entry_fd = 5, entry_registration = 0, entry_events = kEventReadable\<rparr> :: ReadyListEntry"
  have "fst (visit readable_api 1 5 \<lparr>events = 3, listener = 9 :: nat, artificially_notify_at_next_iteration = 0\<rparr>)
      = kEventReadable"
    by (simp add: visit_def delivered_def network_revents_def GetPollMask_def GetEventMask_def readable_api_def
        event_consts)
  then have "?e \<in> set (fst (collect_ready readable_api one_socket))"
    by (simp add: fst_collect_ready [OF readable_api_ok one_socket_facts(1)] one_socket_facts ready_entry_def
        event_consts)
  from events_one_shot [OF readable_api_ok one_socket_facts(1) this] one_socket_registration
  show ?thesis by (auto simp: event_consts)
qed

text \<open>C20. A callback may unregister sockets that are still on the ready list, and even register the same
  descriptor again, by any sequence of socket operations: an entry whose registration has been
  freed is skipped, so no stale event is ever delivered, and the registrations stay consistent
  through the whole round of callbacks.\<close>

theorem stale_entries_skipped:
  assumes inv: "reg_inv s" and calls: "\<And>l fd evs s. socket_calls W s (on_event l fd evs s)"
    and gone: "freed (entry_registration e) (RunReadyCallbacks on_event before s)"
  shows "RunReadyCallbacks on_event (before @ mid @ e # after) s =
         RunReadyCallbacks on_event (before @ mid @ after) s \<and>
         reg_inv (RunReadyCallbacks on_event (before @ mid @ e # after) s)"
proof -
  have "freed (entry_registration e) (RunReadyCallbacks on_event (before @ mid) s)"
    using socket_calls_keep(2) [OF RunReadyCallbacks_calls [OF calls, where rl = mid] gone]
    by (simp add: RunReadyCallbacks_def)
  then have "RunReadyCallbacks on_event (before @ mid @ e # after) s =
         RunReadyCallbacks on_event (before @ mid @ after) s"
    by (simp add: RunReadyCallbacks_def run_ready_entry_def freed_def)
  moreover have "reg_inv (RunReadyCallbacks on_event (before @ mid @ after) s)"
    using socket_calls_keep(1) [OF RunReadyCallbacks_calls [OF calls] inv] .
  ultimately show ?thesis by simp
qed

theorem stale_entries_skipped_witness:
  "RunReadyCallbacks (\<lambda>l fd evs s. snd (UnregisterSocket windows_headers 5 s))
     ([\<lparr>entry_fd = 5, entry_registration = 0, entry_events = 1\<rparr>] @ [] @
       \<lparr>entry_fd = 5, entry_registration = 0, entry_events = 2\<rparr> # []) one_socket =
   RunReadyCallbacks (\<lambda>l fd evs s. snd (UnregisterSocket windows_headers 5 s))
     [\<lparr>entry_fd = 5, entry_registration = 0, entry_events = 1\<rparr>] one_socket"
proof -
  let ?on = "\<lambda>(l :: nat) (fd :: u64) (evs :: u8) s :: (nat, micros, nat) EventLoopWin.
    snd (UnregisterSocket windows_headers 5 s)"
  have "freed 0 (snd (UnregisterSocket windows_headers 5 one_socket))"
    using erase_freed [OF reg_inv_count_call [OF one_socket_facts(1)], of 5 0] one_socket_facts(4,6)
    by (simp add: UnregisterSocket_cases [OF one_socket_facts(1)] one_socket_registration IsQuitting_def)
  then have "freed 0 (RunReadyCallbacks ?on [\<lparr>entry_fd = 5, entry_registration = 0, entry_events = 1\<rparr>] one_socket)"
    by (simp add: RunReadyCallbacks_def run_ready_entry_def one_socket_facts)
  then show ?thesis
    using stale_entries_skipped [OF one_socket_facts(1), of windows_headers ?on
        "\<lparr>entry_fd = 5, entry_registration = 0, entry_events = 2\<rparr>"
        "[\<lparr>entry_fd = 5, entry_registration = 0, entry_events = 1\<rparr>]" "[]" "[]"]
    by (simp add: sc_unregister sc_none)
qed

text \<open>A socket that reports only that its peer closed the connection never reaches its listener: the
  hang-up flag the code sets for \<^verbatim>\<open>FD_CLOSE\<close> is in no registration's poll mask, so nothing is
  added to the ready list whatever events the socket is registered for.\<close>

lemma close_never_delivered:
  assumes W: "poll_consts_ok W" and inv: "reg_inv s"
    and look: "find_value (registrations_m s) fd = Some rid"
    and r: "reg_heap s rid = Some r" "artificially_notify_at_next_iteration r = 0"
    and ev: "WSAEnumNetworkEvents W (env_calls s) fd = (0, ne)"
    and only: "lNetworkEvents ne AND (FD_READ W OR FD_WRITE W OR FD_ACCEPT W OR FD_CONNECT W) = 0"
  shows "fst (process_registration W (fd, rid) (rl, s)) = rl"
proof -
  have z: "lNetworkEvents ne AND FD_READ W = 0" "lNetworkEvents ne AND FD_WRITE W = 0"
    "lNetworkEvents ne AND FD_ACCEPT W = 0" "lNetworkEvents ne AND FD_CONNECT W = 0"
    using only by (simp_all add: and.commute [of "lNetworkEvents ne"] or_and_zero)
  have "ucast (POLLHUP W) AND ucast (POLLIN W) = (0 :: u16)" "ucast (POLLHUP W) AND ucast (POLLOUT W) = (0 :: u16)"
    "ucast (POLLHUP W) AND ucast (POLLERR W) = (0 :: u16)"
    using poll_consts_okD(15-17) [OF W] by (simp_all add: and.commute flip: unsigned_and_eq)
  then have "delivered W (network_revents W ne) (events r) = 0"
    by (simp add: delivered_flags [OF W] network_revents_def z Let_def)
  then have "fst (visit W (env_calls s) fd r) = 0"
    by (simp add: visit_def ev r Let_def GetPollMask_def)
  then show ?thesis
    using process_registration_visit [OF W inv look r(1), of rl] by (metis append_Nil2 fst_conv ready_entry_def)
qed

definition closing_api :: win_api where
  "closing_api = windows_headers\<lparr>WSAEnumNetworkEvents :=
     \<lambda>n fd. (0, \<lparr>lNetworkEvents = 0x20, connect_error = 0\<rparr>)\<rparr>"

lemma close_never_delivered_example:
  "fst (process_registration closing_api (5, 0) ([], one_socket)) = []"
proof (rule close_never_delivered [OF _ one_socket_facts(1,6,5)])
  show "poll_consts_ok closing_api" by (simp add: closing_api_def poll_consts_ok_def)
  show "WSAEnumNetworkEvents closing_api (env_calls one_socket) 5 = (0, \<lparr>lNetworkEvents = 0x20, connect_error = 0\<rparr>)"
    by (simp add: closing_api_def)
qed (simp_all add: closing_api_def)

definition socket_event_api :: win_api where
  "socket_event_api = windows_headers\<lparr>WSAWaitForMultipleEvents := \<lambda>n evs ms. 2\<rparr>"

text \<open>A notification requested from inside a callback loses its wake-up: after an iteration
  that served the socket event, the notification is still pending in the registration but all three events the
  next iteration waits for are unsignalled, because the socket event is reset after the
  callbacks ran.  With an infinite time-out the next iteration then blocks.\<close>

lemma artificial_wakeup_lost:
  "case RunEventLoopOnce socket_event_api micros_duration (\<lambda>u s. s)
     (\<lambda>l fd evs s. snd (ArtificiallyNotifyEvent fd kEventWritable s)) Forever
     (snd (ArtificiallyNotifyEvent 5 kEventReadable one_socket)) of
     None \<Rightarrow> False
   | Some s \<Rightarrow> has_artificial_events_pending_m s \<and>
       map_option artificially_notify_at_next_iteration (registration_of s 5) = Some kEventWritable \<and>
       \<not> wakeup_ev_m s \<and> \<not> event_m (timer_m s) \<and> \<not> socket_ev_m s"
  by code_simp

text \<open>The mask \<^verbatim>\<open>RegisterSocket\<close> hands to \<^verbatim>\<open>WSAEventSelect\<close> is made of poll flags, where the call
  expects \<^verbatim>\<open>FD_\<close> flags.  With the values of the Windows headers a registration for reading asks
  for neither \<^verbatim>\<open>FD_READ\<close> nor \<^verbatim>\<open>FD_ACCEPT\<close> nor \<^verbatim>\<open>FD_CLOSE\<close>, one for writing not for \<^verbatim>\<open>FD_WRITE\<close>, and one for
  errors asks for \<^verbatim>\<open>FD_READ\<close>.\<close>

lemma select_mask_mismatch:
  "GetPollMask windows_headers kEventReadable AND
     (FD_READ windows_headers OR FD_ACCEPT windows_headers OR FD_CLOSE windows_headers) = 0 \<and>
   GetPollMask windows_headers kEventWritable AND FD_WRITE windows_headers = 0 \<and>
   GetPollMask windows_headers kEventError = FD_READ windows_headers"
  by (simp add: GetPollMask_def event_consts)

end
