(* ===== verification/WinTimers.thy ===== *)
theory WinTimers
  imports WinSockets
begin

unbundle bit_operations_syntax

text \<open>
  Properties of the timer side of the Windows loop: when delayed tasks become due, that
  \<^verbatim>\<open>RunDueTasks\<close> ends and runs exactly the due ones, that the two timers are armed and
  cancelled consistently, and what an iteration of the loop does.

  Code that runs on the loop's thread (tasks and listeners) is constrained only by \<open>loop_calls\<close>: it may call the
  loop's public operations in any order and change its own data, which is the part of the state behind
  the loop's record.
\<close>

section \<open>The clock and frames\<close>

definition micros_at :: "'a win_api_scheme \<Rightarrow> nat \<Rightarrow> int" where
  "micros_at W n = CurrentTimeMicros (steady_clock W n)"

definition clock_mono :: "'a win_api_scheme \<Rightarrow> bool" where
  "clock_mono W \<longleftrightarrow> (\<forall>m n. m \<le> n \<longrightarrow> steady_clock W m \<le> steady_clock W n)"

lemma micros_at_mono: "clock_mono W \<Longrightarrow> m \<le> n \<Longrightarrow> micros_at W m \<le> micros_at W n"
  by (simp add: clock_mono_def micros_at_def CurrentTimeMicros_mono)

lemma read_micros_eq:
  "read_micros (steady_clock W) s = (micros_at W (env_calls s), s\<lparr>env_calls := Suc (env_calls s)\<rparr>)"
  by (simp add: read_micros_def micros_at_def)

text \<open>Steps that leave the timers alone.\<close>

definition timer_frame :: "('u, 'd, 'l, 'z) EventLoopWin_scheme \<Rightarrow> ('u, 'd, 'l, 'z) EventLoopWin_scheme \<Rightarrow> bool" where
  "timer_frame s t \<longleftrightarrow>
     timer_tasks_m t = timer_tasks_m s \<and> timer_m t = timer_m s \<and> timer_id_m t = timer_id_m s \<and>
     dcheck_failed t = dcheck_failed s \<and> env_calls s \<le> env_calls t"

lemma timer_frame_refl [simp, intro]: "timer_frame s s"
  by (simp add: timer_frame_def)

lemma timer_frame_trans: "timer_frame s t \<Longrightarrow> timer_frame t u \<Longrightarrow> timer_frame s u"
  by (simp add: timer_frame_def)

lemma timer_frame_count_call [simp]: "timer_frame s (count_call s)"
  by (simp add: timer_frame_def)

lemma timer_frame_erase: "timer_frame s (snd (erase_registration fd s))"
  by (auto simp: timer_frame_def erase_registration_def split: sum.split)

lemma timer_frame_sockets:
  "timer_frame s (snd (RegisterSocket W fd evs lst s))" "timer_frame s (snd (UnregisterSocket W fd s))"
  "timer_frame s (snd (RearmSocket W fd evs s))" "timer_frame s (snd (ArtificiallyNotifyEvent fd evs s))"
proof -
  have "timer_frame s (snd (erase_registration fd (count_call t)))"
    if "timer_frame s t" for t
    using that timer_frame_erase timer_frame_count_call by (blast intro: timer_frame_trans)
  then show "timer_frame s (snd (RegisterSocket W fd evs lst s))"
    by (auto simp: RegisterSocket_def Let_def timer_frame_def split: prod.split)
  show "timer_frame s (snd (UnregisterSocket W fd s))"
    using timer_frame_trans [OF timer_frame_count_call timer_frame_erase, of s fd]
    by (auto simp: UnregisterSocket_def split: prod.split)
  show "timer_frame s (snd (RearmSocket W fd evs s))"
    by (auto simp: RearmSocket_def Let_def timer_frame_def split: option.split)
  show "timer_frame s (snd (ArtificiallyNotifyEvent fd evs s))"
    by (auto simp: ArtificiallyNotifyEvent_def Let_def timer_frame_def split: option.split)
qed

lemma timer_frame_destroy: "timer_frame s (destroy c s)"
  by (simp add: destroy_def timer_frame_def split: closure.split)

lemma timer_frame_fold_destroy: "timer_frame s (fold destroy cs s)"
  by (induction cs arbitrary: s) (auto intro: timer_frame_trans timer_frame_destroy)

lemma timer_frame_Quit: "timer_frame s (Quit s)"
  using timer_frame_fold_destroy [of "s\<lparr>pending_m := []\<rparr>" "pending_m s"]
  by (simp add: Quit_def timer_frame_def)

lemma timer_frame_PostTask: "timer_frame s (PostTask self WakeUp c s)"
  using timer_frame_destroy [of s c]
  by (simp add: loop_defs) (simp add: timer_frame_def WakeUp_def)

lemma timer_frame_process:
  "timer_frame (snd rs) (snd (process_registration W p rs))"
  unfolding process_registration_def DispatchSocketEvent_def
  by (auto simp: Let_def timer_frame_def split: prod.split option.split)

lemma timer_frame_fold_process:
  "timer_frame (snd rs) (snd (fold (process_registration W) es rs))"
proof (induction es arbitrary: rs)
  case (Cons p es)
  show ?case using timer_frame_trans [OF timer_frame_process Cons.IH] by simp
qed simp

lemma timer_frame_collect: "timer_frame s (snd (collect_ready W s))"
  using timer_frame_fold_process [of "([], s)"] by (simp add: collect_ready_def)

section \<open>The timer operations\<close>

lemma CancelTimers_fields [simp]:
  "timer_m (CancelTimers s) = \<lparr>event_m = False, mm_timer_id_m = 0\<rparr>" "timer_id_m (CancelTimers s) = 0"
  "timer_tasks_m (CancelTimers s) = timer_tasks_m s" "dcheck_failed (CancelTimers s) = dcheck_failed s"
  "env_calls (CancelTimers s) = env_calls s" "running_m (CancelTimers s) = running_m s"
  "thread_id_m (CancelTimers s) = thread_id_m s"
  by (simp_all add: CancelTimers_def Cancel_def Let_def)

lemma Cancel_eq [simp]: "Cancel t = \<lparr>event_m = False, mm_timer_id_m = 0\<rparr>"
  by (cases t) (simp add: Cancel_def)

lemma ScheduleNextTimer_fields [simp]:
  "timer_tasks_m (ScheduleNextTimer W A s) = timer_tasks_m s"
  "event_m (timer_m (ScheduleNextTimer W A s)) = event_m (timer_m s)"
  "env_calls s \<le> env_calls (ScheduleNextTimer W A s)"
  "EventLoopWin.more (ScheduleNextTimer W A s) = EventLoopWin.more s"
  by (auto simp: ScheduleNextTimer_def StartOneShotTimer_def dcheck_def count_call_def read_micros_eq Let_def)

text \<open>Scheduling from a state with no timer armed: the checks hold and one timer is armed.\<close>

lemma ScheduleNextTimer_arms:
  assumes "timer_id_m s = 0" "mm_timer_id_m (timer_m s) = 0"
  shows "dcheck_failed (ScheduleNextTimer W A s) = dcheck_failed s"
    and "timer_id_m (ScheduleNextTimer W A s) \<noteq> 0 \<longrightarrow> mm_timer_id_m (timer_m (ScheduleNextTimer W A s)) = 0"
    and "timer_tasks_m s = [] \<Longrightarrow> ScheduleNextTimer W A s = s"
    and "(\<And>n ms. SetTimer W n ms \<noteq> 0) \<Longrightarrow> timer_tasks_m s \<noteq> [] \<Longrightarrow>
         timer_id_m (ScheduleNextTimer W A s) \<noteq> 0 \<or> mm_timer_id_m (timer_m (ScheduleNextTimer W A s)) \<noteq> 0"
  using assms
  by (auto simp: ScheduleNextTimer_def StartOneShotTimer_def dcheck_def count_call_def read_micros_eq Let_def)

text \<open>
  The task posted by \<^verbatim>\<open>PostDelayedTaskOnTaskQueue\<close> when \<open>n\<close> environment calls have been made, and the rest of its effect.
\<close>

definition posted_info ::
  "'a win_api_scheme \<Rightarrow> ('d, 'b) absl_duration_scheme \<Rightarrow> nat \<Rightarrow> 'u \<Rightarrow> int \<Rightarrow> 'd \<Rightarrow> 'u DelayedTaskInfo" where
  "posted_info W A n task start_micros delay =
     DelayedTaskInfo_new A (micros_at W (Suc n))
       (dur_minus A delay (Microseconds A (micros_at W n - start_micros))) task"

lemma PostDelayed_eq:
  "PostDelayedTaskOnTaskQueue W A task start_micros delay s =
     (let info = posted_info W A (env_calls s) task start_micros delay;
          s' = s\<lparr>env_calls := Suc (Suc (env_calls s)), timer_tasks_m := pq_push info (timer_tasks_m s)\<rparr>
      in if timer_tasks_m s = [] \<or> due_time_micros_m info < due_time_micros_m (pq_top (timer_tasks_m s))
         then ScheduleNextTimer W A (CancelTimers s') else s')"
  by (simp add: PostDelayedTaskOnTaskQueue_def read_micros_eq posted_info_def Let_def)

lemma PostDelayed_tasks [simp]:
  "timer_tasks_m (PostDelayedTaskOnTaskQueue W A task start_micros delay s) =
     pq_push (posted_info W A (env_calls s) task start_micros delay) (timer_tasks_m s)"
  by (simp add: PostDelayed_eq Let_def)

lemma PostDelayed_env_calls:
  "env_calls s < env_calls (PostDelayedTaskOnTaskQueue W A task start_micros delay s)"
  using ScheduleNextTimer_fields(3) [of "CancelTimers (s\<lparr>env_calls := Suc (Suc (env_calls s)),
      timer_tasks_m := pq_push (posted_info W A (env_calls s) task start_micros delay) (timer_tasks_m s)\<rparr>)" W A]
  by (simp add: PostDelayed_eq Let_def)

lemma posted_info_due:
  assumes "absl_duration_ok A" "clock_mono W" "start_micros \<le> micros_at W n"
  shows "start_micros + ToInt64Microseconds A delay \<le> due_time_micros_m (posted_info W A n task start_micros delay)"
  using absl_duration_okD(3) [OF assms(1), of "micros_at W n - start_micros" delay]
    micros_at_mono [OF assms(2), of n "Suc n"] assms(3)
  by (simp add: posted_info_def DelayedTaskInfo_new_def)

section \<open>Code on the loop's thread\<close>

text \<open>
  A delayed post asks for at least a microsecond, or for no delay (a shorter one is rounded to zero
  by the conversion).
\<close>

inductive loop_calls ::
  "'a win_api_scheme \<Rightarrow> ('d, 'b) absl_duration_scheme
     \<Rightarrow> ('u, 'd, 'l, 'z) EventLoopWin_scheme \<Rightarrow> ('u, 'd, 'l, 'z) EventLoopWin_scheme \<Rightarrow> bool"
  for W A where
  lc_none: "loop_calls W A s s"
| lc_data: "loop_calls W A s t \<Longrightarrow> loop_calls W A s (EventLoopWin.more_update f t)"
| lc_post: "loop_calls W A s t \<Longrightarrow> loop_calls W A s (PostTask (thread_id_m t) WakeUp c t)"
| lc_delayed: "loop_calls W A s t \<Longrightarrow> dur_le A delay (ZeroDuration A) \<or> 1 \<le> ToInt64Microseconds A delay
     \<Longrightarrow> loop_calls W A s (PostDelayedTaskWithPrecision prec A (steady_clock W) (thread_id_m t) WakeUp
           (PostDelayedTaskOnTaskQueue W A) u delay t)"
| lc_register: "loop_calls W A s t \<Longrightarrow> loop_calls W A s (snd (RegisterSocket W fd evs lst t))"
| lc_unregister: "loop_calls W A s t \<Longrightarrow> loop_calls W A s (snd (UnregisterSocket W fd t))"
| lc_rearm: "loop_calls W A s t \<Longrightarrow> loop_calls W A s (snd (RearmSocket W fd evs t))"
| lc_artificial: "loop_calls W A s t \<Longrightarrow> loop_calls W A s (snd (ArtificiallyNotifyEvent fd evs t))"
| lc_quit: "loop_calls W A s t \<Longrightarrow> loop_calls W A s (Quit t)"

lemma timer_frame_more: "timer_frame s (EventLoopWin.more_update f s)"
  by (simp add: timer_frame_def)

lemma PostDelayed_own_thread_eq:
  "PostDelayedTaskWithPrecision prec A (steady_clock W) (thread_id_m t) WakeUp
           (PostDelayedTaskOnTaskQueue W A) u delay t =
      (if IsQuitting t then t
       else if dur_le A delay (ZeroDuration A)
       then PostTask (thread_id_m t) WakeUp (UserTask u) (t\<lparr>env_calls := Suc (env_calls t)\<rparr>)
       else PostDelayedTaskOnTaskQueue W A u (micros_at W (env_calls t)) delay
              (t\<lparr>env_calls := Suc (env_calls t)\<rparr>))"
  by (simp add: PostDelayedTaskWithPrecision_def PostDelayedTask_def PostDelayedHighPrecisionTask_def
      PostDelayedTaskImpl_def read_micros_eq PostTask_def IsCurrent_def split: DelayPrecision.split)

lemma PostDelayed_own_thread:
  assumes "dur_le A delay (ZeroDuration A) \<or> 1 \<le> ToInt64Microseconds A delay"
  shows "let r = PostDelayedTaskWithPrecision prec A (steady_clock W) (thread_id_m t) WakeUp
           (PostDelayedTaskOnTaskQueue W A) u delay t
     in timer_frame t r \<or> 1 \<le> ToInt64Microseconds A delay \<and>
        r = PostDelayedTaskOnTaskQueue W A u (micros_at W (env_calls t)) delay
              (t\<lparr>env_calls := Suc (env_calls t)\<rparr>)"
proof -
  have "timer_frame t (t\<lparr>env_calls := Suc (env_calls t)\<rparr>)" by (simp add: timer_frame_def)
  from timer_frame_trans [OF this timer_frame_PostTask] show ?thesis
    unfolding PostDelayed_own_thread_eq Let_def using assms by auto
qed

text \<open>As far as the timers are concerned, such code only posts delayed tasks, starting now.\<close>

lemma loop_calls_timer_induct [consumes 1, case_names start frame delayed]:
  assumes "loop_calls W A s t" and "P s" and frame: "\<And>t r. P t \<Longrightarrow> timer_frame t r \<Longrightarrow> P r"
    and delayed: "\<And>t u delay. P t \<Longrightarrow> 1 \<le> ToInt64Microseconds A delay \<Longrightarrow>
      P (PostDelayedTaskOnTaskQueue W A u (micros_at W (env_calls t)) delay (t\<lparr>env_calls := Suc (env_calls t)\<rparr>))"
  shows "P t"
  using assms(1,2)
proof induction
  case (lc_delayed s t delay prec u)
  with PostDelayed_own_thread [OF lc_delayed.hyps(2), of prec W t u] show ?case
    using frame delayed by (auto simp: Let_def)
qed (auto intro: frame timer_frame_more timer_frame_PostTask timer_frame_sockets timer_frame_Quit)

text \<open>The queue only grows, by tasks that are due after the call started.\<close>

lemma loop_calls_queue:
  assumes "loop_calls W A s t" and A: "absl_duration_ok A" and mono: "clock_mono W"
  shows "env_calls s \<le> env_calls t \<and>
    (\<exists>xs. timer_tasks_m t = fold pq_push xs (timer_tasks_m s) \<and>
          (\<forall>x \<in> set xs. micros_at W (env_calls s) < due_time_micros_m x))"
  using assms(1)
proof (induction rule: loop_calls_timer_induct)
  case start
  show ?case by (auto intro: exI [of _ "[]"])
next
  case (frame t r)
  then show ?case by (auto simp: timer_frame_def)
next
  case (delayed t u delay)
  let ?x = "posted_info W A (Suc (env_calls t)) u (micros_at W (env_calls t)) delay"
  from delayed(1) obtain xs where xs: "timer_tasks_m t = fold pq_push xs (timer_tasks_m s)"
    "\<forall>x \<in> set xs. micros_at W (env_calls s) < due_time_micros_m x" and e: "env_calls s \<le> env_calls t" by blast
  have "micros_at W (env_calls t) + ToInt64Microseconds A delay \<le> due_time_micros_m ?x"
    by (rule posted_info_due [OF A mono micros_at_mono [OF mono]]) simp
  with micros_at_mono [OF mono e] delayed(2) xs have "\<forall>x \<in> set (xs @ [?x]). micros_at W (env_calls s) < due_time_micros_m x"
    by auto
  moreover have "timer_tasks_m (PostDelayedTaskOnTaskQueue W A u (micros_at W (env_calls t)) delay
      (t\<lparr>env_calls := Suc (env_calls t)\<rparr>)) = fold pq_push (xs @ [?x]) (timer_tasks_m s)"
    using xs by simp
  ultimately show ?case
    using PostDelayed_env_calls [of "t\<lparr>env_calls := Suc (env_calls t)\<rparr>" W A u "micros_at W (env_calls t)" delay] e
    by (intro conjI exI [of _ "xs @ [?x]"]) simp_all
qed

section \<open>The timer invariant\<close>

text \<open>
  The queue is ordered, no check failed, the timer's event is signalled only by a multimedia
  timer that was started, at most one of the two timers is armed, and one is while tasks wait.
  While due tasks are being run no timer is armed (\<open>draining\<close>).
\<close>

definition timers_ok :: "('u, 'd, 'l, 'z) EventLoopWin_scheme \<Rightarrow> bool" where
  "timers_ok s \<longleftrightarrow>
     pq_wf (timer_tasks_m s) \<and> \<not> dcheck_failed s \<and>
     (event_m (timer_m s) \<longrightarrow> mm_timer_id_m (timer_m s) \<noteq> 0) \<and>
     (timer_id_m s \<noteq> 0 \<longrightarrow> mm_timer_id_m (timer_m s) = 0) \<and>
     (timer_tasks_m s \<noteq> [] \<longrightarrow> mm_timer_id_m (timer_m s) \<noteq> 0 \<or> timer_id_m s \<noteq> 0)"

definition draining :: "('u, 'd, 'l, 'z) EventLoopWin_scheme \<Rightarrow> bool" where
  "draining s \<longleftrightarrow>
     pq_wf (timer_tasks_m s) \<and> \<not> dcheck_failed s \<and> \<not> event_m (timer_m s) \<and>
     mm_timer_id_m (timer_m s) = 0 \<and> timer_id_m s = 0"

lemma ScheduleNextTimer_ok:
  assumes "draining s" and "\<And>n ms. SetTimer W n ms \<noteq> 0"
  shows "timers_ok (ScheduleNextTimer W A s)"
  using assms ScheduleNextTimer_arms [of s W A] by (auto simp: draining_def timers_ok_def)

lemma PostDelayed_ok:
  assumes "timers_ok s" and "\<And>n ms. SetTimer W n ms \<noteq> 0"
  shows "timers_ok (PostDelayedTaskOnTaskQueue W A task start_micros delay s)"
proof -
  let ?q = "pq_push (posted_info W A (env_calls s) task start_micros delay) (timer_tasks_m s)"
  let ?s = "s\<lparr>env_calls := Suc (Suc (env_calls s)), timer_tasks_m := ?q\<rparr>"
  have "draining (CancelTimers ?s)"
    using assms(1) by (simp add: draining_def timers_ok_def pq_wf_push)
  then have "timers_ok (ScheduleNextTimer W A (CancelTimers ?s))"
    by (rule ScheduleNextTimer_ok [OF _ assms(2)])
  moreover have "timers_ok ?s" if "timer_tasks_m s \<noteq> []"
    using assms(1) that by (simp add: timers_ok_def pq_wf_push)
  ultimately show ?thesis unfolding PostDelayed_eq Let_def by (cases "timer_tasks_m s = []") simp_all
qed

lemma timers_ok_frame: "timers_ok s \<Longrightarrow> timer_frame s t \<Longrightarrow> timers_ok t"
  by (simp add: timers_ok_def timer_frame_def)

lemma timers_ok_fields:
  "timers_ok (s\<lparr>has_artificial_events_pending_m := b\<rparr>) = timers_ok s"
  "timers_ok (s\<lparr>wakeup_ev_m := b\<rparr>) = timers_ok s" "timers_ok (s\<lparr>pending_m := cs\<rparr>) = timers_ok s"
  "timers_ok (s\<lparr>socket_ev_m := b\<rparr>) = timers_ok s" "timers_ok (s\<lparr>env_calls := k\<rparr>) = timers_ok s"
  by (simp_all add: timers_ok_def)

lemma timers_ok_calls:
  assumes "loop_calls W A s t" and "\<And>n ms. SetTimer W n ms \<noteq> 0"
  shows "timers_ok s \<Longrightarrow> timers_ok t"
  using assms(1)
proof (induction rule: loop_calls_timer_induct)
  case (delayed t u delay)
  then have "timers_ok (t\<lparr>env_calls := Suc (env_calls t)\<rparr>)" by (simp add: timers_ok_def)
  then show ?case by (rule PostDelayed_ok [OF _ assms(2)])
qed (auto intro: timers_ok_frame)

section \<open>Running due tasks\<close>

text \<open>
  While the task on top is due, code that runs before it is popped arms no timer.
\<close>

lemma draining_calls:
  assumes "loop_calls W A s t" and A: "absl_duration_ok A" and mono: "clock_mono W"
    and d: "draining s" and ne: "timer_tasks_m s \<noteq> []"
    and due: "due_time_micros_m (pq_top (timer_tasks_m s)) \<le> micros_at W (env_calls s)"
  shows "draining t"
proof -
  have "draining t \<and> timer_tasks_m t \<noteq> [] \<and> env_calls s \<le> env_calls t \<and>
      due_time_micros_m (pq_top (timer_tasks_m t)) \<le> micros_at W (env_calls s)"
    using assms(1)
  proof (induction rule: loop_calls_timer_induct)
    case (frame t r)
    then show ?case by (auto simp: draining_def timer_frame_def)
  next
    case (delayed t u delay)
    let ?x = "posted_info W A (Suc (env_calls t)) u (micros_at W (env_calls t)) delay"
    have "micros_at W (env_calls t) + ToInt64Microseconds A delay \<le> due_time_micros_m ?x"
      by (rule posted_info_due [OF A mono micros_at_mono [OF mono]]) simp
    then have x: "due_time_micros_m (pq_top (timer_tasks_m t)) \<le> due_time_micros_m ?x"
      using delayed micros_at_mono [OF mono, of "env_calls s" "env_calls t"] by linarith
    then have "pq_top (pq_push ?x (timer_tasks_m t)) = pq_top (timer_tasks_m t)"
      using delayed(1) pq.push_top [of "timer_tasks_m t" ?x] by (simp add: draining_def)
    with x delayed show ?case
      by (auto simp: PostDelayed_eq Let_def draining_def pq_wf_push)
  qed (use assms in auto)
  then show ?thesis by blast
qed

text \<open>One iteration that runs a task: it is popped, whatever it posted meanwhile stays for later.\<close>

lemma run_due_step:
  assumes A: "absl_duration_ok A" and mono: "clock_mono W"
    and calls: "\<And>u s. loop_calls W A s (exec u s)"
    and d: "draining s" and q: "timer_tasks_m s \<noteq> []" and now: "now \<le> micros_at W (env_calls s)"
    and top: "due_time_micros_m (pq_top (timer_tasks_m s)) \<le> now"
  defines "s1 \<equiv> exec (task_m (pq_top (timer_tasks_m s))) s"
  defines "s2 \<equiv> s1\<lparr>timer_tasks_m := pq_pop (timer_tasks_m s1)\<rparr>"
  obtains xs where "draining s2" and "env_calls s \<le> env_calls s2"
    and "\<And>x. x \<in> set xs \<Longrightarrow> now < due_time_micros_m x"
    and "{#x \<in># mset (timer_tasks_m s). due_time_micros_m x \<le> now#} =
      add_mset (pq_top (timer_tasks_m s)) {#x \<in># mset (timer_tasks_m s2). due_time_micros_m x \<le> now#}"
    and "{#x \<in># mset (timer_tasks_m s2). now < due_time_micros_m x#} =
      {#x \<in># mset (timer_tasks_m s). now < due_time_micros_m x#} + mset xs"
    and "run_due exec now s = (if timer_tasks_m s2 \<noteq> [] then run_due exec now s2 else Some s2)"
proof -
  let ?q = "timer_tasks_m s"
  let ?x = "pq_top ?q"
  have wf: "pq_wf ?q" using d by (simp add: draining_def)
  obtain xs where q1: "timer_tasks_m s1 = fold pq_push xs ?q" and e1: "env_calls s \<le> env_calls s1"
    and later: "\<And>x. x \<in> set xs \<Longrightarrow> now < due_time_micros_m x"
    using loop_calls_queue [OF calls A mono, of s "task_m ?x"] now unfolding s1_def by fastforce
  have "draining s1"
    unfolding s1_def using draining_calls [OF calls A mono d q] top now by simp
  then have dr2: "draining s2" using pq.wf_pop [of "timer_tasks_m s1"] by (simp add: draining_def s2_def)
  have ne: "mset ?q \<noteq> {#}" using q by simp
  have q2: "mset (timer_tasks_m s2) = (mset ?q - {#?x#}) + mset xs"
    using pq.run_then_pop [OF wf ne, of xs] later top by (fastforce simp: s2_def q1)
  have "{#x \<in># mset xs. now < due_time_micros_m x#} = mset xs"
    using later by (subst filter_mset_eq_conv) simp
  then have "{#x \<in># mset (timer_tasks_m s2). now < due_time_micros_m x#} =
      {#x \<in># mset ?q. now < due_time_micros_m x#} + mset xs"
    using top by (simp add: q2)
  moreover have "{#x \<in># mset ?q. due_time_micros_m x \<le> now#} =
      add_mset ?x {#x \<in># mset (timer_tasks_m s2). due_time_micros_m x \<le> now#}"
    using pq.due_after_run [OF wf ne top later] by (simp add: s2_def q1)
  moreover have "run_due exec now s = (if timer_tasks_m s2 \<noteq> [] then run_due exec now s2 else Some s2)"
    using top by (subst run_due.simps) (simp add: Let_def s1_def s2_def)
  moreover have "env_calls s \<le> env_calls s2" using e1 by (simp add: s2_def)
  ultimately show thesis using that [OF dr2 _ later] by blast
qed

text \<open>\<open>lg\<close> observes the executions: \<open>ext\<close> is what running a task does to it.\<close>

lemma run_due_spec:
  assumes A: "absl_duration_ok A" and mono: "clock_mono W"
    and calls: "\<And>u s. loop_calls W A s (exec u s)"
    and log: "\<And>u s. lg (exec u s) = ext (lg s) u" "\<And>s q. lg (s\<lparr>timer_tasks_m := q\<rparr>) = lg s"
  shows "draining s \<Longrightarrow> timer_tasks_m s \<noteq> [] \<Longrightarrow> now \<le> micros_at W (env_calls s) \<Longrightarrow>
    \<exists>t ds xs. run_due exec now s = Some t \<and> draining t \<and> env_calls s \<le> env_calls t \<and>
      lg t = foldl ext (lg s) (map task_m ds) \<and>
      mset ds = {#x \<in># mset (timer_tasks_m s). due_time_micros_m x \<le> now#} \<and>
      sorted (map due_time_micros_m ds) \<and>
      mset (timer_tasks_m t) = {#x \<in># mset (timer_tasks_m s). now < due_time_micros_m x#} + mset xs \<and>
      (\<forall>x \<in> set xs. now < due_time_micros_m x)"
proof (induction "size {#x \<in># mset (timer_tasks_m s). due_time_micros_m x \<le> now#}" arbitrary: s)
  case (0 s)
  let ?q = "timer_tasks_m s"
  have none: "{#x \<in># mset ?q. due_time_micros_m x \<le> now#} = {#}" using 0(1) by simp
  have "pq_top ?q \<in># mset ?q" using pq.top_in [of ?q] 0(2,3) by (simp add: draining_def)
  with none have late: "now < due_time_micros_m (pq_top ?q)" by (fastforce simp: filter_mset_eq_mempty_iff)
  have "run_due exec now s = Some s" using late by (subst run_due.simps) (simp add: Let_def)
  moreover have "{#x \<in># mset ?q. now < due_time_micros_m x#} = mset ?q"
    using pq_top_least [of ?q] late 0(2)
    by (subst filter_mset_eq_conv) (force simp: draining_def)
  ultimately show ?case using 0(2) none by (intro exI [of _ s] exI [of _ "[]"]) simp
next
  case (Suc n s)
  let ?q = "timer_tasks_m s"
  let ?x = "pq_top ?q"
  define s1 where "s1 = exec (task_m ?x) s"
  define s2 where "s2 = s1\<lparr>timer_tasks_m := pq_pop (timer_tasks_m s1)\<rparr>"
  have wf: "pq_wf ?q" using Suc.prems(1) by (simp add: draining_def)
  have top: "due_time_micros_m ?x \<le> now"
    using pq.nothing_due [OF wf, of now] Suc.hyps(2) by (metis linorder_not_le nat.distinct(1) size_empty)
  obtain xs0 where dr2: "draining s2" and env2: "env_calls s \<le> env_calls s2"
    and later: "\<And>x. x \<in> set xs0 \<Longrightarrow> now < due_time_micros_m x"
    and due2: "{#x \<in># mset ?q. due_time_micros_m x \<le> now#} =
      add_mset ?x {#x \<in># mset (timer_tasks_m s2). due_time_micros_m x \<le> now#}"
    and late2: "{#x \<in># mset (timer_tasks_m s2). now < due_time_micros_m x#} =
      {#x \<in># mset ?q. now < due_time_micros_m x#} + mset xs0"
    and run: "run_due exec now s = (if timer_tasks_m s2 \<noteq> [] then run_due exec now s2 else Some s2)"
    using run_due_step [where W = W and A = A and exec = exec and s = s and now = now,
        OF A mono calls Suc.prems top] unfolding s2_def s1_def by blast
  have more2: "lg s2 = ext (lg s) (task_m ?x)"
    by (simp add: s2_def s1_def log)
  have least: "\<forall>y \<in># {#x \<in># mset (timer_tasks_m s2). due_time_micros_m x \<le> now#}.
      due_time_micros_m ?x \<le> due_time_micros_m y"
  proof
    fix y
    assume "y \<in># {#x \<in># mset (timer_tasks_m s2). due_time_micros_m x \<le> now#}"
    then have "y \<in># {#x \<in># mset ?q. due_time_micros_m x \<le> now#}" unfolding due2 by simp
    then show "due_time_micros_m ?x \<le> due_time_micros_m y" using pq_top_least [OF wf, of y] by simp
  qed
  show ?case
  proof (cases "timer_tasks_m s2 = []")
    case True
    then show ?thesis using run dr2 env2 more2 due2 late2
      by (intro exI [of _ s2] exI [of _ "[?x]"] exI [of _ "[]"]) simp
  next
    case False
    have "n = size {#x \<in># mset (timer_tasks_m s2). due_time_micros_m x \<le> now#}"
      using Suc.hyps(2) due2 by simp
    moreover have "now \<le> micros_at W (env_calls s2)"
      using Suc.prems(3) micros_at_mono [OF mono env2] by simp
    ultimately obtain t ds xs where t: "run_due exec now s2 = Some t" "draining t" "env_calls s2 \<le> env_calls t"
      "lg t = foldl ext (lg s2) (map task_m ds)"
      "mset ds = {#x \<in># mset (timer_tasks_m s2). due_time_micros_m x \<le> now#}"
      "sorted (map due_time_micros_m ds)"
      "mset (timer_tasks_m t) = {#x \<in># mset (timer_tasks_m s2). now < due_time_micros_m x#} + mset xs"
      "\<forall>x \<in> set xs. now < due_time_micros_m x"
      using Suc.hyps(1) [OF _ dr2 False] by blast
    have "\<forall>y \<in> set ds. due_time_micros_m ?x \<le> due_time_micros_m y" using least t(5) by (metis set_mset_mset)
    then show ?thesis using t run False env2 more2 due2 late2 later
      by (intro exI [of _ t] exI [of _ "?x # ds"] exI [of _ "xs0 @ xs"]) (auto simp: ac_simps)
  qed
qed

lemma run_due_draining:
  assumes "absl_duration_ok A" "clock_mono W" "\<And>u s. loop_calls W A s (exec u s)"
    and "draining s" "timer_tasks_m s \<noteq> []" "now \<le> micros_at W (env_calls s)"
  shows "\<exists>t. run_due exec now s = Some t \<and> draining t"
  using run_due_spec [of A W exec "\<lambda>_. ()" "\<lambda>_ _. ()" s now, OF assms(1-3) _ _ assms(4-6)] by blast

lemma RunDueTasks_eq:
  "timer_tasks_m s \<noteq> [] \<Longrightarrow>
     RunDueTasks W exec s = run_due exec (micros_at W (env_calls s)) (s\<lparr>env_calls := Suc (env_calls s)\<rparr>)"
  by (simp add: RunDueTasks_def dcheck_def read_micros_eq Let_def)

section \<open>Iterations of the loop\<close>

text \<open>
  The documented behaviour of \<^verbatim>\<open>WSAWaitForMultipleEvents\<close>: it fails, times out, or returns the
  lowest index of a signalled event; the results are told apart.
\<close>

definition wait_ok :: "'a win_api_scheme \<Rightarrow> bool" where
  "wait_ok W \<longleftrightarrow>
     (\<forall>n evs ms. let r = WSAWaitForMultipleEvents W n evs ms
        in r = WSA_WAIT_FAILED W \<or> r = WSA_WAIT_TIMEOUT W \<or>
           (\<exists>i < length evs. r = WSA_WAIT_EVENT_0 W + of_nat i \<and> evs ! i \<and> (\<forall>j < i. \<not> evs ! j))) \<and>
     (\<forall>i < (3 :: nat). WSA_WAIT_EVENT_0 W + of_nat i \<noteq> WSA_WAIT_FAILED W \<and>
                        WSA_WAIT_EVENT_0 W + of_nat i \<noteq> WSA_WAIT_TIMEOUT W)"

text \<open>What an iteration does, by the event it was woken by.\<close>

lemma RunEventLoopOnce_cases:
  assumes "wait_ok W" and u: "once = RunEventLoopOnce W A exec on_event d s"
  obtains "once = Some (count_call s)"
  | "wakeup_ev_m s" "once = Some (ProcessPendingTasks W A exec (count_call s))"
  | "\<not> wakeup_ev_m s" "event_m (timer_m s)"
    "once = ProcessTimerTasksUpTo W A exec (micros_at W (Suc (env_calls s)))
              (s\<lparr>env_calls := Suc (Suc (env_calls s))\<rparr>)"
  | "\<not> wakeup_ev_m s" "\<not> event_m (timer_m s)" "socket_ev_m s"
    "once = Some ((ProcessSocketEvents W on_event (count_call s))\<lparr>socket_ev_m := False\<rparr>)"
  | "has_artificial_events_pending_m s" "once = Some (ProcessSocketEvents W on_event (count_call s))"
proof -
  let ?evs = "[wakeup_ev_m s, event_m (timer_m s), socket_ev_m s]"
  let ?r = "WSAWaitForMultipleEvents W (env_calls s) ?evs (to_uint32 (ToCmsWait A (INFINITE W) d))"
  have apart: "WSA_WAIT_EVENT_0 W \<noteq> WSA_WAIT_FAILED W" "WSA_WAIT_EVENT_0 W \<noteq> WSA_WAIT_TIMEOUT W"
    "WSA_WAIT_EVENT_0 W + 1 \<noteq> WSA_WAIT_FAILED W" "WSA_WAIT_EVENT_0 W + 1 \<noteq> WSA_WAIT_TIMEOUT W"
    "WSA_WAIT_EVENT_0 W + 2 \<noteq> WSA_WAIT_FAILED W" "WSA_WAIT_EVENT_0 W + 2 \<noteq> WSA_WAIT_TIMEOUT W"
    using assms(1) unfolding wait_ok_def by (force dest: spec [of _ 0] spec [of _ 1] spec [of _ 2])+
  note defs = u RunEventLoopOnce_def Let_def
  consider "?r = WSA_WAIT_FAILED W" | "?r \<noteq> WSA_WAIT_FAILED W" "?r = WSA_WAIT_TIMEOUT W"
    | i where "i < 3" "?r = WSA_WAIT_EVENT_0 W + of_nat i" "?evs ! i" "\<forall>j < i. \<not> ?evs ! j"
    using assms(1) unfolding wait_ok_def Let_def by (metis length_Cons list.size(3) numeral_3_eq_3)
  then show thesis
  proof cases
    case 1
    then show thesis using that(1) by (simp add: defs)
  next
    case 2
    then have "WSA_WAIT_TIMEOUT W - WSA_WAIT_EVENT_0 W \<notin> {0, 1, 2}"
      using apart by (auto simp: algebra_simps)
    with 2 show thesis
      using that(1,5) by (cases "has_artificial_events_pending_m s") (simp_all add: defs)
  next
    case 3
    from \<open>i < 3\<close> consider "i = 0" | "i = 1" | "i = 2" by linarith
    then show thesis
    proof cases
      case 1
      with 3 show thesis using that(2) apart by (simp add: defs)
    next
      case 2
      with 3 show thesis using that(3) apart by (simp add: defs read_micros_eq count_call_def)
    next
      case t: 3
      have "\<not> ?evs ! 0" "\<not> ?evs ! 1" using 3(4) t by (auto simp: numeral_2_eq_2)
      with 3 t show thesis using that(4) apart by (simp add: defs)
    qed
  qed
qed

text \<open>
  A history of the loop: iterations, calls of code on the loop's thread between them, tasks posted
  by any thread, and the multimedia timer signalling its event.
\<close>

inductive loop_run ::
  "'a win_api_scheme \<Rightarrow> ('d, 'b) absl_duration_scheme
     \<Rightarrow> ('u \<Rightarrow> ('u, 'd, 'l, 'z) EventLoopWin_scheme \<Rightarrow> ('u, 'd, 'l, 'z) EventLoopWin_scheme)
     \<Rightarrow> ('l \<Rightarrow> u64 \<Rightarrow> u8 \<Rightarrow> ('u, 'd, 'l, 'z) EventLoopWin_scheme \<Rightarrow> ('u, 'd, 'l, 'z) EventLoopWin_scheme)
     \<Rightarrow> ('u, 'd, 'l, 'z) EventLoopWin_scheme \<Rightarrow> ('u, 'd, 'l, 'z) EventLoopWin_scheme \<Rightarrow> bool"
  for W A exec on_event where
  lr_start: "loop_run W A exec on_event s s"
| lr_iteration: "loop_run W A exec on_event s t \<Longrightarrow> RunEventLoopOnce W A exec on_event d t = Some t'
     \<Longrightarrow> loop_run W A exec on_event s t'"
| lr_calls: "loop_run W A exec on_event s t \<Longrightarrow> loop_calls W A t t' \<Longrightarrow> loop_run W A exec on_event s t'"
| lr_post: "loop_run W A exec on_event s t \<Longrightarrow> loop_run W A exec on_event s (PostTask self WakeUp c t)"
| lr_fire: "loop_run W A exec on_event s t \<Longrightarrow> mm_timer_id_m (timer_m t) \<noteq> 0
     \<Longrightarrow> loop_run W A exec on_event s (t\<lparr>timer_m := (timer_m t)\<lparr>event_m := True\<rparr>\<rparr>)"

text \<open>
  What every task, every delayed post and the loop's own bookkeeping keep is kept by a round of
  pending tasks and by the socket callbacks.
\<close>

lemma RunPendingTasks_keeps:
  assumes exec: "\<And>u s. P s \<Longrightarrow> P (exec u s)"
    and frame: "\<And>c s. P s \<Longrightarrow> P (destroy c s)" "\<And>s. P s \<Longrightarrow> P (s\<lparr>wakeup_ev_m := False\<rparr>)"
      "\<And>s. P s \<Longrightarrow> P (s\<lparr>pending_m := []\<rparr>)"
    and delayed: "\<And>u st d s. P s \<Longrightarrow> P (PostDelayedTaskOnTaskQueue W A u st d s)"
    and "P s"
  shows "P (ProcessPendingTasks W A exec s)"
proof -
  have run: "P (run_closure W A exec c s)" if "P s" for c s
    using exec delayed that by (simp add: run_closure_def split: closure.split)
  have "P (fold (\<lambda>c s. destroy c (run_closure W A exec c s)) cs s)" if "P s" for cs s
    using that
  proof (induction cs arbitrary: s)
    case (Cons c cs)
    from Cons.IH [OF frame(1) [OF run [OF Cons.prems]]] show ?case by simp
  qed simp
  moreover have "P (s\<lparr>wakeup_ev_m := False\<rparr>)" "P (s\<lparr>wakeup_ev_m := False, pending_m := []\<rparr>)"
    using frame(2) [OF \<open>P s\<close>] frame(3) [of "s\<lparr>wakeup_ev_m := False\<rparr>"] by simp_all
  ultimately show ?thesis by (simp add: ProcessPendingTasks_def RunPendingTasks_def)
qed

lemma ProcessSocketEvents_keeps:
  assumes ev: "\<And>l fd evs s. P s \<Longrightarrow> P (on_event l fd evs s)"
    and frame: "\<And>s. P s \<Longrightarrow> P (snd (collect_ready W s))"
      "\<And>s. P s \<Longrightarrow> P (s\<lparr>has_artificial_events_pending_m := False\<rparr>)" and "P s"
  shows "P (ProcessSocketEvents W on_event s)"
proof -
  have "P (run_ready_entry on_event e s)" if "P s" for e s
    using ev that by (simp add: run_ready_entry_def split: option.split)
  then have fold: "P (RunReadyCallbacks on_event rl s)" if "P s" for rl s
    using that unfolding RunReadyCallbacks_def by (induction rl arbitrary: s) simp_all
  obtain rl s' where c: "collect_ready W s = (rl, s')" by (cases "collect_ready W s")
  have "P (s'\<lparr>has_artificial_events_pending_m := False\<rparr>)" using frame(2) [OF frame(1) [OF \<open>P s\<close>]] c by simp
  then show ?thesis using fold \<open>P s\<close> by (simp add: ProcessSocketEvents_def c Let_def)
qed

lemma timers_ok_iteration:
  assumes A: "absl_duration_ok A" and mono: "clock_mono W" and wait: "wait_ok W"
    and set_timer: "\<And>n ms. SetTimer W n ms \<noteq> 0"
    and calls: "\<And>u s. loop_calls W A s (exec u s)" "\<And>l fd evs s. loop_calls W A s (on_event l fd evs s)"
    and s: "timers_ok s" and run: "RunEventLoopOnce W A exec on_event d s = Some t"
  shows "timers_ok t"
proof -
  have c: "timers_ok (count_call s)" using s by (rule timers_ok_frame) simp
  note ok_calls = timers_ok_calls [OF _ set_timer]
  have sock: "timers_ok (ProcessSocketEvents W on_event (count_call s))"
    by (rule ProcessSocketEvents_keeps [where P = timers_ok, OF _ _ _ c])
      (auto intro: ok_calls [OF calls(2)] timers_ok_frame [OF _ timer_frame_collect] simp: timers_ok_fields)
  have pend: "timers_ok (ProcessPendingTasks W A exec (count_call s))"
    by (rule RunPendingTasks_keeps [where P = timers_ok, OF _ _ _ _ _ c])
      (auto intro: ok_calls [OF calls(1)] PostDelayed_ok [OF _ set_timer] timers_ok_frame [OF _ timer_frame_destroy]
        simp: timers_ok_fields)
  let ?s' = "s\<lparr>env_calls := Suc (Suc (env_calls s))\<rparr>"
  have timer: "timers_ok t" if ev: "event_m (timer_m s)" and p: "ProcessTimerTasksUpTo W A exec now ?s' = Some t" for now
  proof (cases "timer_tasks_m s = []")
    case True
    with p s show ?thesis by (auto simp: ProcessTimerTasksUpTo_def timers_ok_fields)
  next
    case False
    have "draining (?s'\<lparr>timer_m := Cancel (timer_m s), env_calls := Suc (env_calls ?s')\<rparr>)"
      using s ev by (auto simp: draining_def timers_ok_def)
    from run_due_draining [where exec = exec and now = "micros_at W (env_calls ?s')", OF A mono calls(1) this] False
    obtain u where "RunDueTasks W exec (?s'\<lparr>timer_m := Cancel (timer_m s)\<rparr>) = Some u" "draining u"
      using micros_at_mono [OF mono, of "env_calls ?s'" "Suc (env_calls ?s')"] by (auto simp: RunDueTasks_eq)
    then show ?thesis
      using p False ScheduleNextTimer_ok [OF _ set_timer] by (auto simp: ProcessTimerTasksUpTo_def)
  qed
  have sock': "timers_ok ((ProcessSocketEvents W on_event (count_call s))\<lparr>socket_ev_m := False\<rparr>)"
    by (rule timers_ok_frame [OF sock]) (simp add: timer_frame_def)
  show ?thesis
    using RunEventLoopOnce_cases [OF wait run [symmetric]] c sock sock' pend timer
    by (metis option.inject)
qed

section \<open>Registrations during a run\<close>

text \<open>The same for the socket side: what leaves the registrations alone, and the rest of the calls.\<close>

definition reg_frame :: "('u, 'd, 'l, 'z) EventLoopWin_scheme \<Rightarrow> ('u, 'd, 'l, 'z) EventLoopWin_scheme \<Rightarrow> bool" where
  "reg_frame s t \<longleftrightarrow> registrations_m t = registrations_m s \<and> reg_heap t = reg_heap s \<and>
     next_reg t = next_reg s \<and> ub_reached t = ub_reached s"

lemma reg_inv_frame: "reg_inv s \<Longrightarrow> reg_frame s t \<Longrightarrow> reg_inv t"
  by (rule reg_inv_cong [of t s]) (simp_all add: reg_frame_def)

lemma reg_frame_CancelTimers: "reg_frame s (CancelTimers s)"
  by (simp add: reg_frame_def CancelTimers_def Let_def)

lemma reg_frame_ScheduleNextTimer: "reg_frame s (ScheduleNextTimer W A s)"
  by (auto simp: reg_frame_def ScheduleNextTimer_def StartOneShotTimer_def dcheck_def count_call_def
      read_micros_eq Let_def)

lemma reg_frame_PostDelayed: "reg_frame s (PostDelayedTaskOnTaskQueue W A u st d s)"
proof -
  let ?s = "s\<lparr>env_calls := Suc (Suc (env_calls s)),
    timer_tasks_m := pq_push (posted_info W A (env_calls s) u st d) (timer_tasks_m s)\<rparr>"
  show ?thesis
    using reg_frame_ScheduleNextTimer [of "CancelTimers ?s" W A] reg_frame_CancelTimers [of ?s]
    by (simp add: reg_frame_def PostDelayed_eq Let_def)
qed

lemma reg_frame_destroy: "reg_frame s (destroy c s)"
  by (simp add: destroy_def reg_frame_def split: closure.split)

lemma reg_frame_fold_destroy: "reg_frame s (fold destroy cs s)"
proof (induction cs arbitrary: s)
  case (Cons c cs)
  from Cons.IH [of "destroy c s"] reg_frame_destroy [of s c] show ?case by (simp add: reg_frame_def)
qed (simp add: reg_frame_def)

lemma reg_frame_Quit: "reg_frame s (Quit s)"
  using reg_frame_fold_destroy [of "s\<lparr>pending_m := []\<rparr>" "pending_m s"]
  by (simp add: Quit_def reg_frame_def)

lemma reg_frame_PostTask: "reg_frame s (PostTask self WakeUp c s)"
  using reg_frame_destroy [of s c] by (simp add: loop_defs) (simp add: reg_frame_def WakeUp_def)

lemma reg_inv_calls:
  assumes "loop_calls W A s t"
  shows "reg_inv s \<Longrightarrow> reg_inv t"
  using assms
proof induction
  case (lc_delayed s t delay prec u)
  let ?t = "t\<lparr>env_calls := Suc (env_calls t)\<rparr>"
  have "reg_frame t ?t" by (simp add: reg_frame_def)
  then have "reg_inv ?t" using lc_delayed.IH lc_delayed.prems by (blast intro: reg_inv_frame)
  then show ?case
    unfolding PostDelayed_own_thread_eq
    using lc_delayed.IH [OF lc_delayed.prems] reg_inv_frame [of ?t, OF _ reg_frame_PostDelayed [of _ W A u "micros_at W (env_calls t)" delay]]
      reg_inv_frame [of ?t, OF _ reg_frame_PostTask]
    by simp
next
  case (lc_data s t f)
  then show ?case by (auto intro: reg_inv_frame simp: reg_frame_def)
qed (auto intro: reg_inv_frame [OF _ reg_frame_PostTask] reg_inv_frame [OF _ reg_frame_Quit] reg_inv_ops)

text \<open>A run of due tasks that ends keeps what the tasks and the pops keep.\<close>

lemma run_due_keeps:
  assumes "run_due exec now s = Some t" and exec: "\<And>u s. P s \<Longrightarrow> P (exec u s)"
    and pop: "\<And>s q. P s \<Longrightarrow> P (s\<lparr>timer_tasks_m := q\<rparr>)" and "P s"
  shows "P t"
proof -
  have "(\<forall>u s. P s \<longrightarrow> P (exec u s)) \<longrightarrow> P s \<longrightarrow> P t"
  proof (rule run_due.raw_induct [where P = "\<lambda>exec now s t. (\<forall>u s. P s \<longrightarrow> P (exec u s)) \<longrightarrow> P s \<longrightarrow> P t",
        OF _ assms(1)])
    fix run_due' exec now s t
    assume 1: "\<And>exec now s t. run_due' exec now s = Some t \<Longrightarrow> (\<forall>u s. P s \<longrightarrow> P (exec u s)) \<longrightarrow> P s \<longrightarrow> P t"
      "(let top = pq_top (timer_tasks_m s)
        in if now < due_time_micros_m top then Some s
           else let s1 = exec (task_m top) s; s2 = s1\<lparr>timer_tasks_m := pq_pop (timer_tasks_m s1)\<rparr>
                in if timer_tasks_m s2 \<noteq> [] then run_due' exec now s2 else Some s2) = Some t"
    show "(\<forall>u s. P s \<longrightarrow> P (exec u s)) \<longrightarrow> P s \<longrightarrow> P t"
    proof (intro impI)
      assume e: "\<forall>u s. P s \<longrightarrow> P (exec u s)" and "P s"
      let ?s1 = "exec (task_m (pq_top (timer_tasks_m s))) s"
      have "P (?s1\<lparr>timer_tasks_m := pq_pop (timer_tasks_m ?s1)\<rparr>)" using e \<open>P s\<close> pop by simp
      with 1 e \<open>P s\<close> show "P t" by (auto simp: Let_def split: if_splits)
    qed
  qed
  with exec \<open>P s\<close> show ?thesis by blast
qed

lemma reg_inv_fields:
  "reg_inv (s\<lparr>has_artificial_events_pending_m := b\<rparr>) = reg_inv s"
  "reg_inv (s\<lparr>wakeup_ev_m := b\<rparr>) = reg_inv s" "reg_inv (s\<lparr>pending_m := cs\<rparr>) = reg_inv s"
  "reg_inv (s\<lparr>socket_ev_m := b\<rparr>) = reg_inv s" "reg_inv (s\<lparr>timer_tasks_m := q\<rparr>) = reg_inv s"
  "reg_inv (s\<lparr>timer_m := m\<rparr>) = reg_inv s" "reg_inv (s\<lparr>env_calls := k\<rparr>) = reg_inv s"
  by (simp_all add: reg_inv_def)

lemma reg_inv_iteration:
  assumes W: "poll_consts_ok W" and wait: "wait_ok W"
    and calls: "\<And>u s. loop_calls W A s (exec u s)" "\<And>l fd evs s. loop_calls W A s (on_event l fd evs s)"
    and s: "reg_inv s" and run: "RunEventLoopOnce W A exec on_event d s = Some t"
  shows "reg_inv t"
proof -
  have c: "reg_inv (count_call s)" using s by (rule reg_inv_count_call)
  have sock: "reg_inv (ProcessSocketEvents W on_event (count_call s))"
    by (rule ProcessSocketEvents_keeps [where P = reg_inv, OF _ _ _ c])
      (auto intro: reg_inv_calls [OF calls(2)] collect_ready_inv [OF W] simp: reg_inv_fields)
  have pend: "reg_inv (ProcessPendingTasks W A exec (count_call s))"
    by (rule RunPendingTasks_keeps [where P = reg_inv, OF _ _ _ _ _ c])
      (auto intro: reg_inv_calls [OF calls(1)] reg_inv_frame [OF _ reg_frame_destroy]
        reg_inv_frame [OF _ reg_frame_PostDelayed] simp: reg_inv_fields)
  have timer: "reg_inv t"
    if p: "ProcessTimerTasksUpTo W A exec now (s\<lparr>env_calls := k\<rparr>) = Some t" for now k
  proof (cases "timer_tasks_m s = []")
    case True
    with p s show ?thesis by (auto simp: ProcessTimerTasksUpTo_def reg_inv_fields)
  next
    case False
    then obtain u where u: "run_due exec (micros_at W k) (s\<lparr>timer_m := Cancel (timer_m s), env_calls := Suc k\<rparr>) = Some u"
      and t: "t = ScheduleNextTimer W A u"
      using p by (auto simp: ProcessTimerTasksUpTo_def RunDueTasks_eq)
    have "reg_inv u"
      by (rule run_due_keeps [where P = reg_inv, OF u]) (use s reg_inv_calls [OF calls(1)] in \<open>simp_all add: reg_inv_fields\<close>)
    then show ?thesis unfolding t using reg_frame_ScheduleNextTimer by (rule reg_inv_frame)
  qed
  show ?thesis
    using RunEventLoopOnce_cases [OF wait run [symmetric]] c sock pend timer reg_inv_fields(4)
    by (metis option.inject)
qed

section \<open>A failing multimedia timer\<close>

text \<open>No multimedia timer was ever started.\<close>

definition no_mm :: "('u, 'd, 'l, 'z) EventLoopWin_scheme \<Rightarrow> bool" where
  "no_mm s \<longleftrightarrow> mm_timer_id_m (timer_m s) = 0 \<and> \<not> event_m (timer_m s)"

definition keeps_tasks :: "'u DelayedTaskInfo multiset \<Rightarrow> ('u, 'd, 'l, 'z) EventLoopWin_scheme \<Rightarrow> bool" where
  "keeps_tasks M s \<longleftrightarrow> no_mm s \<and> M \<subseteq># mset (timer_tasks_m s)"

lemma keeps_tasks_frame: "keeps_tasks M s \<Longrightarrow> timer_frame s t \<Longrightarrow> keeps_tasks M t"
  by (simp add: keeps_tasks_def no_mm_def timer_frame_def)

lemma keeps_tasks_fields:
  "keeps_tasks M (s\<lparr>has_artificial_events_pending_m := b\<rparr>) = keeps_tasks M s"
  "keeps_tasks M (s\<lparr>wakeup_ev_m := b\<rparr>) = keeps_tasks M s" "keeps_tasks M (s\<lparr>pending_m := cs\<rparr>) = keeps_tasks M s"
  "keeps_tasks M (s\<lparr>socket_ev_m := b\<rparr>) = keeps_tasks M s" "keeps_tasks M (s\<lparr>env_calls := k\<rparr>) = keeps_tasks M s"
  by (simp_all add: keeps_tasks_def no_mm_def)

lemma ScheduleNextTimer_no_mm:
  "(\<And>n ms. timeSetEvent W n ms = 0) \<Longrightarrow> mm_timer_id_m (timer_m s) = 0 \<Longrightarrow>
     mm_timer_id_m (timer_m (ScheduleNextTimer W A s)) = 0"
  by (auto simp: ScheduleNextTimer_def StartOneShotTimer_def dcheck_def count_call_def read_micros_eq Let_def)

lemma keeps_tasks_PostDelayed:
  assumes "\<And>n ms. timeSetEvent W n ms = 0" and "keeps_tasks M s"
  shows "keeps_tasks M (PostDelayedTaskOnTaskQueue W A u st d s)"
proof -
  have "no_mm (PostDelayedTaskOnTaskQueue W A u st d s)"
    using assms(2) by (auto simp: no_mm_def keeps_tasks_def PostDelayed_eq Let_def ScheduleNextTimer_no_mm [OF assms(1)])
  moreover have "mset (timer_tasks_m s) \<subseteq># mset (timer_tasks_m (PostDelayedTaskOnTaskQueue W A u st d s))"
    by simp
  ultimately show ?thesis
    using assms(2) by (auto simp only: keeps_tasks_def intro: subset_mset.order_trans)
qed

lemma keeps_tasks_calls:
  assumes "loop_calls W A s t" and fail: "\<And>n ms. timeSetEvent W n ms = 0"
  shows "keeps_tasks M s \<Longrightarrow> keeps_tasks M t"
  using assms(1)
proof (induction rule: loop_calls_timer_induct)
  case (delayed t u delay)
  then have "keeps_tasks M (t\<lparr>env_calls := Suc (env_calls t)\<rparr>)" by (simp add: keeps_tasks_fields)
  then show ?case by (rule keeps_tasks_PostDelayed [OF fail])
qed (auto intro: keeps_tasks_frame)

lemma keeps_tasks_iteration:
  assumes wait: "wait_ok W" and fail: "\<And>n ms. timeSetEvent W n ms = 0"
    and calls: "\<And>u s. loop_calls W A s (exec u s)" "\<And>l fd evs s. loop_calls W A s (on_event l fd evs s)"
    and s: "keeps_tasks M s" and run: "RunEventLoopOnce W A exec on_event d s = Some t"
  shows "keeps_tasks M t"
proof -
  have c: "keeps_tasks M (count_call s)" using s by (rule keeps_tasks_frame) simp
  have sock: "keeps_tasks M (ProcessSocketEvents W on_event (count_call s))"
    by (rule ProcessSocketEvents_keeps [where P = "keeps_tasks M", OF _ _ _ c])
      (auto intro: keeps_tasks_calls [OF calls(2) fail] keeps_tasks_frame [OF _ timer_frame_collect]
        simp: keeps_tasks_fields)
  have pend: "keeps_tasks M (ProcessPendingTasks W A exec (count_call s))"
    by (rule RunPendingTasks_keeps [where P = "keeps_tasks M", OF _ _ _ _ _ c])
      (auto intro: keeps_tasks_calls [OF calls(1) fail] keeps_tasks_PostDelayed [OF fail]
        keeps_tasks_frame [OF _ timer_frame_destroy] simp: keeps_tasks_fields)
  have "\<not> event_m (timer_m s)" using s by (simp add: keeps_tasks_def no_mm_def)
  then show ?thesis
    using RunEventLoopOnce_cases [OF wait run [symmetric]] c sock pend keeps_tasks_fields(4)
    by (metis option.inject)
qed

section \<open>Properties\<close>

lemma foldl_snoc: "foldl (\<lambda>l u. l @ [u]) l us = l @ us"
  by (induction us arbitrary: l) simp_all

lemma windows_headers_clock: "clock_mono windows_headers"
  by (simp add: clock_mono_def)

lemma windows_headers_wait: "wait_ok windows_headers"
  by (auto simp: wait_ok_def less_Suc_eq numeral_3_eq_3)

text \<open>\<^verbatim>\<open>RunDueTasks\<close> always returns, and runs exactly the tasks that are due at the time it reads, each once,
  in the order of their due times (the executions are logged behind the loop's record).  What it leaves
  in the queue are the tasks that were not yet due and those that the executed tasks posted, all
  due later: although a task is popped only after it ran, a task that posts delayed tasks never makes the pop remove
  another one, and no timer is armed meanwhile.\<close>

lemma RunDueTasks_exact:
  fixes s :: "('u, 'd, 'l, 'u list) EventLoopWin_scheme"
  assumes "absl_duration_ok A" and mono: "clock_mono W" and "\<And>u s. loop_calls W A s (exec u s)"
    and log: "\<And>u s. EventLoopWin.more (exec u s) = EventLoopWin.more s @ [u]"
    and s: "draining s" "timer_tasks_m s \<noteq> []"
  defines "now \<equiv> CurrentTimeMicros (steady_clock W (env_calls s))"
  shows "\<exists>t ran posted. RunDueTasks W exec s = Some t \<and>
    EventLoopWin.more t = EventLoopWin.more s @ map task_m ran \<and>
    mset ran = {#x \<in># mset (timer_tasks_m s). due_time_micros_m x \<le> now#} \<and>
    sorted (map due_time_micros_m ran) \<and>
    mset (timer_tasks_m t) = {#x \<in># mset (timer_tasks_m s). now < due_time_micros_m x#} + mset posted \<and>
    (\<forall>x \<in> set posted. now < due_time_micros_m x) \<and> draining t"
proof -
  let ?s = "s\<lparr>env_calls := Suc (env_calls s)\<rparr>"
  have "draining ?s" "timer_tasks_m ?s \<noteq> []" using s by (simp_all add: draining_def)
  moreover have "micros_at W (env_calls s) \<le> micros_at W (env_calls ?s)"
    by (rule micros_at_mono [OF mono]) simp
  ultimately have "\<exists>t ds xs. run_due exec (micros_at W (env_calls s)) ?s = Some t \<and> draining t \<and>
      env_calls ?s \<le> env_calls t \<and> EventLoopWin.more t = foldl (\<lambda>l u. l @ [u]) (EventLoopWin.more ?s) (map task_m ds) \<and>
      mset ds = {#x \<in># mset (timer_tasks_m ?s). due_time_micros_m x \<le> micros_at W (env_calls s)#} \<and>
      sorted (map due_time_micros_m ds) \<and>
      mset (timer_tasks_m t) = {#x \<in># mset (timer_tasks_m ?s). micros_at W (env_calls s) < due_time_micros_m x#} + mset xs \<and>
      (\<forall>x \<in> set xs. micros_at W (env_calls s) < due_time_micros_m x)"
    using run_due_spec [where exec = exec and lg = EventLoopWin.more and ext = "\<lambda>l u. l @ [u]",
        OF assms(1-3) log, of ?s "micros_at W (env_calls s)"] by simp
  then show ?thesis
    using s(2) by (auto simp: RunDueTasks_eq foldl_snoc now_def simp flip: micros_at_def)
qed

definition due_loop :: "(nat, micros, nat, nat list) EventLoopWin_scheme" where
  "due_loop = (EventLoopWin.extend idle_loop [])\<lparr>timer_tasks_m :=
     [\<lparr>due_time_micros_m = 0, task_m = 7\<rparr>, \<lparr>due_time_micros_m = 4000, task_m = 8\<rparr>]\<rparr>"

lemma RunDueTasks_exact_example:
  "\<exists>t. RunDueTasks windows_headers (\<lambda>u s. EventLoopWin.more_update (\<lambda>l. l @ [u]) s) due_loop = Some t \<and>
     EventLoopWin.more t = [7]"
proof -
  have "draining due_loop" "timer_tasks_m due_loop \<noteq> []"
    by (simp_all add: draining_def due_loop_def idle_loop_eq EventLoopWin.extend_def pq_wf_def)
  from RunDueTasks_exact [where exec = "\<lambda>u s. EventLoopWin.more_update (\<lambda>l. l @ [u]) s",
      OF micros_duration_ok windows_headers_clock _ _ this]
  obtain t ran where "RunDueTasks windows_headers (\<lambda>u s. EventLoopWin.more_update (\<lambda>l. l @ [u]) s) due_loop = Some t"
    "EventLoopWin.more t = EventLoopWin.more due_loop @ map task_m ran"
    "mset ran = {#x \<in># mset (timer_tasks_m due_loop). due_time_micros_m x \<le> CurrentTimeMicros 0#}"
    using lc_data [OF lc_none] by fastforce
  then show ?thesis
    by (simp add: due_loop_def idle_loop_eq EventLoopWin.extend_def time_defs)
qed

text \<open>A delayed task is never due early: posting it on the loop's thread adds exactly one entry, whose due time is at
  least the time the caller asked for, counted from when it made the request, even though the delay is
  first shortened by the time spent in the queue; the earliest entry is on top afterwards.\<close>

lemma delayed_task_not_early:
  assumes "absl_duration_ok A" and "clock_mono W" and wf: "pq_wf (timer_tasks_m s)"
    and "start_micros \<le> CurrentTimeMicros (steady_clock W (env_calls s))"
  shows "\<exists>x. task_m x = task \<and> start_micros + ToInt64Microseconds A delay \<le> due_time_micros_m x \<and>
     mset (timer_tasks_m (PostDelayedTaskOnTaskQueue W A task start_micros delay s)) =
       add_mset x (mset (timer_tasks_m s)) \<and>
     (\<forall>y \<in># add_mset x (mset (timer_tasks_m s)).
        due_time_micros_m (pq_top (timer_tasks_m (PostDelayedTaskOnTaskQueue W A task start_micros delay s)))
          \<le> due_time_micros_m y)"
proof -
  let ?x = "posted_info W A (env_calls s) task start_micros delay"
  have "start_micros + ToInt64Microseconds A delay \<le> due_time_micros_m ?x"
    by (rule posted_info_due [OF assms(1,2)]) (simp add: micros_at_def assms(4))
  moreover have "task_m ?x = task" by (simp add: posted_info_def DelayedTaskInfo_new_def)
  ultimately show ?thesis
    using pq_top_least [OF pq_wf_push [OF wf, of ?x]] by (intro exI [of _ ?x]) auto
qed

lemma delayed_task_not_early_example:
  "\<exists>x. task_m x = 3 \<and> 5000 \<le> due_time_micros_m x \<and>
     mset (timer_tasks_m (PostDelayedTaskOnTaskQueue windows_headers micros_duration 3 0 (Micros 5000) idle_loop)) = {#x#}"
proof -
  have q: "timer_tasks_m idle_loop = []" by (simp add: idle_loop_eq)
  show ?thesis
    using delayed_task_not_early [where s = idle_loop and start_micros = 0 and task = 3 and delay = "Micros 5000",
        OF micros_duration_ok windows_headers_clock] q
    by (auto simp: time_defs)
qed

lemma loop_run_keeps:
  assumes "loop_run W A exec on_event s t" and "P s"
    and "\<And>t t' d. P t \<Longrightarrow> RunEventLoopOnce W A exec on_event d t = Some t' \<Longrightarrow> P t'"
    and "\<And>t t'. P t \<Longrightarrow> loop_calls W A t t' \<Longrightarrow> P t'"
    and "\<And>t self c. P t \<Longrightarrow> P (PostTask self WakeUp c t)"
    and "\<And>t. P t \<Longrightarrow> mm_timer_id_m (timer_m t) \<noteq> 0 \<Longrightarrow> P (t\<lparr>timer_m := (timer_m t)\<lparr>event_m := True\<rparr>\<rparr>)"
  shows "P t"
  using assms(1,2) by induction (auto intro: assms(3-6))



text \<open>When the multimedia timer cannot be started, the \<^verbatim>\<open>SetTimer\<close> fall-back does not help: no
  iteration of the loop reacts to it, so in every history the delayed tasks that were waiting are still in
  the queue at the end; none is ever run.\<close>

lemma fallback_timer_never_served:
  assumes "wait_ok W" and fail: "\<And>n ms. timeSetEvent W n ms = 0"
    and calls: "\<And>u s. loop_calls W A s (exec u s)" "\<And>l fd evs s. loop_calls W A s (on_event l fd evs s)"
    and "mm_timer_id_m (timer_m s) = 0" "\<not> event_m (timer_m s)"
    and run: "loop_run W A exec on_event s t"
  shows "mset (timer_tasks_m s) \<subseteq># mset (timer_tasks_m t) \<and> \<not> event_m (timer_m t)"
proof -
  have "keeps_tasks (mset (timer_tasks_m s)) s" using assms(5,6) by (simp add: keeps_tasks_def no_mm_def)
  then have "keeps_tasks (mset (timer_tasks_m s)) t"
  proof (rule loop_run_keeps [where P = "keeps_tasks (mset (timer_tasks_m s))", OF run])
    show "keeps_tasks (mset (timer_tasks_m s)) (t\<lparr>timer_m := (timer_m t)\<lparr>event_m := True\<rparr>\<rparr>)"
      if "keeps_tasks (mset (timer_tasks_m s)) t" "mm_timer_id_m (timer_m t) \<noteq> 0" for t
      using that by (simp add: keeps_tasks_def no_mm_def)
  qed (auto intro: keeps_tasks_iteration [OF assms(1) fail calls] keeps_tasks_calls [OF _ fail]
      keeps_tasks_frame [OF _ timer_frame_PostTask])
  then show ?thesis by (simp add: keeps_tasks_def no_mm_def)
qed

definition no_mm_api :: win_api where
  "no_mm_api = windows_headers\<lparr>timeSetEvent := \<lambda>n ms. 0\<rparr>"

lemma fallback_timer_never_served_example:
  "mset (timer_tasks_m due_loop) \<subseteq># mset (timer_tasks_m (PostTask 1 WakeUp (UserTask 4) due_loop))"
proof -
  have "wait_ok no_mm_api" using windows_headers_wait by (simp add: wait_ok_def no_mm_api_def)
  moreover have "loop_run no_mm_api micros_duration (\<lambda>u s. s) (\<lambda>l fd evs s. s) due_loop (PostTask 1 WakeUp (UserTask 4) due_loop)"
    by (rule lr_post [OF lr_start])
  moreover have "mm_timer_id_m (timer_m due_loop) = 0" "\<not> event_m (timer_m due_loop)"
    by (simp_all add: due_loop_def idle_loop_eq EventLoopWin.extend_def)
  ultimately show ?thesis
    using fallback_timer_never_served [where W = no_mm_api and s = due_loop and exec = "\<lambda>u s. s"
        and on_event = "\<lambda>l fd evs s. s" and A = micros_duration]
    by (simp add: lc_none no_mm_api_def)
qed

end
