(* ===== verification/LoopIntegration.thy ===== *)
theory LoopIntegration
  imports WinTimers
begin

text \<open>
  The event loop as a whole: what a post from any thread, of \<open>EventLoopBase\<close>, leads to in the next
  iteration of the Windows loop, of \<open>EventLoopWin\<close>, down to the timer queue.
\<close>

section \<open>From a post to its execution\<close>

text \<open>A wait that answers as documented and does not fail or time out while one of the loop's three events is signalled.\<close>

definition prompt_wait :: "'a win_api_scheme \<Rightarrow> bool" where
  "prompt_wait W \<longleftrightarrow> wait_ok W \<and>
     (\<forall>n evs ms. length evs = 3 \<and> True \<in> set evs \<longrightarrow>
        WSAWaitForMultipleEvents W n evs ms \<notin> {WSA_WAIT_FAILED W, WSA_WAIT_TIMEOUT W})"

text \<open>The user's code in a queued closure.\<close>

definition bodies :: "('u, 'd) closure list \<Rightarrow> 'u list" where
  "bodies cs = List.map_filter
     (\<lambda>c. case c of UserTask u \<Rightarrow> Some u | BlockingClosure f e \<Rightarrow> Some f | PostDelayedClosure u st d \<Rightarrow> None) cs"

lemma bodies_simps [simp]:
  "bodies [] = []" "bodies (xs @ ys) = bodies xs @ bodies ys" "bodies (UserTask u # cs) = u # bodies cs"
  "bodies (BlockingClosure f e # cs) = f # bodies cs" "bodies (PostDelayedClosure u st d # cs) = bodies cs"
  by (simp_all add: bodies_def List.map_filter_def)

lemma woken_iteration:
  assumes "prompt_wait W" and "wakeup_ev_m s"
  shows "RunEventLoopOnce W A exec on_event d s = Some (ProcessPendingTasks W A exec (count_call s))"
proof -
  let ?evs = "[wakeup_ev_m s, event_m (timer_m s), socket_ev_m s]"
  let ?r = "WSAWaitForMultipleEvents W (env_calls s) ?evs (to_uint32 (ToCmsWait A (INFINITE W) d))"
  have r: "?r \<noteq> WSA_WAIT_FAILED W" "?r \<noteq> WSA_WAIT_TIMEOUT W"
    using assms(1) [unfolded prompt_wait_def, THEN conjunct2, rule_format, of ?evs "env_calls s"
        "to_uint32 (ToCmsWait A (INFINITE W) d)"] assms(2) by simp_all
  then obtain i where "?r = WSA_WAIT_EVENT_0 W + of_nat i" "\<forall>j < i. \<not> ?evs ! j"
    using assms(1) unfolding prompt_wait_def wait_ok_def Let_def by metis
  with assms(2) have "?r = WSA_WAIT_EVENT_0 W" by (cases i) auto
  with r show ?thesis by (simp add: RunEventLoopOnce_def Let_def)
qed

lemma PostDelayed_keeps [simp]:
  "EventLoopWin.more (PostDelayedTaskOnTaskQueue W A u st d s) = EventLoopWin.more s"
  "done_set (PostDelayedTaskOnTaskQueue W A u st d s) = done_set s"
  "pending_m (PostDelayedTaskOnTaskQueue W A u st d s) = pending_m s"
  by (auto simp: PostDelayed_eq Let_def CancelTimers_def Cancel_def ScheduleNextTimer_def StartOneShotTimer_def
      dcheck_def count_call_def read_micros_eq)

lemma destroy_more [simp]: "EventLoopWin.more (destroy c s) = EventLoopWin.more s"
  by (simp add: destroy_def split: closure.split)

text \<open>The log is not touched by the loop's own bookkeeping.\<close>

lemma process_registration_more:
  "EventLoopWin.more (snd (process_registration W p rs)) = EventLoopWin.more (snd rs)"
  unfolding process_registration_def DispatchSocketEvent_def
  by (auto simp: Let_def upd_reg_def count_call_def split: prod.split option.split)

lemma fold_process_more:
  "EventLoopWin.more (snd (fold (process_registration W) es rs)) = EventLoopWin.more (snd rs)"
  by (induction es arbitrary: rs) (simp_all add: process_registration_more)

lemma collect_ready_more: "EventLoopWin.more (snd (collect_ready W s)) = EventLoopWin.more s"
  by (simp add: collect_ready_def fold_process_more)

text \<open>What running the pending tasks logs and releases.\<close>

lemma run_closures_log:
  assumes "\<And>u s. EventLoopWin.more (exec u s) = EventLoopWin.more s @ [u]"
  shows "EventLoopWin.more (fold (\<lambda>c l. destroy c (run_closure W A exec c l)) cs s) = EventLoopWin.more s @ bodies cs"
proof (induction cs arbitrary: s)
  case (Cons c cs)
  then show ?case by (cases c) (simp_all add: assms run_closure_def)
qed simp

lemma run_closure_done:
  assumes "\<And>u s. done_set s \<subseteq> done_set (exec u s)"
  shows "done_set s \<subseteq> done_set (run_closure W A exec c s)"
  using assms by (cases c) (simp_all add: run_closure_def)

text \<open>The Windows loop, with the callers' variables behind its record, keeps the contract of a loop that is called.\<close>

interpretation win_calls: calling_loop
  "WakeUp :: ('u \<times> nat, 'd, 'l, nat \<rightharpoonup> 'r) EventLoopWin_scheme \<Rightarrow> ('u \<times> nat, 'd, 'l, nat \<rightharpoonup> 'r) EventLoopWin_scheme"
  EventLoopWin.more EventLoopWin.more_update
  by unfold_locales (simp_all add: WakeUp_def)

lemma BlockingCall_uninitialised:
  fixes l :: "('u \<times> nat, 'd, 'l, nat \<rightharpoonup> 'r) EventLoopWin_scheme"
  assumes "running_m l" and "thread_id_m l \<noteq> self"
  shows "e \<in> done_set (Quit (fst (BlockingCall EventLoopWin.more_update self WakeUp functor e f l))) \<and>
    EventLoopWin.more (Quit (fst (BlockingCall EventLoopWin.more_update self WakeUp functor e f l))) e = None"
  using win_calls.dropped_call [OF assms] by blast

section \<open>Properties\<close>

text \<open>C7. A task posted to a running loop runs in the loop's next iteration, whichever thread posts it: the post leaves the
  wake-up event signalled, so the wait ends at once, and the iteration runs all tasks pending before and then this one,
  each once (user code logs its execution behind the loop's record).  If it is a blocking call, its caller is
  released by the end of that iteration.\<close>

theorem posted_task_runs_next:
  fixes s :: "('u, 'd, 'l, 'u list) EventLoopWin_scheme"
  assumes W: "prompt_wait W" and "running_m s"
    and log: "\<And>u s. EventLoopWin.more (exec u s) = EventLoopWin.more s @ [u]"
    and mono: "\<And>u s. done_set s \<subseteq> done_set (exec u s)"
  shows "\<exists>t. RunEventLoopOnce W A exec on_event d (PostTask self WakeUp c s) = Some t \<and>
    EventLoopWin.more t = EventLoopWin.more s @ bodies (pending_m s @ [c]) \<and>
    released (pending_m s @ [c]) \<subseteq> done_set t"
proof -
  let ?s = "PostTask self WakeUp c s" and ?run = "\<lambda>c l. destroy c (run_closure W A exec c l)"
  have s: "wakeup_ev_m ?s" "pending_m ?s = pending_m s @ [c]" "EventLoopWin.more ?s = EventLoopWin.more s"
    using assms(2) by (simp_all add: PostTask_def PostTaskImpl_def IsQuitting_def WakeUp_def)
  have "RunEventLoopOnce W A exec on_event d ?s =
      Some (fold ?run (pending_m s @ [c]) ((count_call ?s)\<lparr>wakeup_ev_m := False, pending_m := []\<rparr>))"
    using woken_iteration [OF W s(1)] s(2)
    by (simp add: ProcessPendingTasks_def RunPendingTasks_def count_call_def)
  then show ?thesis
    using run_closures_log [of exec W A "pending_m s @ [c]", OF log] s(3)
      fold_run_released [of "run_closure W A exec" "pending_m s @ [c]", OF run_closure_done [OF mono]]
    by (fastforce simp: count_call_def)
qed

text \<open>A loop with a log, and a Windows API whose wait reports the first signalled event.\<close>

definition logging_loop :: "(nat, micros, nat, nat list) EventLoopWin_scheme" where
  "logging_loop = EventLoopWin.extend idle_loop []"

definition ready_api :: win_api where
  "ready_api = windows_headers\<lparr>WSAWaitForMultipleEvents := \<lambda>n evs ms.
     if True \<in> set evs then word_of_nat (length (takeWhile Not evs)) else 258\<rparr>"

lemma ready_api_prompt: "prompt_wait ready_api"
proof -
  have first: "length (takeWhile Not evs) < length evs \<and> evs ! length (takeWhile Not evs) \<and>
      (\<forall>j < length (takeWhile Not evs). \<not> evs ! j)" if "True \<in> set evs" for evs
    using that by (induction evs) (auto simp: nth_Cons split: nat.splits)
  have "wait_ok ready_api"
    using first by (fastforce simp: wait_ok_def ready_api_def less_Suc_eq numeral_3_eq_3 Let_def)
  moreover have "word_of_nat n \<notin> {0xFFFFFFFF, 258 :: u32}" if "n < 3" for n
    using that by (auto simp: less_Suc_eq numeral_3_eq_3)
  ultimately show ?thesis
    using first by (fastforce simp: prompt_wait_def ready_api_def)
qed

theorem posted_task_runs_next_witness:
  "\<exists>t. RunEventLoopOnce ready_api micros_duration (\<lambda>u s. EventLoopWin.more_update (\<lambda>l. l @ [u]) s) (\<lambda>l fd evs s. s)
     Forever (PostTask 2 WakeUp (BlockingClosure 7 3) logging_loop) = Some t \<and>
     EventLoopWin.more t = [7] \<and> 3 \<in> done_set t"
  using posted_task_runs_next [OF ready_api_prompt, of logging_loop
      "\<lambda>u s. EventLoopWin.more_update (\<lambda>l. l @ [u]) s" micros_duration "\<lambda>l fd evs s. s" Forever 2 "BlockingClosure 7 3"]
  by (simp add: logging_loop_def idle_loop_eq EventLoopWin.extend_def)



end
