(* ===== verification/LoopThreads.thy ===== *)
theory LoopThreads
  imports EventLoopWin
begin

text \<open>
  The threads of an event loop: \<^verbatim>\<open>PostTaskImpl\<close>, \<^verbatim>\<open>RunPendingTasks\<close> and \<^verbatim>\<open>Quit\<close> of \<^verbatim>\<open>src/event_loop.cc\<close> with
  \<^verbatim>\<open>ProcessPendingTasks\<close> and \<^verbatim>\<open>WakeUp\<close> of \<^verbatim>\<open>src/event_loop_win.cc\<close>, cut at every access to shared state, so
  that the steps of posting threads, of the loop's thread and of a thread that quits the loop interleave in
  any order.

  Tasks are numbers.  \<open>plock\<close> is \<^verbatim>\<open>pending_lock_\<close>, held by a poster (its number) or by another actor.
  \<open>pushed\<close> and \<open>executed\<close> record the tasks appended to \<^verbatim>\<open>pending_\<close> and the tasks run, in order.  A task
  that the loop's thread runs may post further tasks.
\<close>

section \<open>State\<close>

datatype poster_pc = PIdle | PCheck nat | PLock nat | PPush nat | PUnlock | PWake

datatype loop_pc = LIdle | LReset | LLock | LSwap | LUnlock "nat list" | LRun "nat list"
  | LPostCheck nat "nat list" | LPostPush nat "nat list" | LPostWake "nat list"

datatype quit_pc = QIdle | QLock | QSwap | QUnlock | QStore | QDone

datatype holder = Poster nat | Loop | Quitter

record world =
  pend :: "nat list"
  wakeup :: bool
  run_flag :: bool
  plock :: "holder option"
  ppc :: "nat \<Rightarrow> poster_pc"
  lpc :: loop_pc
  qpc :: quit_pc
  pushed :: "nat list"
  executed :: "nat list"

definition world_new :: world where
  "world_new = \<lparr>pend = [], wakeup = False, run_flag = True, plock = None, ppc = (\<lambda>i. PIdle), lpc = LIdle,
     qpc = QIdle, pushed = [], executed = []\<rparr>"

definition push_back :: "nat \<Rightarrow> world \<Rightarrow> world" where
  "push_back t w = w\<lparr>pend := pend w @ [t], pushed := pushed w @ [t]\<rparr>"

section \<open>Steps\<close>

text \<open>\<^verbatim>\<open>PostTaskImpl\<close> on a thread other than the loop's.\<close>

definition poster_step :: "nat \<Rightarrow> world \<Rightarrow> world option" where
  "poster_step i w =
     (case ppc w i of
        PIdle \<Rightarrow> None
      | PCheck t \<Rightarrow> Some (w\<lparr>ppc := (ppc w)(i := if \<not> run_flag w then PIdle else PLock t)\<rparr>)
      | PLock t \<Rightarrow>
          if plock w = None then Some (w\<lparr>plock := Some (Poster i), ppc := (ppc w)(i := PPush t)\<rparr>) else None
      | PPush t \<Rightarrow> Some ((push_back t w)\<lparr>ppc := (ppc w)(i := PUnlock)\<rparr>)
      | PUnlock \<Rightarrow> Some (w\<lparr>plock := None, ppc := (ppc w)(i := PWake)\<rparr>)
      | PWake \<Rightarrow> Some (w\<lparr>wakeup := True, ppc := (ppc w)(i := PIdle)\<rparr>))"

text \<open>
  \<^verbatim>\<open>ProcessPendingTasks\<close>, which the loop's thread enters when the wake-up event is signalled, the run of
  the tasks, and \<^verbatim>\<open>PostTaskImpl\<close> called by a task: there \<^verbatim>\<open>pending_\<close> is accessed without the lock.
\<close>

definition loop_thread_step :: "world \<Rightarrow> world option" where
  "loop_thread_step w =
     (case lpc w of
        LIdle \<Rightarrow> if wakeup w then Some (w\<lparr>lpc := LReset\<rparr>) else None
      | LReset \<Rightarrow> Some (w\<lparr>wakeup := False, lpc := LLock\<rparr>)
      | LLock \<Rightarrow> if plock w = None then Some (w\<lparr>plock := Some Loop, lpc := LSwap\<rparr>) else None
      | LSwap \<Rightarrow> Some (w\<lparr>pend := [], lpc := LUnlock (pend w)\<rparr>)
      | LUnlock ts \<Rightarrow> Some (w\<lparr>plock := None, lpc := LRun ts\<rparr>)
      | LRun [] \<Rightarrow> Some (w\<lparr>lpc := LIdle\<rparr>)
      | LRun (t # ts) \<Rightarrow> Some (w\<lparr>executed := executed w @ [t], lpc := LRun ts\<rparr>)
      | LPostCheck t ts \<Rightarrow> Some (w\<lparr>lpc := if \<not> run_flag w then LRun ts else LPostPush t ts\<rparr>)
      | LPostPush t ts \<Rightarrow> Some ((push_back t w)\<lparr>lpc := LPostWake ts\<rparr>)
      | LPostWake ts \<Rightarrow> Some (w\<lparr>wakeup := True, lpc := LRun ts\<rparr>))"

text \<open>\<^verbatim>\<open>Quit\<close>.\<close>

definition quit_step :: "world \<Rightarrow> world option" where
  "quit_step w =
     (case qpc w of
        QIdle \<Rightarrow> None
      | QLock \<Rightarrow> if plock w = None then Some (w\<lparr>plock := Some Quitter, qpc := QSwap\<rparr>) else None
      | QSwap \<Rightarrow> Some (w\<lparr>pend := [], qpc := QUnlock\<rparr>)
      | QUnlock \<Rightarrow> Some (w\<lparr>plock := None, qpc := QStore\<rparr>)
      | QStore \<Rightarrow> Some (w\<lparr>run_flag := False, qpc := QDone\<rparr>)
      | QDone \<Rightarrow> None)"

inductive world_step :: "world \<Rightarrow> world \<Rightarrow> bool" where
  ws_post: "ppc w i = PIdle \<Longrightarrow> world_step w (w\<lparr>ppc := (ppc w)(i := PCheck t)\<rparr>)"
| ws_poster: "poster_step i w = Some w' \<Longrightarrow> world_step w w'"
| ws_loop: "loop_thread_step w = Some w' \<Longrightarrow> world_step w w'"
| ws_task_posts: "lpc w = LRun ts \<Longrightarrow> world_step w (w\<lparr>lpc := LPostCheck t ts\<rparr>)"
| ws_quit: "qpc w = QIdle \<Longrightarrow> world_step w (w\<lparr>qpc := QLock\<rparr>)"
| ws_quitter: "quit_step w = Some w' \<Longrightarrow> world_step w w'"

section \<open>Invariants\<close>

text \<open>A wake-up is on its way: a poster or the loop's own task is about to signal.\<close>

definition about_to_wake :: "world \<Rightarrow> bool" where
  "about_to_wake w \<longleftrightarrow> (\<exists>i. ppc w i = PUnlock \<or> ppc w i = PWake) \<or> (\<exists>ts. lpc w = LPostWake ts)"

definition about_to_swap :: "world \<Rightarrow> bool" where
  "about_to_swap w \<longleftrightarrow> lpc w = LReset \<or> lpc w = LLock \<or> lpc w = LSwap"

definition no_lost_wakeup :: "world \<Rightarrow> bool" where
  "no_lost_wakeup w \<longleftrightarrow> (pend w \<noteq> [] \<longrightarrow> wakeup w \<or> about_to_wake w \<or> about_to_swap w)"

text \<open>The tasks the loop's thread has taken and not yet run.\<close>

fun taken :: "loop_pc \<Rightarrow> nat list" where
  "taken (LUnlock ts) = ts" | "taken (LRun ts) = ts" | "taken (LPostCheck t ts) = ts"
| "taken (LPostPush t ts) = ts" | "taken (LPostWake ts) = ts" | "taken _ = []"

definition fifo :: "world \<Rightarrow> bool" where
  "fifo w \<longleftrightarrow> subseq (executed w @ taken (lpc w) @ pend w) (pushed w) \<and>
     (qpc w = QIdle \<or> qpc w = QLock \<or> qpc w = QSwap \<longrightarrow> executed w @ taken (lpc w) @ pend w = pushed w)"

lemma about_to_wake_other:
  assumes "about_to_wake w" "\<And>j. j \<noteq> i \<Longrightarrow> ppc w' j = ppc w j" "ppc w i \<noteq> PUnlock" "ppc w i \<noteq> PWake" "lpc w' = lpc w"
  shows "about_to_wake w'"
  using assms unfolding about_to_wake_def by metis

text \<open>A step of a poster that has not yet pushed.\<close>

lemma poster_moves:
  assumes "no_lost_wakeup w" "ppc w i \<noteq> PUnlock" "ppc w i \<noteq> PWake"
    and "\<And>j. j \<noteq> i \<Longrightarrow> ppc w' j = ppc w j" "lpc w' = lpc w" "pend w' = pend w" "wakeup w' = wakeup w"
  shows "no_lost_wakeup w'"
  using assms about_to_wake_other [of w i w'] by (simp add: no_lost_wakeup_def about_to_swap_def) blast

lemma poster_step_wakeup:
  assumes "poster_step i w = Some w'" "no_lost_wakeup w"
  shows "no_lost_wakeup w'"
proof (cases "ppc w i")
  case PIdle
  then show ?thesis using assms(1) by (simp add: poster_step_def)
next
  case (PCheck t)
  then show ?thesis using assms(1) poster_moves [OF assms(2), of i w'] by (auto simp: poster_step_def)
next
  case (PLock t)
  then show ?thesis using assms(1) poster_moves [OF assms(2), of i w'] by (auto simp: poster_step_def split: if_splits)
next
  case (PPush t)
  then have "about_to_wake w'" using assms(1) by (auto simp: poster_step_def about_to_wake_def push_back_def)
  then show ?thesis by (simp add: no_lost_wakeup_def)
next
  case PUnlock
  then have "about_to_wake w'" using assms(1) by (auto simp: poster_step_def about_to_wake_def)
  then show ?thesis by (simp add: no_lost_wakeup_def)
next
  case PWake
  then have "wakeup w'" using assms(1) by (auto simp: poster_step_def)
  then show ?thesis by (simp add: no_lost_wakeup_def)
qed

lemma loop_step_wakeup:
  assumes "loop_thread_step w = Some w'" "no_lost_wakeup w"
  shows "no_lost_wakeup w'"
proof (cases "lpc w")
  case (LRun ts)
  then show ?thesis using assms
    by (cases ts) (auto simp: loop_thread_step_def no_lost_wakeup_def about_to_wake_def about_to_swap_def)
qed (use assms in \<open>auto simp: loop_thread_step_def no_lost_wakeup_def about_to_wake_def about_to_swap_def
    push_back_def split: if_splits\<close>)

lemma quit_step_wakeup: "quit_step w = Some w' \<Longrightarrow> no_lost_wakeup w \<Longrightarrow> no_lost_wakeup w'"
  by (cases "qpc w") (auto simp: quit_step_def no_lost_wakeup_def about_to_wake_def about_to_swap_def split: if_splits)

lemma world_step_wakeup: "world_step w w' \<Longrightarrow> no_lost_wakeup w \<Longrightarrow> no_lost_wakeup w'"
proof (induction rule: world_step.induct)
  case (ws_post w i t)
  then show ?case using poster_moves [OF ws_post.prems, of i] by simp
next
  case (ws_task_posts w ts t)
  then show ?case by (auto simp: no_lost_wakeup_def about_to_wake_def about_to_swap_def)
next
  case (ws_quit w)
  then show ?case by (simp add: no_lost_wakeup_def about_to_wake_def about_to_swap_def)
qed (auto intro: poster_step_wakeup loop_step_wakeup quit_step_wakeup)

lemma push_back_fields [simp]:
  "lpc (push_back t w) = lpc w" "qpc (push_back t w) = qpc w" "executed (push_back t w) = executed w"
  "pend (push_back t w) = pend w @ [t]" "pushed (push_back t w) = pushed w @ [t]"
  by (simp_all add: push_back_def)

lemma subseq_drop_end: "subseq (xs @ ys) zs \<Longrightarrow> subseq xs zs"
  using subseq_order.order_trans [of xs "xs @ ys" zs] list_emb_prefix [of "(=)" xs xs ys] by simp

lemma subseq_snoc: "subseq xs ys \<Longrightarrow> subseq (xs @ [x]) (ys @ [x])"
  by (rule list_emb_append_mono) simp_all

lemma world_step_fifo: "world_step w w' \<Longrightarrow> fifo w \<Longrightarrow> fifo w'"
proof (induction rule: world_step.induct)
  case (ws_poster i w w')
  then show ?case
    using subseq_snoc [of "executed w @ taken (lpc w) @ pend w" "pushed w"]
    by (cases "ppc w i") (auto simp: poster_step_def fifo_def split: if_splits)
next
  case (ws_loop w w')
  note snoc = subseq_snoc [of "executed w @ taken (lpc w) @ pend w" "pushed w"]
  show ?case
  proof (cases "lpc w")
    case (LRun ts)
    then show ?thesis using ws_loop by (cases ts) (auto simp: loop_thread_step_def fifo_def)
  qed (use ws_loop snoc in \<open>auto simp: loop_thread_step_def fifo_def split: if_splits\<close>)
next
  case (ws_quitter w w')
  then show ?case
    using subseq_drop_end [of "executed w @ taken (lpc w)" "pend w" "pushed w"]
    by (cases "qpc w") (auto simp: quit_step_def fifo_def split: if_splits)
qed (auto simp: fifo_def)

interpretation wakeups: step_invariant world_step world_new no_lost_wakeup
  by unfold_locales (simp add: no_lost_wakeup_def world_new_def, rule world_step_wakeup)

interpretation order: step_invariant world_step world_new fifo
  by unfold_locales (simp add: fifo_def world_new_def, rule world_step_fifo)

section \<open>Schedules\<close>

text \<open>An interleaving as a list of the actors that move, to evaluate concrete histories.\<close>

datatype action = Post nat nat | PosterMoves nat | LoopMoves | TaskPosts nat | CallQuit | QuitterMoves

fun act :: "action \<Rightarrow> world \<Rightarrow> world option" where
  "act (Post i t) w = (if ppc w i = PIdle then Some (w\<lparr>ppc := (ppc w)(i := PCheck t)\<rparr>) else None)"
| "act (PosterMoves i) w = poster_step i w"
| "act LoopMoves w = loop_thread_step w"
| "act (TaskPosts t) w = (case lpc w of LRun ts \<Rightarrow> Some (w\<lparr>lpc := LPostCheck t ts\<rparr>) | _ \<Rightarrow> None)"
| "act CallQuit w = (if qpc w = QIdle then Some (w\<lparr>qpc := QLock\<rparr>) else None)"
| "act QuitterMoves w = quit_step w"

abbreviation acts :: "action list \<Rightarrow> world \<Rightarrow> world option" where
  "acts \<equiv> run_acts act"

lemma act_step: "act a w = Some w' \<Longrightarrow> world_step w w'"
  by (cases a) (auto intro: world_step.intros split: if_splits loop_pc.splits)

interpretation interleaving: schedule world_step act
  by unfold_locales (rule act_step)

definition post_one :: "action list" where
  "post_one = [Post 0 7, PosterMoves 0, PosterMoves 0, PosterMoves 0, PosterMoves 0, PosterMoves 0]"

section \<open>Properties\<close>

text \<open>C11. No wake-up is lost: in every interleaving, while tasks are pending either the wake-up
  event is signalled, or a thread is about to signal it, or the loop's thread has yet to take the
  tasks; so when all posters are done and the loop waits, it is woken.\<close>

theorem wakeups_never_lost:
  assumes "world_step\<^sup>*\<^sup>* world_new w"
  shows "no_lost_wakeup w \<and>
    (pend w \<noteq> [] \<and> (\<forall>i. ppc w i = PIdle) \<and> lpc w = LIdle \<longrightarrow> wakeup w \<and> loop_thread_step w \<noteq> None)"
  using wakeups.reachable [OF assms]
  by (auto simp: no_lost_wakeup_def about_to_wake_def about_to_swap_def loop_thread_step_def)

theorem wakeups_never_lost_witness:
  "\<exists>w. acts post_one world_new = Some w \<and> wakeup w \<and> pend w = [7]"
proof -
  have "acts post_one world_new \<noteq> None" by code_simp
  then obtain w where w: "acts post_one world_new = Some w" by blast
  have "case acts post_one world_new of None \<Rightarrow> False | Some w \<Rightarrow> pend w = [7] \<and> wakeup w" by code_simp
  with wakeups_never_lost [OF interleaving.run_reachable [OF w]] w show ?thesis by simp
qed



text \<open>There is a data race on \<^verbatim>\<open>pending_\<close>: an interleaving reaches a state in which a poster, holding the
  lock, and a task on the loop's thread, without it, are both about to append.\<close>

lemma pending_data_race:
  "\<exists>w. world_step\<^sup>*\<^sup>* world_new w \<and> plock w = Some (Poster 0) \<and> ppc w 0 = PPush 9 \<and> lpc w = LPostPush 8 []"
proof -
  let ?as = "post_one @ [LoopMoves, LoopMoves, LoopMoves, LoopMoves, LoopMoves, LoopMoves, TaskPosts 8, LoopMoves,
    Post 0 9, PosterMoves 0, PosterMoves 0]"
  have r: "case acts ?as world_new of None \<Rightarrow> False
    | Some w \<Rightarrow> plock w = Some (Poster 0) \<and> ppc w 0 = PPush 9 \<and> lpc w = LPostPush 8 []"
    by code_simp
  then obtain w where "acts ?as world_new = Some w" by (auto split: option.splits)
  with r interleaving.run_reachable [of ?as world_new w] show ?thesis by auto
qed

text \<open>\<^verbatim>\<open>Quit\<close> can leave a task behind: a poster that saw the loop running may append after \<^verbatim>\<open>Quit\<close> emptied the
  queue and before it cleared the flag; \<^verbatim>\<open>Quit\<close> then returns with a task in the queue of a stopped loop.\<close>

lemma quit_leaves_task:
  "\<exists>w. world_step\<^sup>*\<^sup>* world_new w \<and> qpc w = QDone \<and> \<not> run_flag w \<and> pend w = [7] \<and> (\<forall>i. ppc w i = PIdle)"
proof -
  let ?as = "[Post 0 7, PosterMoves 0, CallQuit, QuitterMoves, QuitterMoves, QuitterMoves,
    PosterMoves 0, PosterMoves 0, PosterMoves 0, PosterMoves 0, QuitterMoves]"
  have "acts ?as world_new = Some (world_new\<lparr>pend := [7], wakeup := True, run_flag := False, ppc := (\<lambda>i. PIdle),
      qpc := QDone, pushed := [7]\<rparr>)"
    by (simp add: poster_step_def quit_step_def push_back_def world_new_def fun_upd_idem)
  from interleaving.run_reachable [OF this] show ?thesis by (intro exI conjI) (assumption, simp_all)
qed

end
