(* ===== verification/LoopRefinement.thy ===== *)
theory LoopRefinement
  imports LoopThreads LoopIntegration
begin

text \<open>
  The two views of the loop's queue fit together: \<open>LoopThreads\<close> cuts the operations of \<^verbatim>\<open>src/event_loop.cc\<close> into steps that
  interleave, \<open>EventLoopBase\<close> and \<open>EventLoopWin\<close> have them whole.  Here every
  history of whole operations is shown to be one of the interleavings, with the same outcome.
\<close>

section \<open>Whole operations\<close>

text \<open>Tasks are numbers, and running one appends it to the log that extends the record.\<close>

type_synonym 'd logged_loop = "(nat, 'd, nat, nat list) EventLoopWin_scheme"

definition log_task :: "nat \<Rightarrow> 'd logged_loop \<Rightarrow> 'd logged_loop" where
  "log_task t s = EventLoopWin.more_update (\<lambda>log. log @ [t]) s"

text \<open>A thread that is not the loop's posts a task, the loop's thread serves its wake-up event, or a thread quits the loop.\<close>

datatype operation = PostFrom nat nat | ServeWakeUp | QuitLoop

fun whole :: "'a win_api_scheme \<Rightarrow> ('d, 'b) absl_duration_scheme \<Rightarrow> u32 \<Rightarrow> operation \<Rightarrow> 'd logged_loop \<Rightarrow> 'd logged_loop" where
  "whole W A self (PostFrom i t) s = PostTask self WakeUp (UserTask t) s"
| "whole W A self ServeWakeUp s = (if wakeup_ev_m s then ProcessPendingTasks W A log_task s else s)"
| "whole W A self QuitLoop s = Quit s"

text \<open>The steps that make up an operation.\<close>

fun steps_of :: "operation \<Rightarrow> world \<Rightarrow> action list" where
  "steps_of (PostFrom i t) w = Post i t # replicate (if run_flag w then 5 else 1) (PosterMoves i)"
| "steps_of ServeWakeUp w = (if wakeup w then replicate (length (pend w) + 6) LoopMoves else [])"
| "steps_of QuitLoop w = (if qpc w = QIdle then CallQuit # replicate 4 QuitterMoves else [])"

definition agrees :: "world \<Rightarrow> 'd logged_loop \<Rightarrow> bool" where
  "agrees w s \<longleftrightarrow> pending_m s = map UserTask (pend w) \<and> wakeup_ev_m s = wakeup w \<and> running_m s = run_flag w \<and>
     EventLoopWin.more s = executed w"

text \<open>Between operations no thread is inside one.\<close>

definition at_rest :: "world \<Rightarrow> bool" where
  "at_rest w \<longleftrightarrow> plock w = None \<and> (\<forall>i. ppc w i = PIdle) \<and> lpc w = LIdle \<and>
     (qpc w = QIdle \<or> qpc w = QDone \<and> \<not> run_flag w \<and> pend w = [])"

section \<open>Lemmas\<close>

lemma run_acts_append: "run_acts f (as @ bs) s = Option.bind (run_acts f as s) (run_acts f bs)"
  by (induction as arbitrary: s) (auto split: Option.bind_split)

lemma run_LRun:
  "lpc w = LRun ts \<Longrightarrow> acts (replicate (Suc (length ts)) LoopMoves) w = Some (w\<lparr>executed := executed w @ ts, lpc := LIdle\<rparr>)"
  by (induction ts arbitrary: w) (simp_all add: loop_thread_step_def)

lemma serve_steps:
  assumes "lpc w = LIdle" "wakeup w" "plock w = None"
  shows "acts (replicate (length (pend w) + 6) LoopMoves) w =
    Some (w\<lparr>wakeup := False, pend := [], executed := executed w @ pend w\<rparr>)"
proof -
  let ?w = "w\<lparr>wakeup := False, pend := [], plock := None, lpc := LRun (pend w)\<rparr>"
  have "acts (replicate 5 LoopMoves) w = Some ?w"
    using assms by (simp add: loop_thread_step_def numeral_eq_Suc)
  moreover have "replicate (length (pend w) + 6) LoopMoves =
      replicate 5 LoopMoves @ replicate (Suc (length (pend w))) LoopMoves"
    by (simp add: replicate_add [symmetric] del: replicate.simps)
  moreover have "acts (replicate (Suc (length (pend w))) LoopMoves) ?w =
      Some (?w\<lparr>executed := executed w @ pend w, lpc := LIdle\<rparr>)"
    using run_LRun [of ?w "pend w"] by (simp del: replicate.simps)
  ultimately show ?thesis
    using assms by (simp add: run_acts_append del: replicate.simps)
qed

lemma serve_whole:
  "fold (\<lambda>c l. destroy c (run_closure W A log_task c l)) (map UserTask ts) s =
     EventLoopWin.more_update (\<lambda>log. log @ ts) s"
  by (induction ts arbitrary: s) (simp_all add: run_closure_def destroy_def log_task_def comp_def)

lemma destroy_tasks: "fold destroy (map UserTask ts) s = s"
  by (induction ts) (simp_all add: destroy_def)

lemma operation_refines:
  assumes "at_rest w" "agrees w s" "thread_id_m s \<noteq> self"
  shows "\<exists>w'. acts (steps_of c w) w = Some w' \<and> at_rest w' \<and> agrees w' (whole W A self c s) \<and>
    thread_id_m (whole W A self c s) = thread_id_m s"
proof (cases c)
  case (PostFrom i t)
  with assms show ?thesis
    by (auto simp: at_rest_def agrees_def poster_step_def push_back_def numeral_eq_Suc PostTask_def PostTaskImpl_def
        IsQuitting_def IsCurrent_def WakeUp_def destroy_def)
next
  case ServeWakeUp
  show ?thesis
  proof (cases "wakeup w")
    case True
    with assms ServeWakeUp show ?thesis
      using serve_steps [of w]
      by (simp add: at_rest_def agrees_def ProcessPendingTasks_def RunPendingTasks_def serve_whole) fastforce
  qed (use assms ServeWakeUp in \<open>simp add: agrees_def\<close>)
next
  case QuitLoop
  with assms show ?thesis
    by (auto simp: at_rest_def agrees_def quit_step_def numeral_eq_Suc Quit_def destroy_tasks)
qed

section \<open>Properties\<close>

text \<open>C12. The interleaved model refines the whole operations: from a state at rest, any history of posts from other threads,
  served wake-ups and quits corresponds to the interleaving that runs the steps of each operation without
  interruption; it is never blocked, and at its end queue, wake-up event, running flag and the log of executed
  tasks are those that the whole operations give.\<close>

theorem histories_are_interleavings:
  assumes "at_rest w" and "agrees w s" and "thread_id_m s \<noteq> self"
  shows "\<exists>w'. world_step\<^sup>*\<^sup>* w w' \<and> at_rest w' \<and> agrees w' (fold (whole W A self) cs s)"
  using assms
proof (induction cs arbitrary: w s)
  case (Cons c cs)
  obtain w1 where w1: "acts (steps_of c w) w = Some w1" "at_rest w1" "agrees w1 (whole W A self c s)"
      "thread_id_m (whole W A self c s) = thread_id_m s"
    using operation_refines [OF Cons.prems] by blast
  from Cons.IH [OF w1(2,3)] w1(4) Cons.prems(3)
  obtain w2 where "world_step\<^sup>*\<^sup>* w1 w2" "at_rest w2" "agrees w2 (fold (whole W A self) cs (whole W A self c s))"
    by auto
  moreover have "world_step\<^sup>*\<^sup>* w w1" by (rule interleaving.run_reachable [OF w1(1)])
  ultimately show ?case by (auto intro: rtranclp_trans)
qed auto

theorem histories_are_interleavings_witness:
  "\<exists>w. world_step\<^sup>*\<^sup>* world_new w \<and> at_rest w \<and> executed w = [7, 8] \<and> pend w = [] \<and> \<not> run_flag w"
proof -
  let ?cs = "[PostFrom 0 7, PostFrom 1 8, ServeWakeUp, PostFrom 0 9, QuitLoop, PostFrom 1 10]"
  let ?s = "logging_loop :: micros logged_loop"
  have "at_rest world_new" "agrees world_new ?s" "thread_id_m ?s \<noteq> 2"
    by (simp_all add: at_rest_def agrees_def world_new_def logging_loop_def idle_loop_eq EventLoopWin.extend_def)
  from histories_are_interleavings [OF this, of windows_headers micros_duration ?cs]
  show ?thesis
    by (auto simp: agrees_def logging_loop_def idle_loop_eq EventLoopWin.extend_def PostTask_def PostTaskImpl_def
        IsQuitting_def WakeUp_def ProcessPendingTasks_def RunPendingTasks_def run_closure_def log_task_def destroy_def
        Quit_def)
qed

end
