(* ===== verification/TestProgram.thy ===== *)
theory TestProgram
  imports LoopIntegration
begin

text \<open>
  \<^verbatim>\<open>src/test_base.cc\<close>: the program that comes with the library, on Windows: a task that posts itself again with a delay of 16
  milliseconds and prints the time since it last ran.  It is the whole program as a client of the loop: the
  main thread, which starts the task, and the loop's thread.

  The members of \<^verbatim>\<open>Test\<close> extend the loop's record; \<open>printed\<close> are the intervals printed.  The start-up of Winsock, the
  logging and the sleeping of the main thread are left out.
\<close>

section \<open>The program\<close>

datatype test_task = StartTask | PeriodicTask

record test_data =
  init_m :: bool
  start_m :: bool
  last_time_m :: int
  printed :: "int list"

type_synonym 'd test_state = "(test_task, 'd, unit, test_data) EventLoopWin_scheme"

definition Test_new :: "(test_task, 'd, unit) EventLoopWin \<Rightarrow> 'd test_state" where
  "Test_new event_loop =
     EventLoopWin.extend event_loop \<lparr>init_m = False, start_m = False, last_time_m = - 1, printed = []\<rparr>"

definition note_time :: "int \<Rightarrow> test_data \<Rightarrow> test_data" where
  "note_time nowMs t =
     (if last_time_m t \<noteq> - 1 then t\<lparr>printed := printed t @ [nowMs - last_time_m t]\<rparr> else t)\<lparr>last_time_m := nowMs\<rparr>"

text \<open>\<^verbatim>\<open>absl::Milliseconds(16)\<close> is \<^verbatim>\<open>absl::Microseconds(16000)\<close>.\<close>

definition TestPostDelay ::
  "'a win_api_scheme \<Rightarrow> ('d, 'b) absl_duration_scheme \<Rightarrow> u32 \<Rightarrow> 'd test_state \<Rightarrow> 'd test_state" where
  "TestPostDelay W A self s =
     (let nowMs = TimeMillis (steady_clock W (env_calls s));
          s = EventLoopWin.more_update (note_time nowMs) (count_call s)
      in PostDelayedTask A (steady_clock W) self WakeUp (PostDelayedTaskOnTaskQueue W A) PeriodicTask
           (Microseconds A 16000) s)"

fun run_task ::
  "'a win_api_scheme \<Rightarrow> ('d, 'b) absl_duration_scheme \<Rightarrow> u32 \<Rightarrow> test_task \<Rightarrow> 'd test_state \<Rightarrow> 'd test_state" where
  "run_task W A self StartTask s = TestPostDelay W A self s"
| "run_task W A self PeriodicTask s = TestPostDelay W A self s"

text \<open>The bodies of the loops of \<^verbatim>\<open>Run\<close> and \<^verbatim>\<open>RunLoop\<close>, and what precedes the latter.\<close>

definition Run_body :: "u32 \<Rightarrow> 'd test_state \<Rightarrow> 'd test_state" where
  "Run_body self s =
     (if init_m (EventLoopWin.more s) \<and> \<not> start_m (EventLoopWin.more s)
      then PostTask self WakeUp (UserTask StartTask) (EventLoopWin.more_update (\<lambda>t. t\<lparr>start_m := True\<rparr>) s)
      else s)"

definition RunLoop_start :: "u32 \<Rightarrow> 'd test_state \<Rightarrow> 'd test_state" where
  "RunLoop_start self s = EventLoopWin.more_update (\<lambda>t. t\<lparr>init_m := True\<rparr>) (Begin self s)"

definition RunLoop_body ::
  "'a win_api_scheme \<Rightarrow> ('d, 'b) absl_duration_scheme \<Rightarrow> u32 \<Rightarrow> 'd test_state \<Rightarrow> 'd test_state option" where
  "RunLoop_body W A self s =
     RunEventLoopOnce W A (run_task W A self) (\<lambda>l fd evs s. s) (InfiniteDuration A) s"

text \<open>The histories of the program: the two threads take turns in any order, and the timer signals its event.\<close>

inductive test_run ::
  "'a win_api_scheme \<Rightarrow> ('d, 'b) absl_duration_scheme \<Rightarrow> u32 \<Rightarrow> u32 \<Rightarrow> 'd test_state \<Rightarrow> 'd test_state \<Rightarrow> bool"
  for W A loop_thread main_thread s where
  tr_start: "test_run W A loop_thread main_thread s s"
| tr_main: "test_run W A loop_thread main_thread s t \<Longrightarrow> test_run W A loop_thread main_thread s (Run_body main_thread t)"
| tr_loop: "test_run W A loop_thread main_thread s t \<Longrightarrow> RunLoop_body W A loop_thread t = Some t'
     \<Longrightarrow> test_run W A loop_thread main_thread s t'"
| tr_timer: "test_run W A loop_thread main_thread s t \<Longrightarrow> mm_timer_id_m (timer_m t) \<noteq> 0
     \<Longrightarrow> test_run W A loop_thread main_thread s (t\<lparr>timer_m := (timer_m t)\<lparr>event_m := True\<rparr>\<rparr>)"

section \<open>The invariant\<close>

definition clock_nonneg :: "'a win_api_scheme \<Rightarrow> bool" where
  "clock_nonneg W \<longleftrightarrow> (\<forall>n. 0 \<le> steady_clock W n)"

text \<open>The periodic task is in the timer queue, due 16 milliseconds after the time it noted.\<close>

definition ticking :: "'d test_state \<Rightarrow> bool" where
  "ticking s \<longleftrightarrow> pending_m s = [] \<and> last_time_m (EventLoopWin.more s) \<noteq> - 1 \<and>
     (\<exists>x. timer_tasks_m s = [x] \<and> task_m x = PeriodicTask \<and>
          (last_time_m (EventLoopWin.more s) + 16) * 1000 \<le> due_time_micros_m x)"

definition not_ticking :: "'d test_state \<Rightarrow> bool" where
  "not_ticking s \<longleftrightarrow> timer_tasks_m s = [] \<and> last_time_m (EventLoopWin.more s) = - 1 \<and>
     (if start_m (EventLoopWin.more s) then pending_m s = [UserTask StartTask] \<and> wakeup_ev_m s else pending_m s = [])"

definition frame_ok :: "u32 \<Rightarrow> 'd test_state \<Rightarrow> bool" where
  "frame_ok loop_thread s \<longleftrightarrow> running_m s \<and> thread_id_m s = loop_thread \<and> \<not> socket_ev_m s \<and>
     \<not> has_artificial_events_pending_m s \<and> (\<forall>i \<in> set (printed (EventLoopWin.more s)). 16 \<le> i)"

definition test_inv :: "u32 \<Rightarrow> 'd test_state \<Rightarrow> bool" where
  "test_inv loop_thread s \<longleftrightarrow> frame_ok loop_thread s \<and> timers_ok s \<and>
     (ticking s \<and> start_m (EventLoopWin.more s) \<or> not_ticking s)"

lemma note_time_fields [simp]:
  "last_time_m (note_time ms t) = ms" "start_m (note_time ms t) = start_m t"
  "printed (note_time ms t) = (if last_time_m t \<noteq> - 1 then printed t @ [ms - last_time_m t] else printed t)"
  by (simp_all add: note_time_def)

lemma TimeMillis_micros: "TimeMillis (steady_clock W n) = micros_at W n sdiv 1000"
  by (simp add: micros_at_def time_defs sdiv_sdiv)

lemma micros_nonneg: "clock_nonneg W \<Longrightarrow> 0 \<le> micros_at W n"
  by (simp add: clock_nonneg_def micros_at_def time_defs pos_imp_zdiv_nonneg_iff)

lemma PostDelayed_keeps' [simp]:
  "running_m (PostDelayedTaskOnTaskQueue W A u st d s) = running_m s"
  "thread_id_m (PostDelayedTaskOnTaskQueue W A u st d s) = thread_id_m s"
  "socket_ev_m (PostDelayedTaskOnTaskQueue W A u st d s) = socket_ev_m s"
  "has_artificial_events_pending_m (PostDelayedTaskOnTaskQueue W A u st d s) = has_artificial_events_pending_m s"
  by (auto simp: PostDelayed_eq Let_def CancelTimers_def ScheduleNextTimer_def StartOneShotTimer_def
      dcheck_def count_call_def read_micros_eq)

lemma ScheduleNextTimer_keeps [simp]:
  "running_m (ScheduleNextTimer W A s) = running_m s" "thread_id_m (ScheduleNextTimer W A s) = thread_id_m s"
  "socket_ev_m (ScheduleNextTimer W A s) = socket_ev_m s" "pending_m (ScheduleNextTimer W A s) = pending_m s"
  "has_artificial_events_pending_m (ScheduleNextTimer W A s) = has_artificial_events_pending_m s"
  by (auto simp: ScheduleNextTimer_def StartOneShotTimer_def dcheck_def count_call_def read_micros_eq Let_def)

text \<open>The state in which the periodic task posts itself.\<close>

definition noted :: "'a win_api_scheme \<Rightarrow> 'd test_state \<Rightarrow> 'd test_state" where
  "noted W s = (EventLoopWin.more_update (note_time (micros_at W (env_calls s) sdiv 1000)) s)\<lparr>env_calls := env_calls s + 2\<rparr>"

lemma TestPostDelay_eq:
  assumes "absl_duration_ok A" and "running_m s" and "thread_id_m s = self"
  shows "TestPostDelay W A self s = PostDelayedTaskOnTaskQueue W A PeriodicTask (micros_at W (env_calls s + 1))
    (Microseconds A 16000) (noted W s)"
  using assms absl_duration_okD(4) [OF assms(1), of 16000 0]
  by (simp add: TestPostDelay_def PostDelayedTask_def PostDelayedTaskImpl_def loop_defs read_micros_eq count_call_def
      TimeMillis_micros noted_def absl_duration_okD(5))

lemma TestPostDelay_spec:
  assumes A: "absl_duration_ok A" and mono: "clock_mono W" and pos: "clock_nonneg W" and s: "frame_ok self s"
    and late: "last_time_m (EventLoopWin.more s) \<noteq> - 1 \<Longrightarrow>
      (last_time_m (EventLoopWin.more s) + 16) * 1000 \<le> micros_at W (env_calls s)"
  defines "t \<equiv> TestPostDelay W A self s"
  obtains x where "timer_tasks_m t = pq_push x (timer_tasks_m s)" and "task_m x = PeriodicTask"
    and "(last_time_m (EventLoopWin.more t) + 16) * 1000 \<le> due_time_micros_m x"
    and "micros_at W (env_calls s) < due_time_micros_m x" and "last_time_m (EventLoopWin.more t) \<noteq> - 1"
    and "frame_ok self t" and "pending_m t = pending_m s"
    and "start_m (EventLoopWin.more t) = start_m (EventLoopWin.more s)"
proof -
  let ?n = "env_calls s"
  let ?x = "posted_info W A (?n + 2) PeriodicTask (micros_at W (?n + 1)) (Microseconds A 16000)"
  have t: "t = PostDelayedTaskOnTaskQueue W A PeriodicTask (micros_at W (?n + 1)) (Microseconds A 16000) (noted W s)"
    using s unfolding t_def frame_ok_def by (intro TestPostDelay_eq [OF A]) simp_all
  have "micros_at W (?n + 1) + 16000 \<le> due_time_micros_m ?x"
    using posted_info_due [OF A mono micros_at_mono [OF mono, of "?n + 1" "?n + 2"], of "Microseconds A 16000"]
    by (simp add: absl_duration_okD(1) [OF A])
  moreover have "micros_at W ?n \<le> micros_at W (?n + 1)" by (rule micros_at_mono [OF mono]) simp
  moreover have ms: "micros_at W ?n sdiv 1000 = micros_at W ?n div 1000" "0 \<le> micros_at W ?n"
    using micros_nonneg [OF pos, of ?n] by simp_all
  moreover have "16 \<le> micros_at W ?n div 1000 - last_time_m (EventLoopWin.more s)"
    if "last_time_m (EventLoopWin.more s) \<noteq> - 1"
    using zdiv_mono1 [OF late [OF that], of 1000] by simp
  ultimately show thesis
    using s by (intro that [of ?x])
      (auto simp: t noted_def posted_info_def DelayedTaskInfo_new_def frame_ok_def)
qed

lemma TestPostDelay_timers_ok:
  assumes "absl_duration_ok A" "frame_ok self s" "\<And>n ms. SetTimer W n ms \<noteq> 0" "timers_ok s"
  shows "timers_ok (TestPostDelay W A self s)"
proof -
  have "timers_ok (noted W s)" using assms(4) by (simp add: noted_def timers_ok_def)
  then show ?thesis
    using assms(1,2) PostDelayed_ok [OF _ assms(3)] by (simp add: TestPostDelay_eq frame_ok_def)
qed

lemma TestPostDelay_draining:
  assumes A: "absl_duration_ok A" and mono: "clock_mono W" and s: "frame_ok self s"
    and d: "draining s" "timer_tasks_m s = [x]" and due: "due_time_micros_m x \<le> micros_at W (env_calls s)"
  shows "draining (TestPostDelay W A self s)"
proof -
  let ?n = "env_calls s"
  let ?x = "posted_info W A (?n + 2) PeriodicTask (micros_at W (?n + 1)) (Microseconds A 16000)"
  have "micros_at W (?n + 1) + 16000 \<le> due_time_micros_m ?x"
    using posted_info_due [OF A mono micros_at_mono [OF mono, of "?n + 1" "?n + 2"], of "Microseconds A 16000"]
    by (simp add: absl_duration_okD(1) [OF A])
  moreover have "micros_at W ?n \<le> micros_at W (?n + 1)" by (rule micros_at_mono [OF mono]) simp
  ultimately have "\<not> due_time_micros_m ?x < due_time_micros_m x" using due by simp
  then show ?thesis
    using A s d by (simp add: TestPostDelay_eq frame_ok_def PostDelayed_eq noted_def draining_def pq_top_def pq_wf_push
        del: pq_push.simps)
qed

text \<open>A turn of the timer: the periodic task is not due yet, or it runs once, posts itself again and is popped.\<close>

lemma timer_turn:
  fixes s :: "'d test_state" and A :: "('d, 'b) absl_duration_scheme"
  assumes A: "absl_duration_ok A" and mono: "clock_mono W" and pos: "clock_nonneg W"
    and set_timer: "\<And>n ms. SetTimer W n ms \<noteq> 0" and inv: "test_inv self s" and "ticking s"
    and event: "event_m (timer_m s)"
  shows "\<exists>t. ProcessTimerTasksUpTo W A (run_task W A self) now (s\<lparr>env_calls := k\<rparr>) = Some t \<and> test_inv self t"
proof -
  let ?exec = "run_task W A self" and ?s = "s\<lparr>timer_m := Cancel (timer_m s), env_calls := Suc k\<rparr>"
  obtain x where x: "timer_tasks_m s = [x]" "task_m x = PeriodicTask"
      "(last_time_m (EventLoopWin.more s) + 16) * 1000 \<le> due_time_micros_m x"
    and start: "start_m (EventLoopWin.more s)" and rest: "pending_m s = []" "last_time_m (EventLoopWin.more s) \<noteq> - 1"
    using inv \<open>ticking s\<close> by (auto simp: test_inv_def ticking_def not_ticking_def)
  have s: "draining ?s" "frame_ok self ?s"
    using inv event by (auto simp: test_inv_def timers_ok_def draining_def frame_ok_def)
  have step: "ProcessTimerTasksUpTo W A ?exec now (s\<lparr>env_calls := k\<rparr>) =
      map_option (ScheduleNextTimer W A) (run_due ?exec (micros_at W k) ?s)"
    using x(1) by (simp add: ProcessTimerTasksUpTo_def RunDueTasks_eq)
  have finish: "test_inv self (ScheduleNextTimer W A t)"
    if "draining t" "frame_ok self t" "ticking t" "start_m (EventLoopWin.more t)" for t :: "'d test_state"
    using that ScheduleNextTimer_ok [OF that(1) set_timer]
    by (simp add: test_inv_def frame_ok_def ticking_def)
  show ?thesis
  proof (cases "micros_at W k < due_time_micros_m x")
    case True
    then have "run_due ?exec (micros_at W k) ?s = Some ?s"
      using x(1) by (subst run_due.simps) (simp add: pq_top_def)
    moreover have "ticking ?s" using \<open>ticking s\<close> by (simp add: ticking_def)
    ultimately show ?thesis using step finish [of ?s] s start by simp
  next
    case False
    let ?t = "TestPostDelay W A self ?s"
    have now: "due_time_micros_m x \<le> micros_at W (env_calls ?s)"
      using False micros_at_mono [OF mono, of k "Suc k"] by simp
    obtain y where y: "timer_tasks_m ?t = pq_push y [x]" "task_m y = PeriodicTask"
        "(last_time_m (EventLoopWin.more ?t) + 16) * 1000 \<le> due_time_micros_m y"
        "micros_at W (Suc k) < due_time_micros_m y" "last_time_m (EventLoopWin.more ?t) \<noteq> - 1"
        "frame_ok self ?t" "pending_m ?t = []" "start_m (EventLoopWin.more ?t)"
      using TestPostDelay_spec [OF A mono pos s(2)] x(1,3) now rest start by (auto simp del: pq_push.simps)
    let ?u = "?t\<lparr>timer_tasks_m := [y]\<rparr>"
    have q: "pq_pop (timer_tasks_m ?t) = [y]"
      using y(1,4) now by (simp add: pq_pop_def later_than_def)
    have "micros_at W k < due_time_micros_m y" using y(4) micros_at_mono [OF mono, of k "Suc k"] by simp
    then have "run_due ?exec (micros_at W k) ?u = Some ?u"
      by (subst run_due.simps) (simp add: pq_top_def)
    then have "run_due ?exec (micros_at W k) ?s = Some ?u"
      using False x q by (subst run_due.simps) (simp add: pq_top_def Let_def)
    moreover have "draining ?t" by (rule TestPostDelay_draining [OF A mono s(2) s(1) _ now]) (simp add: x(1))
    then have "draining ?u" by (simp add: draining_def pq_wf_def)
    moreover have "frame_ok self ?u" "ticking ?u" "start_m (EventLoopWin.more ?u)"
      using y by (simp_all add: frame_ok_def ticking_def)
    ultimately show ?thesis using step finish [of ?u] by simp
  qed
qed

text \<open>A turn of the pending tasks: at most the first run of the task, which the main thread posted.\<close>

lemma pending_turn:
  assumes A: "absl_duration_ok A" and mono: "clock_mono W" and pos: "clock_nonneg W"
    and set_timer: "\<And>n ms. SetTimer W n ms \<noteq> 0" and inv: "test_inv self s"
  shows "test_inv self (ProcessPendingTasks W A (run_task W A self) s)"
proof (cases "pending_m s = []")
  case True
  have "timers_ok (s\<lparr>wakeup_ev_m := False\<rparr>)" using inv by (simp add: test_inv_def timers_ok_fields)
  with True inv show ?thesis
    by (auto simp: ProcessPendingTasks_def RunPendingTasks_def test_inv_def frame_ok_def ticking_def not_ticking_def
        split: if_splits)
next
  case False
  let ?s = "s\<lparr>wakeup_ev_m := False, pending_m := []\<rparr>"
  have p: "pending_m s = [UserTask StartTask]" "timer_tasks_m s = []" "last_time_m (EventLoopWin.more s) = - 1"
      "start_m (EventLoopWin.more s)"
    using inv False by (auto simp: test_inv_def ticking_def not_ticking_def split: if_splits)
  have s: "frame_ok self ?s" "timers_ok ?s" using inv by (simp_all add: test_inv_def frame_ok_def timers_ok_fields)
  let ?t = "TestPostDelay W A self ?s"
  have "ticking ?t \<and> start_m (EventLoopWin.more ?t) \<and> frame_ok self ?t"
    by (rule TestPostDelay_spec [OF A mono pos s(1)]) (simp_all add: p ticking_def)
  moreover have "timers_ok ?t" by (rule TestPostDelay_timers_ok [OF A s(1) set_timer s(2)])
  ultimately show ?thesis
    using p(1) by (simp add: ProcessPendingTasks_def RunPendingTasks_def run_closure_def destroy_def test_inv_def)
qed

lemma loop_turn:
  fixes s :: "'d test_state" and A :: "('d, 'b) absl_duration_scheme"
  assumes A: "absl_duration_ok A" and mono: "clock_mono W" and pos: "clock_nonneg W" and wait: "wait_ok W"
    and set_timer: "\<And>n ms. SetTimer W n ms \<noteq> 0" and inv: "test_inv self s"
  shows "\<exists>t. RunLoop_body W A self s = Some t \<and> test_inv self t"
proof -
  have calls: "test_inv self (s\<lparr>env_calls := k\<rparr>)" for k
    using inv by (auto simp: test_inv_def frame_ok_def ticking_def not_ticking_def timers_ok_fields split: if_splits)
  show ?thesis
    unfolding RunLoop_body_def
  proof (rule RunEventLoopOnce_cases [OF wait refl, of A "run_task W A self" "\<lambda>l fd evs s. s" "InfiniteDuration A" s],
      goal_cases)
    case 1
    with calls show ?case by (simp add: count_call_def)
  next
    case 2
    with pending_turn [OF A mono pos set_timer calls] show ?case by (simp add: count_call_def)
  next
    case 3
    show ?case
    proof (cases "ticking s")
      case True
      with 3 timer_turn [OF A mono pos set_timer inv] show ?thesis by metis
    next
      case False
      then have "timer_tasks_m s = []" using inv by (simp add: test_inv_def not_ticking_def)
      with 3 calls show ?thesis by (simp add: ProcessTimerTasksUpTo_def)
    qed
  qed (use inv in \<open>simp_all add: test_inv_def frame_ok_def\<close>)
qed

lemma main_turn: "test_inv self s \<Longrightarrow> test_inv self (Run_body main_thread s)"
  by (auto simp: Run_body_def test_inv_def ticking_def not_ticking_def frame_ok_def PostTask_def PostTaskImpl_def
      IsQuitting_def WakeUp_def timers_ok_def)

lemma test_inv_run:
  assumes "absl_duration_ok A" "clock_mono W" "clock_nonneg W" "wait_ok W" "\<And>n ms. SetTimer W n ms \<noteq> 0"
    and run: "test_run W A loop_thread main_thread s t" and "test_inv loop_thread s"
  shows "test_inv loop_thread t"
  using run assms(7)
proof induction
  case (tr_loop t t')
  with loop_turn [OF assms(1-5), of loop_thread t] show ?case by auto
next
  case (tr_timer t)
  then show ?case by (auto simp: test_inv_def frame_ok_def ticking_def not_ticking_def timers_ok_def)
qed (auto intro: main_turn)

section \<open>Properties\<close>

text \<open>C24. The periodic task works: in every history of the program, however its threads and the timer are scheduled and
  however late the system is, every interval it prints is at least the 16 milliseconds asked for; once it has
  run, it is in the timer queue exactly once, with a timer armed, so that it never dies out and never doubles;
  the loop's iterations return and no debug check fails.\<close>

theorem periodic_task_ticks:
  assumes A: "absl_duration_ok A" and "clock_mono W" and "clock_nonneg W" and "wait_ok W"
    and "\<And>n ms. SetTimer W n ms \<noteq> 0" and new: "EventLoopWin_new True True True = Inr event_loop"
    and run: "test_run W A loop_thread main_thread (RunLoop_start loop_thread (Test_new event_loop)) t"
  shows "(\<forall>i \<in> set (printed (EventLoopWin.more t)). 16 \<le> i) \<and>
    (last_time_m (EventLoopWin.more t) \<noteq> - 1 \<longrightarrow>
       map task_m (timer_tasks_m t) = [PeriodicTask] \<and> (mm_timer_id_m (timer_m t) \<noteq> 0 \<or> timer_id_m t \<noteq> 0)) \<and>
    RunLoop_body W A loop_thread t \<noteq> None \<and> \<not> dcheck_failed t"
proof -
  have "test_inv loop_thread (RunLoop_start loop_thread (Test_new event_loop))"
    using new by (auto simp: EventLoopWin_new_def MultimediaTimer_new_def RunLoop_start_def Test_new_def loop_defs
        EventLoop_new_def EventLoop.extend_def EventLoopWin.fields_def EventLoopWin.extend_def test_inv_def frame_ok_def
        not_ticking_def timers_ok_def)
  then have inv: "test_inv loop_thread t" by (rule test_inv_run [OF assms(1-5) run])
  then obtain u where "RunLoop_body W A loop_thread t = Some u"
    using loop_turn [OF assms(1-5)] by blast
  with inv show ?thesis
    by (auto simp: test_inv_def frame_ok_def ticking_def not_ticking_def timers_ok_def)
qed

definition test_loop :: "(test_task, micros, unit) EventLoopWin" where
  "test_loop = (case EventLoopWin_new True True True of Inr s \<Rightarrow> s)"

theorem periodic_task_ticks_witness:
  "RunLoop_body ready_api micros_duration 1 (Run_body 2 (RunLoop_start 1 (Test_new test_loop))) \<noteq> None"
proof -
  have "clock_mono ready_api" "clock_nonneg ready_api" "\<And>n ms. SetTimer ready_api n ms \<noteq> 0"
    by (simp_all add: clock_mono_def clock_nonneg_def ready_api_def)
  moreover have "wait_ok ready_api" using ready_api_prompt by (simp add: prompt_wait_def)
  moreover have "EventLoopWin_new True True True = Inr test_loop"
    by (simp add: test_loop_def EventLoopWin_new_def MultimediaTimer_new_def)
  ultimately show ?thesis
    using periodic_task_ticks [OF micros_duration_ok _ _ _ _ _ tr_main [OF tr_start], of ready_api test_loop 2 1]
    by simp
qed

end
