(* ===== verification/WaitEvent.thy ===== *)
theory WaitEvent
  imports TimeUtils
begin

text \<open>
  \<^verbatim>\<open>src/event.h\<close> and \<^verbatim>\<open>src/event.cc\<close>: the event a thread waits for.

  The POSIX event is its two members.  \<^verbatim>\<open>Wait\<close> holds the mutex except inside the calls of
  \<^verbatim>\<open>pthread_cond_wait\<close>; what happens there is the argument \<open>cond_wait\<close>: its \<open>n\<close>-th call returns an
  error code and the value \<^verbatim>\<open>event_status_\<close> has when the mutex is held again.  The yield policy
  that \<^verbatim>\<open>Wait\<close> calls first is the argument \<open>yield_execution\<close>, the clock readings are arguments too.
  Since nothing bounds the number of spurious wake-ups, the wait loop is a partial function: \<open>None\<close> is a wait
  that never returns.

  The interleaving of many threads on one event is the step relation \<open>event_step\<close>.
\<close>

section \<open>Data and operations (POSIX)\<close>

record timespec =
  tv_sec :: int
  tv_nsec :: int

record Event =
  is_manual_reset_m :: bool
  event_status_m :: bool

text \<open>The constructor; the arguments say whether each initialisation call succeeded.\<close>

definition Event_new :: "bool \<Rightarrow> bool \<Rightarrow> bool \<Rightarrow> bool \<Rightarrow> bool \<Rightarrow> bool \<Rightarrow> fault + Event" where
  "Event_new mutex_ok attr_ok clock_ok cond_ok manual_reset initially_signaled =
     (if \<not> mutex_ok then Inl CHECK_failed
      else if \<not> attr_ok then Inl CHECK_failed
      else if \<not> clock_ok then Inl CHECK_failed
      else if \<not> cond_ok then Inl CHECK_failed
      else Inr \<lparr>is_manual_reset_m = manual_reset, event_status_m = initially_signaled\<rparr>)"

definition Event_default :: "bool \<Rightarrow> bool \<Rightarrow> bool \<Rightarrow> bool \<Rightarrow> fault + Event" where
  "Event_default mutex_ok attr_ok clock_ok cond_ok =
     Event_new mutex_ok attr_ok clock_ok cond_ok False False"

definition Set :: "Event \<Rightarrow> Event" where
  "Set e = e\<lparr>event_status_m := True\<rparr>"

definition Reset :: "Event \<Rightarrow> Event" where
  "Reset e = e\<lparr>event_status_m := False\<rparr>"

text \<open>\<^verbatim>\<open>GetTimespec\<close>: \<open>ts\<close> is the reading of the clock.\<close>

definition GetTimespec :: "('d, 'z) absl_duration_scheme \<Rightarrow> timespec \<Rightarrow> 'd \<Rightarrow> timespec" where
  "GetTimespec A ts duration_from_now =
     (let microsecs_from_now = ToInt64Microseconds A duration_from_now;
          ts = ts\<lparr>tv_sec := tv_sec ts + microsecs_from_now sdiv kNumMicrosecsPerSec\<rparr>;
          ts = ts\<lparr>tv_nsec := tv_nsec ts +
                 (microsecs_from_now smod kNumMicrosecsPerSec) * kNumNanosecsPerMicrosec\<rparr>
      in if tv_nsec ts \<ge> kNumNanosecsPerSec
         then ts\<lparr>tv_sec := tv_sec ts + 1, tv_nsec := tv_nsec ts - kNumNanosecsPerSec\<rparr>
         else ts)"

text \<open>
  The lambda \<^verbatim>\<open>wait\<close>: \<open>n\<close> counts the calls of the condition variable, \<open>status\<close> and \<open>error\<close> are the
  variables of the loop.
\<close>

partial_function (option) wait_loop ::
  "(nat \<Rightarrow> timespec option \<Rightarrow> int \<times> bool) \<Rightarrow> timespec option \<Rightarrow> nat \<Rightarrow> bool \<Rightarrow> int
     \<Rightarrow> (nat \<times> bool \<times> int) option" where
  "wait_loop cond_wait timeout_ts n status error =
     (if \<not> status \<and> error = 0
      then wait_loop cond_wait timeout_ts (Suc n) (snd (cond_wait n timeout_ts)) (fst (cond_wait n timeout_ts))
      else Some (n, status, error))"

text \<open>
  \<^verbatim>\<open>Wait\<close> with both durations.  The result: what it returns, whether it warned, how often it called
  the condition variable, and the event.
\<close>

definition Wait ::
  "('d, 'z) absl_duration_scheme \<Rightarrow> int \<Rightarrow> (Event \<Rightarrow> Event) \<Rightarrow> (nat \<Rightarrow> timespec option \<Rightarrow> int \<times> bool)
     \<Rightarrow> timespec \<Rightarrow> timespec \<Rightarrow> 'd \<Rightarrow> 'd \<Rightarrow> Event \<Rightarrow> (bool \<times> bool \<times> nat \<times> Event) option" where
  "Wait A ETIMEDOUT yield_execution cond_wait now1 now2 give_up_after warn_after e =
     (let warn_ts = (if dur_le A give_up_after warn_after then None
                     else Some (GetTimespec A now1 warn_after));
          give_up_ts = (if give_up_after = InfiniteDuration A then None
                        else Some (GetTimespec A now2 give_up_after));
          e = yield_execution e;
          outcome =
            (if warn_ts = None
             then map_option (Pair False) (wait_loop cond_wait give_up_ts 0 (event_status_m e) 0)
             else Option.bind (wait_loop cond_wait warn_ts 0 (event_status_m e) 0)
                    (\<lambda>(n, status, error).
                       if error = ETIMEDOUT
                       then map_option (Pair True) (wait_loop cond_wait give_up_ts n status 0)
                       else Some (False, n, status, error)))
      in map_option
           (\<lambda>(warned, n, status, error).
              (error = 0, warned, n,
               e\<lparr>event_status_m := (if error = 0 \<and> \<not> is_manual_reset_m e then False else status)\<rparr>))
           outcome)"

text \<open>\<^verbatim>\<open>Wait\<close> with the default warning time-out; \<open>default_warn\<close> is \<^verbatim>\<open>kDefaultWarnDuration\<close>.\<close>

definition Wait_default ::
  "('d, 'z) absl_duration_scheme \<Rightarrow> int \<Rightarrow> 'd \<Rightarrow> (Event \<Rightarrow> Event) \<Rightarrow> (nat \<Rightarrow> timespec option \<Rightarrow> int \<times> bool)
     \<Rightarrow> timespec \<Rightarrow> timespec \<Rightarrow> 'd \<Rightarrow> Event \<Rightarrow> (bool \<times> bool \<times> nat \<times> Event) option" where
  "Wait_default A ETIMEDOUT default_warn yield_execution cond_wait now1 now2 give_up_after e =
     Wait A ETIMEDOUT yield_execution cond_wait now1 now2 give_up_after
       (if give_up_after = InfiniteDuration A then default_warn else InfiniteDuration A) e"

section \<open>Operations (Windows)\<close>

text \<open>
  The event is a handle of type \<open>'h\<close>, and the calls on it are the system's: the argument \<open>K\<close>, over a state
  \<open>'s\<close> of the system.  The millisecond count that \<^verbatim>\<open>Wait\<close> computes is a \<^verbatim>\<open>DWORD\<close>.
\<close>

record ('h, 's) event_api =
  EVENT_INFINITE :: int
  WAIT_OBJECT_0 :: u32
  CreateEvent :: "bool \<Rightarrow> bool \<Rightarrow> 's \<Rightarrow> 'h option \<times> 's"
  CloseHandle :: "'h \<Rightarrow> 's \<Rightarrow> 's"
  SetEvent :: "'h \<Rightarrow> 's \<Rightarrow> 's"
  ResetEvent :: "'h \<Rightarrow> 's \<Rightarrow> 's"
  WaitForSingleObject :: "'h \<Rightarrow> u32 \<Rightarrow> 's \<Rightarrow> u32 \<times> 's"

definition Event_win_new :: "('h, 's) event_api \<Rightarrow> bool \<Rightarrow> bool \<Rightarrow> 's \<Rightarrow> fault + 'h \<times> 's" where
  "Event_win_new K manual_reset initially_signaled s =
     (case CreateEvent K manual_reset initially_signaled s of
        (None, s) \<Rightarrow> Inl CHECK_failed
      | (Some event_handle, s) \<Rightarrow> Inr (event_handle, s))"

definition Event_win_delete :: "('h, 's) event_api \<Rightarrow> 'h \<Rightarrow> 's \<Rightarrow> 's" where
  "Event_win_delete K event_handle s = CloseHandle K event_handle s"

definition Set_win :: "('h, 's) event_api \<Rightarrow> 'h \<Rightarrow> 's \<Rightarrow> 's" where
  "Set_win K event_handle s = SetEvent K event_handle s"

definition Reset_win :: "('h, 's) event_api \<Rightarrow> 'h \<Rightarrow> 's \<Rightarrow> 's" where
  "Reset_win K event_handle s = ResetEvent K event_handle s"

definition Wait_ms :: "('d, 'z) absl_duration_scheme \<Rightarrow> int \<Rightarrow> 'd \<Rightarrow> u32" where
  "Wait_ms A INFINITE give_up_after =
     to_uint32 (if give_up_after = InfiniteDuration A then INFINITE
                else max 1 (ToInt64Milliseconds A give_up_after))"

definition Wait_win ::
  "('d, 'z) absl_duration_scheme \<Rightarrow> ('h, 's) event_api \<Rightarrow> ('s \<Rightarrow> 's) \<Rightarrow> 'h \<Rightarrow> 'd \<Rightarrow> 's \<Rightarrow> bool \<times> 's" where
  "Wait_win A K yield_execution event_handle give_up_after s =
     (let s = yield_execution s;
          (r, s) = WaitForSingleObject K event_handle (Wait_ms A (EVENT_INFINITE K) give_up_after) s
      in (r = WAIT_OBJECT_0 K, s))"

section \<open>Lemmas on the wait loop\<close>

lemma wait_loop_done: "status \<or> error \<noteq> 0 \<Longrightarrow> wait_loop cw ts n status error = Some (n, status, error)"
  by (subst wait_loop.simps) auto

lemma wait_loop_step:
  "wait_loop cw ts n False 0 = wait_loop cw ts (Suc n) (snd (cw n ts)) (fst (cw n ts))"
  by (subst wait_loop.simps) simp

text \<open>The loop ends at the first call that fails or sees the event signalled, and returns what it saw.\<close>

lemma wait_loop_first:
  assumes quiet: "\<And>i. n \<le> i \<Longrightarrow> i < k \<Longrightarrow> cw i ts = (0, False)" and "n \<le> k" and "cw k ts \<noteq> (0, False)"
  shows "wait_loop cw ts n False 0 = Some (Suc k, snd (cw k ts), fst (cw k ts))"
  using \<open>n \<le> k\<close> quiet
proof (induction "k - n" arbitrary: n)
  case 0
  then have "n = k" by simp
  with assms(3) show ?case
    by (cases "cw k ts") (auto simp: wait_loop_step intro: wait_loop_done)
next
  case (Suc d)
  then have "cw n ts = (0, False)" and lt: "n < k" by simp_all
  then have "wait_loop cw ts n False 0 = wait_loop cw ts (Suc n) False 0" by (simp add: wait_loop_step)
  with Suc lt show ?case by simp
qed

lemma wait_loop_returns:
  assumes "n \<le> k" and "cw k ts \<noteq> (0, False)"
  obtains j where "n \<le> j" "j \<le> k" "cw j ts \<noteq> (0, False)"
    "wait_loop cw ts n False 0 = Some (Suc j, snd (cw j ts), fst (cw j ts))"
proof -
  define j where "j = (LEAST j. n \<le> j \<and> cw j ts \<noteq> (0, False))"
  have ex: "n \<le> j \<and> cw j ts \<noteq> (0, False)"
    unfolding j_def by (rule LeastI [of _ k]) (use assms in simp)
  have "j \<le> k" unfolding j_def by (rule Least_le) (use assms in simp)
  moreover have "cw i ts = (0, False)" if "n \<le> i" "i < j" for i
    using not_less_Least [of i "\<lambda>j. n \<le> j \<and> cw j ts \<noteq> (0, False)"] that unfolding j_def by blast
  ultimately show thesis using that ex wait_loop_first [of n j cw ts] by blast
qed

text \<open>A loop that returned: either there was nothing to wait for, or the last call decided.\<close>

lemma wait_loop_outcome:
  assumes "wait_loop cw ts n status error = Some r"
  shows "(fst (snd r) \<or> snd (snd r) \<noteq> 0) \<and> n \<le> fst r \<and>
    (r = (n, status, error) \<or> n < fst r \<and> cw (fst r - 1) ts = (snd (snd r), fst (snd r)))"
proof (rule wait_loop.raw_induct [where P = "\<lambda>cw ts n status error r.
      (fst (snd r) \<or> snd (snd r) \<noteq> 0) \<and> n \<le> fst r \<and>
      (r = (n, status, error) \<or> n < fst r \<and> cw (fst r - 1) ts = (snd (snd r), fst (snd r)))", OF _ assms])
  fix wl cw ts n status error r
  assume IH: "\<And>cw ts n status error r. wl cw ts n status error = Some r \<Longrightarrow>
      (fst (snd r) \<or> snd (snd r) \<noteq> 0) \<and> n \<le> fst r \<and>
      (r = (n, status, error) \<or> n < fst r \<and> cw (fst r - 1) ts = (snd (snd r), fst (snd r)))"
    and r: "(if \<not> status \<and> error = 0 then wl cw ts (Suc n) (snd (cw n ts)) (fst (cw n ts))
             else Some (n, status, error)) = Some r"
  show "(fst (snd r) \<or> snd (snd r) \<noteq> 0) \<and> n \<le> fst r \<and>
      (r = (n, status, error) \<or> n < fst r \<and> cw (fst r - 1) ts = (snd (snd r), fst (snd r)))"
    using r IH [of cw ts "Suc n" "snd (cw n ts)" "fst (cw n ts)" r]
    by (cases "cw n ts") (auto split: if_splits)
qed

lemma wait_loop_result:
  assumes "wait_loop cw ts n status error = Some (m, status', error')"
  shows "status' \<or> error' \<noteq> 0" and "n \<le> m"
    and "m = n \<and> status' = status \<and> error' = error \<or> n < m \<and> cw (m - 1) ts = (error', status')"
  using wait_loop_outcome [OF assms] by auto

section \<open>Many threads on one event\<close>

text \<open>
  Threads call \<^verbatim>\<open>Set\<close>, \<^verbatim>\<open>Reset\<close> and \<^verbatim>\<open>Wait\<close> on one event; each step is one stretch during which the mutex is
  held.  \<open>blocked\<close> are the threads inside \<^verbatim>\<open>pthread_cond_wait\<close>, \<open>woken\<close> those that a broadcast
  released and that compete for the mutex.  \<open>sets\<close> and \<open>successes\<close> count the calls of \<^verbatim>\<open>Set\<close> and the waits
  that returned true.
\<close>

record event_threads =
  ev :: Event
  blocked :: "nat set"
  woken :: "nat set"
  sets :: nat
  successes :: nat

definition take_event :: "event_threads \<Rightarrow> event_threads" where
  "take_event s = s\<lparr>ev := (if is_manual_reset_m (ev s) then ev s else Reset (ev s)),
     successes := Suc (successes s)\<rparr>"

inductive event_step :: "event_threads \<Rightarrow> event_threads \<Rightarrow> bool" where
  es_set: "event_step s (s\<lparr>ev := Set (ev s), woken := woken s \<union> blocked s, blocked := {}, sets := Suc (sets s)\<rparr>)"
| es_reset: "event_step s (s\<lparr>ev := Reset (ev s)\<rparr>)"
| es_wait_now: "t \<notin> blocked s \<union> woken s \<Longrightarrow> event_status_m (ev s) \<Longrightarrow> event_step s (take_event s)"
| es_wait_block: "t \<notin> blocked s \<union> woken s \<Longrightarrow> \<not> event_status_m (ev s)
     \<Longrightarrow> event_step s (s\<lparr>blocked := insert t (blocked s)\<rparr>)"
| es_spurious: "t \<in> blocked s \<Longrightarrow> event_step s (s\<lparr>blocked := blocked s - {t}, woken := insert t (woken s)\<rparr>)"
| es_woken_true: "t \<in> woken s \<Longrightarrow> event_status_m (ev s)
     \<Longrightarrow> event_step s (take_event (s\<lparr>woken := woken s - {t}\<rparr>))"
| es_woken_again: "t \<in> woken s \<Longrightarrow> \<not> event_status_m (ev s)
     \<Longrightarrow> event_step s (s\<lparr>woken := woken s - {t}, blocked := insert t (blocked s)\<rparr>)"
| es_give_up: "t \<in> blocked s \<union> woken s
     \<Longrightarrow> event_step s (s\<lparr>blocked := blocked s - {t}, woken := woken s - {t}\<rparr>)"

text \<open>The destructor; destroying a condition variable or a mutex that threads still use is undefined.\<close>

definition Event_delete :: "event_threads \<Rightarrow> fault + unit" where
  "Event_delete s = (if blocked s \<union> woken s \<noteq> {} then Inl UB else Inr ())"

lemma event_step_inv:
  assumes "event_step\<^sup>*\<^sup>* s t" and "event_status_m (ev s) \<longrightarrow> blocked s = {}"
  shows "(event_status_m (ev t) \<longrightarrow> blocked t = {}) \<and> is_manual_reset_m (ev t) = is_manual_reset_m (ev s)"
  using assms
proof induction
  case (step t u)
  from step(2,3) show ?case
    using step(4) by cases (auto simp: Set_def Reset_def take_event_def)
qed simp

lemma event_step_count:
  assumes "event_step\<^sup>*\<^sup>* s t" and "\<not> is_manual_reset_m (ev s)"
  shows "\<not> is_manual_reset_m (ev t) \<and>
    successes t + of_bool (event_status_m (ev t)) + sets s \<le> successes s + of_bool (event_status_m (ev s)) + sets t"
  using assms
proof induction
  case (step t u)
  from step(2,3) show ?case
    using step(4) by cases (auto simp: Set_def Reset_def take_event_def split: if_splits)
qed simp

section \<open>Properties\<close>


definition wake_third :: "nat \<Rightarrow> timespec option \<Rightarrow> int \<times> bool" where
  "wake_third n ts = (0, n = 2)"

lemma wake_third_run:
  "Wait micros_duration 110 id wake_third t t Forever Forever \<lparr>is_manual_reset_m = False, event_status_m = False\<rparr>
   = Some (True, False, 3, \<lparr>is_manual_reset_m = False, event_status_m = False\<rparr>)"
proof -
  have "wait_loop wake_third None 0 False 0 = Some (3, True, 0)"
    using wait_loop_first [of 0 2 wake_third None] by (simp add: wake_third_def)
  then show ?thesis by (simp add: Wait_def Let_def micros_duration_def)
qed


text \<open>C23. \<^verbatim>\<open>Wait\<close> returns: with a finite time-out always, given that a timed wait on the condition variable
  eventually fails or finds the event signalled; with an infinite time-out, provided the event is
  eventually seen signalled (or the untimed wait fails).\<close>

theorem Wait_returns:
  assumes timed: "\<And>ts n. \<exists>k \<ge> n. cw k (Some ts) \<noteq> (0, False)"
    and forever: "give_up_after = InfiniteDuration A \<Longrightarrow> \<forall>n. \<exists>k \<ge> n. cw k None \<noteq> (0, False)"
  shows "\<exists>ok warned n e'. Wait A ETIMEDOUT Y cw now1 now2 give_up_after warn_after e = Some (ok, warned, n, e')"
proof -
  let ?g = "if give_up_after = InfiniteDuration A then None else Some (GetTimespec A now2 give_up_after)"
  have loop: "\<exists>r. wait_loop cw ts n status 0 = Some r" if some: "\<forall>n. \<exists>k \<ge> n. cw k ts \<noteq> (0, False)" for ts n status
  proof (cases status)
    case False
    obtain k where "n \<le> k" "cw k ts \<noteq> (0, False)" using some [THEN spec, of n] by blast
    then obtain j where "wait_loop cw ts n False 0 = Some (Suc j, snd (cw j ts), fst (cw j ts))"
      by (rule wait_loop_returns)
    with False show ?thesis by auto
  next
    case True
    then show ?thesis using wait_loop_done [of status 0 cw ts n] by blast
  qed
  have w: "\<exists>r. wait_loop cw (Some ts) n status 0 = Some r" for ts n status
    by (rule loop) (use timed in blast)
  have g: "\<exists>r. wait_loop cw ?g n status 0 = Some r" for n status
  proof (cases "give_up_after = InfiniteDuration A")
    case True
    then show ?thesis using loop [OF forever [OF True]] by simp
  next
    case False
    then show ?thesis using w by simp
  qed
  obtain r1 where r1: "wait_loop cw ?g 0 (event_status_m (Y e)) 0 = Some r1" using g by blast
  obtain n2 s2 e2 where r2: "wait_loop cw (Some (GetTimespec A now1 warn_after)) 0 (event_status_m (Y e)) 0
      = Some (n2, s2, e2)"
    using w by (metis prod.exhaust)
  obtain r3 where r3: "wait_loop cw ?g n2 s2 0 = Some r3" using g by blast
  show ?thesis
    using r1 r2 r3 by (cases r1; cases r3) (auto simp: Wait_def Let_def)
qed

theorem Wait_returns_witness:
  "\<exists>ok warned n e'. Wait micros_duration 110 id (\<lambda>n ts. (110, False))
     \<lparr>tv_sec = 0, tv_nsec = 0\<rparr> \<lparr>tv_sec = 0, tv_nsec = 0\<rparr> (Micros 5) Forever
     \<lparr>is_manual_reset_m = True, event_status_m = False\<rparr> = Some (ok, warned, n, e')"
  by (rule Wait_returns) auto

text \<open>For a duration that is not negative, \<^verbatim>\<open>GetTimespec\<close> adds exactly that many microseconds to
  the clock reading and gives a normalised time.\<close>

lemma GetTimespec_exact:
  assumes "0 \<le> ToInt64Microseconds A d" and "0 \<le> tv_nsec now" and "tv_nsec now < 1000000000"
  shows "0 \<le> tv_nsec (GetTimespec A now d) \<and> tv_nsec (GetTimespec A now d) < 1000000000 \<and>
    tv_sec (GetTimespec A now d) * 1000000000 + tv_nsec (GetTimespec A now d) =
      tv_sec now * 1000000000 + tv_nsec now + ToInt64Microseconds A d * 1000"
proof -
  let ?u = "ToInt64Microseconds A d"
  have "?u div 1000000 * 1000000000 + ?u mod 1000000 * 1000 = ?u * 1000"
    using div_mult_mod_eq [of ?u 1000000] by linarith
  moreover have "0 \<le> ?u mod 1000000" "?u mod 1000000 < 1000000" by simp_all
  ultimately show ?thesis
    using assms by (auto simp: GetTimespec_def Let_def)
qed

lemma GetTimespec_exact_example:
  "tv_nsec (GetTimespec micros_duration \<lparr>tv_sec = 5, tv_nsec = 999999999\<rparr> (Micros 1500000)) < 1000000000"
  using GetTimespec_exact [of micros_duration "Micros 1500000" "\<lparr>tv_sec = 5, tv_nsec = 999999999\<rparr>"] by simp

text \<open>A negative duration is not normalised: the nanoseconds of the result can be negative, which
  the timed wait rejects as an invalid argument.\<close>

lemma GetTimespec_negative:
  "tv_nsec (GetTimespec micros_duration \<lparr>tv_sec = 5, tv_nsec = 0\<rparr> (Micros (- 1))) = - 1000"
  by (simp add: GetTimespec_def signed_divide_int_def signed_modulo_int_def)

text \<open>C21. Threads sharing an auto-reset event that starts unsignalled: however calls of \<^verbatim>\<open>Set\<close>, \<^verbatim>\<open>Reset\<close>
  and \<^verbatim>\<open>Wait\<close>, spurious wake-ups and time-outs are interleaved, no \<^verbatim>\<open>Set\<close> releases two waits
  (there are never more successful waits than calls of \<^verbatim>\<open>Set\<close>), and while the event is
  signalled no thread stays blocked in the condition variable.\<close>

theorem auto_reset_releases_one:
  assumes "event_step\<^sup>*\<^sup>* s t" and "s = \<lparr>ev = \<lparr>is_manual_reset_m = False, event_status_m = False\<rparr>,
    blocked = {}, woken = {}, sets = 0, successes = 0\<rparr>"
  shows "successes t \<le> sets t \<and> (event_status_m (ev t) \<longrightarrow> successes t < sets t) \<and>
    (event_status_m (ev t) \<longrightarrow> blocked t = {})"
  using event_step_count [OF assms(1)] event_step_inv [OF assms(1)] assms(2) by auto

definition one_set :: event_threads where
  "one_set = \<lparr>ev = \<lparr>is_manual_reset_m = False, event_status_m = False\<rparr>,
    blocked = {}, woken = {}, sets = 0, successes = 0\<rparr>"

theorem auto_reset_releases_one_witness:
  "successes (take_event (one_set\<lparr>ev := Set (ev one_set), woken := {}, blocked := {}, sets := 1\<rparr>)) \<le> 1"
proof -
  let ?s = "one_set\<lparr>ev := Set (ev one_set), woken := {}, blocked := {}, sets := 1\<rparr>"
  have "event_step one_set ?s" using es_set [of one_set] by (simp add: one_set_def)
  moreover have "event_step ?s (take_event ?s)"
    by (rule es_wait_now [of 0]) (simp_all add: one_set_def Set_def)
  ultimately have "event_step\<^sup>*\<^sup>* one_set (take_event ?s)" by (meson rtranclp.rtrancl_into_rtrancl rtranclp.rtrancl_refl)
  from auto_reset_releases_one [OF this one_set_def] show ?thesis by (simp add: take_event_def)
qed

text \<open>On Windows a finite time-out is rounded up to at least a millisecond and passed exactly
  when its millisecond count is below the value that means infinite; at that count a finite
  time-out becomes an infinite one, and just above it becomes no time-out at all.\<close>

lemma Wait_ms_bounds:
  "(\<forall>d. d \<noteq> InfiniteDuration A \<longrightarrow> ToInt64Milliseconds A d < 2 ^ 32 - 1 \<longrightarrow>
      uint (Wait_ms A (2 ^ 32 - 1) d) = max 1 (ToInt64Milliseconds A d) \<and>
      Wait_ms A (2 ^ 32 - 1) d \<noteq> Wait_ms A (2 ^ 32 - 1) (InfiniteDuration A)) \<and>
   Wait_ms micros_duration (2 ^ 32 - 1) (Micros ((2 ^ 32 - 1) * 1000)) = - 1 \<and>
   Wait_ms micros_duration (2 ^ 32 - 1) (Micros (2 ^ 32 * 1000)) = 0"
proof -
  have small: "uint (to_uint32 (max 1 m)) = max 1 m" if "m < 2 ^ 32 - 1" for m
    using that by (auto simp: to_uint32_def uint_word_of_int)
  have inf: "uint (Wait_ms A (2 ^ 32 - 1) (InfiniteDuration A)) = 2 ^ 32 - 1"
    by (simp add: Wait_ms_def to_uint32_def uint_word_of_int)
  have "uint (Wait_ms A (2 ^ 32 - 1) d) = max 1 (ToInt64Milliseconds A d) \<and>
      Wait_ms A (2 ^ 32 - 1) d \<noteq> Wait_ms A (2 ^ 32 - 1) (InfiniteDuration A)"
    if "d \<noteq> InfiniteDuration A" "ToInt64Milliseconds A d < 2 ^ 32 - 1" for d
  proof -
    have "uint (Wait_ms A (2 ^ 32 - 1) d) = max 1 (ToInt64Milliseconds A d)"
      using that small by (simp add: Wait_ms_def)
    moreover from this that(2) inf have "Wait_ms A (2 ^ 32 - 1) d \<noteq> Wait_ms A (2 ^ 32 - 1) (InfiniteDuration A)"
      by auto
    ultimately show ?thesis by blast
  qed
  then show ?thesis by (auto simp: Wait_ms_def to_uint32_def)
qed

end
