(* ===== verification/RecursiveLock.thy ===== *)
theory RecursiveLock
  imports IO_Prelude
begin

text \<open>
  \<^verbatim>\<open>src/recursive_critical_section.h\<close> and \<^verbatim>\<open>src/recursive_critical_section.cc\<close>: the re-entrant lock.

  Two of its implementations are modelled: the one on a recursive pthread mutex with the counters
  of a debug build, and the one of macOS without the native mutex, which spins, queues
  and sleeps on a semaphore.  The first is a set of functions of the calling thread; the second
  is a step relation in which every access to the shared atomic counter, to the semaphore and to the owner is a
  step of its own, so that threads interleave.  Threads are numbers; 0 is no thread, as in the code.
  A failed \<^verbatim>\<open>ABSL_DCHECK\<close> is recorded and does not stop the run.
\<close>

section \<open>The lock on a recursive pthread mutex\<close>

text \<open>The documented behaviour of a recursive mutex: its owner and how often it is locked.\<close>

type_synonym mutex = "(nat \<times> nat) option"

definition pthread_mutex_trylock :: "nat \<Rightarrow> mutex \<Rightarrow> mutex option" where
  "pthread_mutex_trylock self mtx =
     (case mtx of
        None \<Rightarrow> Some (Some (self, 1))
      | Some (t, n) \<Rightarrow> if t = self then Some (Some (t, Suc n)) else None)"

definition pthread_mutex_unlock :: "nat \<Rightarrow> mutex \<Rightarrow> mutex" where
  "pthread_mutex_unlock self mtx =
     (case mtx of
        Some (t, n) \<Rightarrow> if t \<noteq> self then mtx else if n = 1 then None else Some (t, n - 1)
      | None \<Rightarrow> None)"

record RecursiveCriticalSection =
  mutex_m :: mutex
  thread_m :: nat
  recursion_count_m :: int
  cs_dcheck_failed :: bool

definition RecursiveCriticalSection_new :: RecursiveCriticalSection where
  "RecursiveCriticalSection_new =
     \<lparr>mutex_m = None, thread_m = 0, recursion_count_m = 0, cs_dcheck_failed = False\<rparr>"

definition cs_dcheck :: "bool \<Rightarrow> RecursiveCriticalSection \<Rightarrow> RecursiveCriticalSection" where
  "cs_dcheck b cs = (if b then cs else cs\<lparr>cs_dcheck_failed := True\<rparr>)"

definition CurrentThreadIsOwner :: "nat \<Rightarrow> RecursiveCriticalSection \<Rightarrow> bool" where
  "CurrentThreadIsOwner self cs \<longleftrightarrow> thread_m cs = self"

text \<open>The debug code after the mutex was taken, which \<^verbatim>\<open>Enter\<close> and \<^verbatim>\<open>TryEnter\<close> share.\<close>

definition count_entry :: "nat \<Rightarrow> RecursiveCriticalSection \<Rightarrow> RecursiveCriticalSection" where
  "count_entry self cs =
     (let cs = (if recursion_count_m cs = 0
                then (cs_dcheck (thread_m cs = 0) cs)\<lparr>thread_m := self\<rparr>
                else cs_dcheck (CurrentThreadIsOwner self cs) cs)
      in cs\<lparr>recursion_count_m := recursion_count_m cs + 1\<rparr>)"

text \<open>\<^verbatim>\<open>Enter\<close> does not return while another thread holds the mutex: \<open>None\<close>.\<close>

definition Enter :: "nat \<Rightarrow> RecursiveCriticalSection \<Rightarrow> RecursiveCriticalSection option" where
  "Enter self cs =
     (case pthread_mutex_trylock self (mutex_m cs) of
        None \<Rightarrow> None
      | Some mtx \<Rightarrow> Some (count_entry self (cs\<lparr>mutex_m := mtx\<rparr>)))"

definition TryEnter :: "nat \<Rightarrow> RecursiveCriticalSection \<Rightarrow> bool \<times> RecursiveCriticalSection" where
  "TryEnter self cs =
     (case pthread_mutex_trylock self (mutex_m cs) of
        None \<Rightarrow> (False, cs)
      | Some mtx \<Rightarrow> (True, count_entry self (cs\<lparr>mutex_m := mtx\<rparr>)))"

definition Leave :: "nat \<Rightarrow> RecursiveCriticalSection \<Rightarrow> RecursiveCriticalSection" where
  "Leave self cs =
     (let cs = cs_dcheck (CurrentThreadIsOwner self cs) cs;
          cs = cs\<lparr>recursion_count_m := recursion_count_m cs - 1\<rparr>;
          cs = cs_dcheck (recursion_count_m cs \<ge> 0) cs;
          cs = (if recursion_count_m cs = 0 then cs\<lparr>thread_m := 0\<rparr> else cs)
      in cs\<lparr>mutex_m := pthread_mutex_unlock self (mutex_m cs)\<rparr>)"

text \<open>\<^verbatim>\<open>CritScope\<close> around a body that runs when the lock was taken.\<close>

definition CritScope ::
  "nat \<Rightarrow> (RecursiveCriticalSection \<Rightarrow> RecursiveCriticalSection) \<Rightarrow> RecursiveCriticalSection
     \<Rightarrow> RecursiveCriticalSection option" where
  "CritScope self body cs = map_option (\<lambda>cs. Leave self (body cs)) (Enter self cs)"

text \<open>Threads use the lock: any thread enters or tries to, the thread that holds it leaves.\<close>

inductive cs_run :: "RecursiveCriticalSection \<Rightarrow> bool" where
  cr_new: "cs_run RecursiveCriticalSection_new"
| cr_enter: "cs_run cs \<Longrightarrow> t \<noteq> 0 \<Longrightarrow> Enter t cs = Some cs' \<Longrightarrow> cs_run cs'"
| cr_try: "cs_run cs \<Longrightarrow> t \<noteq> 0 \<Longrightarrow> cs_run (snd (TryEnter t cs))"
| cr_leave: "cs_run cs \<Longrightarrow> mutex_m cs = Some (t, n) \<Longrightarrow> cs_run (Leave t cs)"

definition cs_ok :: "RecursiveCriticalSection \<Rightarrow> bool" where
  "cs_ok cs \<longleftrightarrow> \<not> cs_dcheck_failed cs \<and>
     (case mutex_m cs of
        None \<Rightarrow> thread_m cs = 0 \<and> recursion_count_m cs = 0
      | Some (t, n) \<Rightarrow> t \<noteq> 0 \<and> 0 < n \<and> thread_m cs = t \<and> recursion_count_m cs = int n)"

lemma cs_ok_cases:
  assumes "cs_ok cs"
  obtains "cs = \<lparr>mutex_m = None, thread_m = 0, recursion_count_m = 0, cs_dcheck_failed = False\<rparr>"
  | t n where "t \<noteq> 0" "0 < n" "cs = \<lparr>mutex_m = Some (t, n), thread_m = t, recursion_count_m = int n, cs_dcheck_failed = False\<rparr>"
  using assms by (cases cs) (auto simp: cs_ok_def split: option.splits prod.splits)

lemmas cs_defs = count_entry_def cs_dcheck_def CurrentThreadIsOwner_def pthread_mutex_trylock_def
  pthread_mutex_unlock_def Let_def

lemma Enter_ok: "cs_ok cs \<Longrightarrow> t \<noteq> 0 \<Longrightarrow> Enter t cs = Some cs' \<Longrightarrow> cs_ok cs'"
  by (erule cs_ok_cases) (auto simp: Enter_def cs_defs cs_ok_def split: if_splits)

lemma TryEnter_ok: "cs_ok cs \<Longrightarrow> t \<noteq> 0 \<Longrightarrow> cs_ok (snd (TryEnter t cs))"
  by (erule cs_ok_cases) (auto simp: TryEnter_def cs_defs cs_ok_def split: if_splits)

lemma Leave_ok: "cs_ok cs \<Longrightarrow> mutex_m cs = Some (t, n) \<Longrightarrow> cs_ok (Leave t cs)"
  by (erule cs_ok_cases) (auto simp: Leave_def cs_defs cs_ok_def of_nat_diff split: if_splits)

lemma new_ok: "cs_ok RecursiveCriticalSection_new"
  by (simp add: cs_ok_def RecursiveCriticalSection_new_def)

lemma cs_run_ok: "cs_run cs \<Longrightarrow> cs_ok cs"
  by (induction rule: cs_run.induct) (auto intro: Enter_ok TryEnter_ok Leave_ok new_ok)

section \<open>The lock with a spin loop and a semaphore\<close>

text \<open>
  Where a thread is: outside or inside the lock, in the spin loop of \<^verbatim>\<open>Enter\<close> (before the read-only
  checks, or before the compare-and-swap) with the remaining spins, about to queue up, asleep on the semaphore, in
  possession of the lock but not yet recorded as its owner, at the compare-and-swap of \<^verbatim>\<open>TryEnter\<close>, behind it, or at one of the
  three steps of \<^verbatim>\<open>Leave\<close>.
\<close>

datatype mac_pc =
  Outside | Inside | Spin nat | SpinCas nat | Queue | Asleep | GotLock
| TryCas | TryGot | TryAgain | LeaveStart | LeaveDec | LeaveSignal

record mac_lock =
  lock_queue_m :: int
  owning_thread_m :: nat
  recursion_m :: int
  semaphore_m :: nat
  pc :: "nat \<Rightarrow> mac_pc"
  mac_dcheck_failed :: bool

definition mac_new :: mac_lock where
  "mac_new = \<lparr>lock_queue_m = 0, owning_thread_m = 0, recursion_m = 0, semaphore_m = 0,
     pc = (\<lambda>t. Outside), mac_dcheck_failed = False\<rparr>"

definition goto :: "nat \<Rightarrow> mac_pc \<Rightarrow> mac_lock \<Rightarrow> mac_lock" where
  "goto self p s = s\<lparr>pc := (pc s)(self := p)\<rparr>"

definition mac_dcheck :: "bool \<Rightarrow> mac_lock \<Rightarrow> mac_lock" where
  "mac_dcheck b s = (if b then s else s\<lparr>mac_dcheck_failed := True\<rparr>)"

text \<open>\<^verbatim>\<open>sched_yield(); } while (--spin);\<close>\<close>

definition spin_again :: "nat \<Rightarrow> mac_pc" where
  "spin_again spin = (if spin - 1 = 0 then Queue else Spin (spin - 1))"

text \<open>One step of \<^verbatim>\<open>Enter\<close>; \<open>None\<close> while the thread has to sleep.\<close>

definition mac_Enter :: "nat \<Rightarrow> mac_lock \<Rightarrow> mac_lock option" where
  "mac_Enter self s =
     (case pc s self of
        Spin spin \<Rightarrow>
          if owning_thread_m s \<noteq> self
          then Some (goto self (if lock_queue_m s = 0 then SpinCas spin else spin_again spin) s)
          else Some (goto self GotLock (s\<lparr>lock_queue_m := lock_queue_m s + 1\<rparr>))
      | SpinCas spin \<Rightarrow>
          if lock_queue_m s = 0 then Some (goto self GotLock (s\<lparr>lock_queue_m := 1\<rparr>))
          else Some (goto self (spin_again spin) s)
      | Queue \<Rightarrow>
          let s = s\<lparr>lock_queue_m := lock_queue_m s + 1\<rparr>
          in if lock_queue_m s > 1
             then Some (goto self Asleep (mac_dcheck (owning_thread_m s \<noteq> self) s))
             else Some (goto self GotLock s)
      | Asleep \<Rightarrow>
          if semaphore_m s = 0 then None
          else Some (goto self GotLock
                 (mac_dcheck (owning_thread_m s = 0 \<and> recursion_m s = 0)
                   (s\<lparr>semaphore_m := semaphore_m s - 1\<rparr>)))
      | GotLock \<Rightarrow>
          Some (goto self Inside (s\<lparr>owning_thread_m := self, recursion_m := recursion_m s + 1\<rparr>))
      | _ \<Rightarrow> None)"

definition mac_TryEnter :: "nat \<Rightarrow> mac_lock \<Rightarrow> mac_lock option" where
  "mac_TryEnter self s =
     (case pc s self of
        TryCas \<Rightarrow>
          if owning_thread_m s \<noteq> self
          then if lock_queue_m s = 0 then Some (goto self TryGot (s\<lparr>lock_queue_m := 1\<rparr>))
               else Some (goto self Outside s)
          else Some (goto self TryAgain (s\<lparr>lock_queue_m := lock_queue_m s + 1\<rparr>))
      | TryGot \<Rightarrow>
          let s = mac_dcheck (recursion_m s = 0) (s\<lparr>owning_thread_m := self\<rparr>)
          in Some (goto self Inside (s\<lparr>recursion_m := recursion_m s + 1\<rparr>))
      | TryAgain \<Rightarrow> Some (goto self Inside (s\<lparr>recursion_m := recursion_m s + 1\<rparr>))
      | _ \<Rightarrow> None)"

definition mac_Leave :: "nat \<Rightarrow> mac_lock \<Rightarrow> mac_lock option" where
  "mac_Leave self s =
     (case pc s self of
        LeaveStart \<Rightarrow>
          let s = mac_dcheck (owning_thread_m s = self) s;
              s = mac_dcheck (recursion_m s \<ge> 0) s;
              s = s\<lparr>recursion_m := recursion_m s - 1\<rparr>;
              s = (if recursion_m s = 0 then s\<lparr>owning_thread_m := 0\<rparr> else s)
          in Some (goto self LeaveDec s)
      | LeaveDec \<Rightarrow>
          let s = s\<lparr>lock_queue_m := lock_queue_m s - 1\<rparr>
          in if lock_queue_m s > 0 \<and> recursion_m s = 0 then Some (goto self LeaveSignal s)
             else Some (goto self (if recursion_m s = 0 then Outside else Inside) s)
      | LeaveSignal \<Rightarrow> Some (goto self Outside (s\<lparr>semaphore_m := semaphore_m s + 1\<rparr>))
      | _ \<Rightarrow> None)"

inductive mac_step :: "mac_lock \<Rightarrow> mac_lock \<Rightarrow> bool" where
  ms_enter: "t \<noteq> 0 \<Longrightarrow> pc s t = Outside \<or> pc s t = Inside \<Longrightarrow> mac_step s (goto t (Spin 3000) s)"
| ms_try: "t \<noteq> 0 \<Longrightarrow> pc s t = Outside \<or> pc s t = Inside \<Longrightarrow> mac_step s (goto t TryCas s)"
| ms_leave: "pc s t = Inside \<Longrightarrow> mac_step s (goto t LeaveStart s)"
| ms_in_enter: "mac_Enter t s = Some s' \<Longrightarrow> mac_step s s'"
| ms_in_try: "mac_TryEnter t s = Some s' \<Longrightarrow> mac_step s s'"
| ms_in_leave: "mac_Leave t s = Some s' \<Longrightarrow> mac_step s s'"

section \<open>Mutual exclusion\<close>

definition asleep :: "mac_lock \<Rightarrow> nat set" where
  "asleep s = {t. pc s t = Asleep}"

definition signalling :: "mac_lock \<Rightarrow> nat set" where
  "signalling s = {t. pc s t = LeaveSignal}"

text \<open>Where a thread that does not have the lock can be, and the one that has it.\<close>

fun waiting_pc :: "mac_pc \<Rightarrow> bool" where
  "waiting_pc Outside = True" | "waiting_pc (Spin n) = True" | "waiting_pc (SpinCas n) = True"
| "waiting_pc Queue = True" | "waiting_pc Asleep = True" | "waiting_pc TryCas = True"
| "waiting_pc _ = False"

text \<open>What the holder contributes to \<^verbatim>\<open>lock_queue_\<close>, given its recursion count.\<close>

fun held_units :: "mac_pc \<Rightarrow> int \<Rightarrow> int option" where
  "held_units Inside r = (if 1 \<le> r then Some r else None)"
| "held_units (Spin n) r = (if 1 \<le> r then Some r else None)"
| "held_units TryCas r = (if 1 \<le> r then Some r else None)"
| "held_units LeaveStart r = (if 1 \<le> r then Some r else None)"
| "held_units GotLock r = (if 0 \<le> r then Some (r + 1) else None)"
| "held_units TryGot r = (if r = 0 then Some 1 else None)"
| "held_units TryAgain r = (if 1 \<le> r then Some (r + 1) else None)"
| "held_units LeaveDec r = (if 0 \<le> r then Some (r + 1) else None)"
| "held_units _ r = None"

definition held_by :: "nat \<Rightarrow> mac_lock \<Rightarrow> bool" where
  "held_by h s \<longleftrightarrow> h \<noteq> 0 \<and> semaphore_m s = 0 \<and> (\<forall>t. t \<noteq> h \<longrightarrow> waiting_pc (pc s t)) \<and>
     owning_thread_m s = (if recursion_m s = 0 then 0 else h) \<and>
     (\<exists>u. held_units (pc s h) (recursion_m s) = Some u \<and> lock_queue_m s = int (card (asleep s)) + u)"

definition free :: "mac_lock \<Rightarrow> bool" where
  "free s \<longleftrightarrow> owning_thread_m s = 0 \<and> recursion_m s = 0 \<and> lock_queue_m s = int (card (asleep s)) \<and>
     (\<forall>t. waiting_pc (pc s t) \<or> pc s t = LeaveSignal) \<and>
     (if asleep s = {} then semaphore_m s = 0 \<and> signalling s = {}
      else semaphore_m s = 1 \<and> signalling s = {} \<or>
           semaphore_m s = 0 \<and> (\<exists>t. signalling s = {t}))"

definition mac_inv :: "mac_lock \<Rightarrow> bool" where
  "mac_inv s \<longleftrightarrow> \<not> mac_dcheck_failed s \<and> pc s 0 = Outside \<and> finite (asleep s) \<and>
     (free s \<or> (\<exists>h. held_by h s))"

lemma goto_fields [simp]:
  "lock_queue_m (goto t p s) = lock_queue_m s" "owning_thread_m (goto t p s) = owning_thread_m s"
  "recursion_m (goto t p s) = recursion_m s" "semaphore_m (goto t p s) = semaphore_m s"
  "mac_dcheck_failed (goto t p s) = mac_dcheck_failed s" "pc (goto t p s) = (pc s)(t := p)"
  by (simp_all add: goto_def)

lemma asleep_goto: "asleep (goto t p s) = (if p = Asleep then insert t (asleep s) else asleep s - {t})"
  by (auto simp: asleep_def)

lemma signalling_goto:
  "signalling (goto t p s) = (if p = LeaveSignal then insert t (signalling s) else signalling s - {t})"
  by (auto simp: signalling_def)

lemma asleep_cong [simp]:
  "asleep (s\<lparr>lock_queue_m := q\<rparr>) = asleep s" "asleep (s\<lparr>owning_thread_m := o'\<rparr>) = asleep s"
  "asleep (s\<lparr>recursion_m := r\<rparr>) = asleep s" "asleep (s\<lparr>semaphore_m := k\<rparr>) = asleep s"
  "asleep (s\<lparr>mac_dcheck_failed := b\<rparr>) = asleep s"
  by (simp_all add: asleep_def)

lemma signalling_cong [simp]:
  "signalling (s\<lparr>lock_queue_m := q\<rparr>) = signalling s" "signalling (s\<lparr>owning_thread_m := o'\<rparr>) = signalling s"
  "signalling (s\<lparr>recursion_m := r\<rparr>) = signalling s" "signalling (s\<lparr>semaphore_m := k\<rparr>) = signalling s"
  "signalling (s\<lparr>mac_dcheck_failed := b\<rparr>) = signalling s"
  by (simp_all add: signalling_def)

lemma not_asleep: "pc s t \<noteq> Asleep \<Longrightarrow> asleep s - {t} = asleep s" "pc s t \<noteq> LeaveSignal \<Longrightarrow> signalling s - {t} = signalling s"
  by (auto simp: asleep_def signalling_def)

lemma waiting_spin_again [simp]:
  "waiting_pc (spin_again n)" "spin_again n \<noteq> Asleep" "spin_again n \<noteq> LeaveSignal"
  by (simp_all add: spin_again_def)

text \<open>A thread without the lock moves from one place in front of it to another.\<close>

lemma move_waiting:
  assumes "mac_inv s" and "waiting_pc (pc s t)" "waiting_pc p" "pc s t \<noteq> Asleep" "p \<noteq> Asleep"
    and "t \<noteq> 0" and "\<not> held_by t s"
  shows "mac_inv (goto t p s)"
proof -
  have p: "p \<noteq> LeaveSignal" "pc s t \<noteq> LeaveSignal" using assms(2,3) by auto
  have a: "asleep (goto t p s) = asleep s" "signalling (goto t p s) = signalling s"
    using assms(4,5) p by (simp_all add: asleep_goto signalling_goto not_asleep)
  have "free (goto t p s)" if "free s" using that assms(3) by (auto simp: free_def a split: if_splits)
  moreover have "held_by h (goto t p s)" if "held_by h s" for h
  proof -
    have "h \<noteq> t" using that assms(7) by blast
    then show ?thesis using that assms(3) by (simp add: held_by_def a)
  qed
  ultimately show ?thesis using assms(1,6) unfolding mac_inv_def a by auto
qed

text \<open>The holder moves, or a thread becomes the holder.\<close>

lemma move_holder:
  assumes "\<not> mac_dcheck_failed s" "pc s 0 = Outside" "finite (asleep s)" "t \<noteq> 0" "semaphore_m s = 0"
    and "\<And>k. k \<noteq> t \<Longrightarrow> waiting_pc (pc s k)" "owning_thread_m s = (if recursion_m s = 0 then 0 else t)"
    and "held_units p (recursion_m s) = Some u" "lock_queue_m s = int (card (asleep s - {t})) + u"
  shows "mac_inv (goto t p s)"
proof -
  have "p \<noteq> Asleep" using assms(8) by auto
  then have "asleep (goto t p s) = asleep s - {t}" by (simp add: asleep_goto)
  then have "held_by t (goto t p s)" using assms by (simp add: held_by_def)
  then show ?thesis using assms \<open>p \<noteq> Asleep\<close> by (auto simp: mac_inv_def asleep_goto)
qed

lemma free_lock_queue: "free s \<Longrightarrow> lock_queue_m s = 0 \<Longrightarrow> finite (asleep s) \<Longrightarrow>
    asleep s = {} \<and> semaphore_m s = 0 \<and> (\<forall>t. waiting_pc (pc s t))"
  by (auto simp: free_def signalling_def split: if_splits)

lemma held_lock_queue: "held_by h s \<Longrightarrow> 1 \<le> lock_queue_m s"
  by (auto simp: held_by_def elim!: held_units.elims split: if_splits)

lemma held_others: "held_by h s \<Longrightarrow> k \<noteq> h \<Longrightarrow> waiting_pc (pc s k)"
  by (simp add: held_by_def)

lemma held_inside: "held_by t s \<Longrightarrow> pc s t = Inside \<Longrightarrow> owning_thread_m s = t \<and> 1 \<le> recursion_m s"
  by (auto simp: held_by_def split: if_splits)

lemma held_units_nonneg: "held_units p r = Some u \<Longrightarrow> 0 \<le> u"
  by (cases p) (auto split: if_splits)

lemma held_unique: "held_by h s \<Longrightarrow> held_by k s \<Longrightarrow> h = k"
proof (rule ccontr)
  assume h: "held_by h s" and k: "held_by k s" and "h \<noteq> k"
  then have "waiting_pc (pc s h)" "waiting_pc (pc s k)" by (auto simp: held_by_def)
  moreover have "1 \<le> recursion_m s" if "held_by t s" "waiting_pc (pc s t)" for t
    using that by (cases "pc s t") (auto simp: held_by_def split: if_splits)
  ultimately have "recursion_m s \<noteq> 0" using h by fastforce
  then show False using h k \<open>h \<noteq> k\<close> by (simp add: held_by_def)
qed

lemma not_free_held: "free s \<Longrightarrow> \<not> held_by h s"
  by (cases "pc s h") (auto simp: held_by_def free_def split: if_splits)

text \<open>A thread that takes a free lock by moving \<^verbatim>\<open>lock_queue_\<close> from 0 to 1.\<close>

lemma take_free:
  assumes inv: "mac_inv s" and q: "lock_queue_m s = 0" and p: "p = GotLock \<or> p = TryGot" and "t \<noteq> 0"
  shows "mac_inv (goto t p (s\<lparr>lock_queue_m := 1\<rparr>))"
proof -
  have fin: "finite (asleep s)" using inv by (simp add: mac_inv_def)
  have "free s" using inv q held_lock_queue [of _ s] by (fastforce simp: mac_inv_def)
  from free_lock_queue [OF this q fin] \<open>free s\<close> show ?thesis
    using inv p \<open>t \<noteq> 0\<close> by (intro move_holder [where u = 1]) (auto simp: mac_inv_def free_def)
qed

lemma mac_invD:
  assumes "mac_inv s"
  shows "\<not> mac_dcheck_failed s" "pc s 0 = Outside" "finite (asleep s)"
    and "\<not> free s \<Longrightarrow> \<exists>h. held_by h s"
  using assms by (auto simp: mac_inv_def)

text \<open>A thread that queues up behind others.\<close>

lemma queue_up:
  assumes inv: "mac_inv s" and w: "waiting_pc (pc s t)" "pc s t \<noteq> Asleep" "t \<noteq> 0" and h: "\<not> held_by t s"
    and q: "1 \<le> lock_queue_m s"
  shows "mac_inv (goto t Asleep (s\<lparr>lock_queue_m := lock_queue_m s + 1\<rparr>))"
proof -
  let ?s = "goto t Asleep (s\<lparr>lock_queue_m := lock_queue_m s + 1\<rparr>)"
  have fin: "finite (asleep s)" using inv by (rule mac_invD)
  have a: "asleep ?s = insert t (asleep s)" "card (insert t (asleep s)) = Suc (card (asleep s))"
    using w(2) fin by (simp_all add: asleep_goto) (simp add: asleep_def)
  have g: "signalling ?s = signalling s" using w(1) by (auto simp: signalling_goto signalling_def)
  have "free ?s" if "free s"
  proof -
    have "asleep s \<noteq> {}" using that q by (auto simp: free_def)
    then show ?thesis using that a g by (simp add: free_def)
  qed
  moreover have "held_by k ?s" if "held_by k s" for k
    using that h a by (auto simp: held_by_def)
  ultimately show ?thesis using inv w(3) fin a by (auto simp: mac_inv_def)
qed

text \<open>A thread that is past the lock has it.\<close>

lemma holds:
  assumes "mac_inv s" and "\<not> waiting_pc (pc s t)" "pc s t \<noteq> LeaveSignal"
  shows "held_by t s"
proof -
  have "\<not> free s" using assms(2,3) by (auto simp: free_def)
  then obtain h where h: "held_by h s" using mac_invD(4) [OF assms(1)] by blast
  then have "h = t" using assms(2) by (auto simp: held_by_def)
  with h show ?thesis by simp
qed

lemma mac_Enter_inv:
  assumes inv: "mac_inv s" and step: "mac_Enter t s = Some s'"
  shows "mac_inv s'"
proof (cases "pc s t")
  case (Spin n)
  have t: "t \<noteq> 0" using mac_invD(2) [OF inv] Spin by (cases "t = 0") auto
  show ?thesis
  proof (cases "held_by t s")
    case True
    then have "owning_thread_m s = t" "1 \<le> recursion_m s" using Spin by (auto simp: held_by_def split: if_splits)
    then have s': "s' = goto t GotLock (s\<lparr>lock_queue_m := lock_queue_m s + 1\<rparr>)"
      using step Spin by (simp add: mac_Enter_def)
    show ?thesis unfolding s'
      using True mac_invD(1-3) [OF inv] Spin \<open>1 \<le> recursion_m s\<close>
      by (intro move_holder [where u = "recursion_m s + 1"]) (auto simp: held_by_def not_asleep)
  next
    case False
    have "owning_thread_m s \<noteq> t"
      using False t inv by (auto simp: mac_inv_def free_def held_by_def split: if_splits)
    then have "s' = goto t (if lock_queue_m s = 0 then SpinCas n else spin_again n) s"
      using step Spin by (simp add: mac_Enter_def)
    then show ?thesis using move_waiting [OF inv _ _ _ _ t False] Spin by simp
  qed
next
  case (SpinCas n)
  have t: "t \<noteq> 0" using mac_invD(2) [OF inv] SpinCas by (cases "t = 0") auto
  have "\<not> held_by t s" using SpinCas by (simp add: held_by_def)
  then show ?thesis
    using step SpinCas take_free [OF inv _ _ t] move_waiting [OF inv _ _ _ _ t, of "spin_again n"]
    by (auto simp: mac_Enter_def split: if_splits)
next
  case Queue
  have t: "t \<noteq> 0" using mac_invD(2) [OF inv] Queue by (cases "t = 0") auto
  have q: "0 \<le> lock_queue_m s" using inv held_lock_queue by (force simp: mac_inv_def free_def)
  show ?thesis
  proof (cases "lock_queue_m s = 0")
    case True
    then show ?thesis using take_free [OF inv True _ t, of GotLock] step Queue by (simp add: mac_Enter_def Let_def)
  next
    case False
    have h: "\<not> held_by t s" using Queue by (simp add: held_by_def)
    then have "owning_thread_m s \<noteq> t"
      using t inv by (auto simp: mac_inv_def free_def held_by_def split: if_splits)
    then have "s' = goto t Asleep (s\<lparr>lock_queue_m := lock_queue_m s + 1\<rparr>)"
      using step Queue False q by (simp add: mac_Enter_def Let_def mac_dcheck_def split: if_splits)
    then show ?thesis using queue_up [OF inv _ _ t h] Queue False q by simp
  qed
next
  case Asleep
  have t: "t \<noteq> 0" using mac_invD(2) [OF inv] Asleep by (cases "t = 0") auto
  have in_a: "t \<in> asleep s" using Asleep by (simp add: asleep_def)
  have sem: "semaphore_m s \<noteq> 0" using step Asleep by (auto simp: mac_Enter_def split: if_splits)
  then have "free s" using inv by (auto simp: mac_inv_def held_by_def)
  then have f: "semaphore_m s = 1" "owning_thread_m s = 0" "recursion_m s = 0" "lock_queue_m s = int (card (asleep s))"
    "\<And>k. waiting_pc (pc s k)"
    using in_a sem by (auto simp: free_def signalling_def split: if_splits)
  then have s': "s' = goto t GotLock (s\<lparr>semaphore_m := 0\<rparr>)"
    using step Asleep by (simp add: mac_Enter_def mac_dcheck_def)
  have "lock_queue_m s = int (card (asleep s - {t})) + 1"
    using f(4) in_a card_Suc_Diff1 [OF mac_invD(3) [OF inv] in_a] by linarith
  then show ?thesis unfolding s'
    using f mac_invD(1-3) [OF inv] t by (intro move_holder [where u = 1]) simp_all
next
  case GotLock
  then have h: "held_by t s" using holds [OF inv] by simp
  have s': "s' = goto t Inside (s\<lparr>owning_thread_m := t, recursion_m := recursion_m s + 1\<rparr>)"
    using step GotLock by (simp add: mac_Enter_def)
  show ?thesis unfolding s'
    using h GotLock mac_invD(1-3) [OF inv]
    by (intro move_holder [where u = "recursion_m s + 1"]) (auto simp: held_by_def not_asleep split: if_splits)
qed (use step in \<open>simp_all add: mac_Enter_def\<close>)

lemma mac_TryEnter_inv:
  assumes inv: "mac_inv s" and step: "mac_TryEnter t s = Some s'"
  shows "mac_inv s'"
proof (cases "pc s t")
  case TryCas
  have t: "t \<noteq> 0" using mac_invD(2) [OF inv] TryCas by (cases "t = 0") auto
  show ?thesis
  proof (cases "held_by t s")
    case True
    then have "owning_thread_m s = t" "1 \<le> recursion_m s" using TryCas by (auto simp: held_by_def split: if_splits)
    then have s': "s' = goto t TryAgain (s\<lparr>lock_queue_m := lock_queue_m s + 1\<rparr>)"
      using step TryCas by (simp add: mac_TryEnter_def)
    show ?thesis unfolding s'
      using True mac_invD(1-3) [OF inv] TryCas \<open>1 \<le> recursion_m s\<close>
      by (intro move_holder [where u = "recursion_m s + 1"]) (auto simp: held_by_def not_asleep)
  next
    case False
    have "owning_thread_m s \<noteq> t"
      using False t inv by (auto simp: mac_inv_def free_def held_by_def split: if_splits)
    then show ?thesis
      using step TryCas take_free [OF inv _ _ t, of TryGot] move_waiting [OF inv _ _ _ _ t False, of Outside]
      by (auto simp: mac_TryEnter_def split: if_splits)
  qed
next
  case TryGot
  then have h: "held_by t s" using holds [OF inv] by simp
  then have "recursion_m s = 0" using TryGot by (auto simp: held_by_def split: if_splits)
  then have s': "s' = goto t Inside (s\<lparr>owning_thread_m := t, recursion_m := 1\<rparr>)"
    using step TryGot by (simp add: mac_TryEnter_def mac_dcheck_def Let_def)
  show ?thesis unfolding s'
    using h TryGot mac_invD(1-3) [OF inv] \<open>recursion_m s = 0\<close>
    by (intro move_holder [where u = 1]) (auto simp: held_by_def not_asleep)
next
  case TryAgain
  then have h: "held_by t s" using holds [OF inv] by simp
  have s': "s' = goto t Inside (s\<lparr>recursion_m := recursion_m s + 1\<rparr>)"
    using step TryAgain by (simp add: mac_TryEnter_def)
  show ?thesis unfolding s'
    using h TryAgain mac_invD(1-3) [OF inv]
    by (intro move_holder [where u = "recursion_m s + 1"]) (auto simp: held_by_def not_asleep split: if_splits)
qed (use step in \<open>simp_all add: mac_TryEnter_def\<close>)

lemma mac_Leave_inv:
  assumes inv: "mac_inv s" and step: "mac_Leave t s = Some s'"
  shows "mac_inv s'"
proof (cases "pc s t")
  case LeaveStart
  then have h: "held_by t s" using holds [OF inv] by simp
  then have r: "1 \<le> recursion_m s" "owning_thread_m s = t"
    using LeaveStart by (auto simp: held_by_def split: if_splits)
  then have s': "s' = goto t LeaveDec (s\<lparr>recursion_m := recursion_m s - 1,
      owning_thread_m := (if recursion_m s = 1 then 0 else t)\<rparr>)"
    using step LeaveStart by (auto simp: mac_Leave_def mac_dcheck_def Let_def)
  show ?thesis unfolding s'
    using h LeaveStart mac_invD(1-3) [OF inv] r
    by (intro move_holder [where u = "recursion_m s"]) (auto simp: held_by_def not_asleep)
next
  case LeaveDec
  then have h: "held_by t s" using holds [OF inv] by simp
  then have r: "0 \<le> recursion_m s" "lock_queue_m s = int (card (asleep s)) + recursion_m s + 1"
    using LeaveDec by (auto simp: held_by_def split: if_splits)
  note fin = mac_invD(1-3) [OF inv]
  show ?thesis
  proof (cases "recursion_m s = 0")
    case False
    then have s': "s' = goto t Inside (s\<lparr>lock_queue_m := lock_queue_m s - 1\<rparr>)"
      using step LeaveDec by (simp add: mac_Leave_def Let_def)
    show ?thesis unfolding s'
      using h LeaveDec fin r False
      by (intro move_holder [where u = "recursion_m s"]) (auto simp: held_by_def not_asleep split: if_splits)
  next
    case True
    have others: "waiting_pc (pc s k)" if "k \<noteq> t" for k using h that by (simp add: held_by_def)
    then have "pc s k \<noteq> LeaveSignal" for k using LeaveDec by (cases "k = t") force+
    then have sig: "signalling s = {}" by (simp add: signalling_def)
    have "t \<noteq> 0" using h by (simp add: held_by_def)
    have s': "s' = goto t (if asleep s = {} then Outside else LeaveSignal) (s\<lparr>lock_queue_m := lock_queue_m s - 1\<rparr>)"
      using step LeaveDec True r fin(3) by (auto simp: mac_Leave_def Let_def card_gt_0_iff split: if_splits)
    have "free s'"
      using h True r others sig LeaveDec
      by (auto simp: s' free_def held_by_def asleep_goto signalling_goto not_asleep)
    then show ?thesis using fin \<open>t \<noteq> 0\<close> by (simp add: mac_inv_def s' asleep_goto)
  qed
next
  case LeaveSignal
  have t: "t \<noteq> 0" using mac_invD(2) [OF inv] LeaveSignal by (cases "t = 0") auto
  have sig: "t \<in> signalling s" using LeaveSignal by (simp add: signalling_def)
  have "\<not> held_by h s" for h
  proof
    assume h: "held_by h s"
    show False
    proof (cases "h = t")
      case True
      with h LeaveSignal show ?thesis by (simp add: held_by_def)
    next
      case False
      then have "t \<noteq> h" by simp
      from held_others [OF h this] LeaveSignal show ?thesis by simp
    qed
  qed
  then have "free s" using inv by (auto simp: mac_inv_def)
  then have f: "asleep s \<noteq> {}" "semaphore_m s = 0" "signalling s = {t}"
    using sig by (auto simp: free_def split: if_splits)
  have s': "s' = goto t Outside (s\<lparr>semaphore_m := semaphore_m s + 1\<rparr>)"
    using step LeaveSignal by (simp add: mac_Leave_def)
  have "free s'" using \<open>free s\<close> f LeaveSignal by (simp add: s' free_def asleep_goto signalling_goto not_asleep)
  then show ?thesis using mac_invD(1-3) [OF inv] t by (simp add: mac_inv_def s' asleep_goto)
qed (use step in \<open>simp_all add: mac_Leave_def\<close>)

text \<open>A call by a thread that is outside or inside.\<close>

lemma mac_call_inv:
  assumes inv: "mac_inv s" and "t \<noteq> 0" and at: "pc s t = Outside \<or> pc s t = Inside"
    and p: "p = Spin n \<or> p = TryCas \<or> p = LeaveStart \<and> pc s t = Inside"
  shows "mac_inv (goto t p s)"
proof (cases "pc s t")
  case Outside
  then have "\<not> held_by t s" by (simp add: held_by_def)
  then show ?thesis using move_waiting [OF inv _ _ _ _ \<open>t \<noteq> 0\<close>, of p] Outside p by auto
next
  case Inside
  then have h: "held_by t s" using holds [OF inv] by simp
  show ?thesis
    using h Inside p mac_invD(1-3) [OF inv]
    by (intro move_holder [where u = "recursion_m s"]) (auto simp: held_by_def not_asleep split: if_splits)
qed (use at in simp_all)

lemma mac_step_inv: "mac_step s s' \<Longrightarrow> mac_inv s \<Longrightarrow> mac_inv s'"
proof (induction rule: mac_step.induct)
  case (ms_leave s t)
  then have "t \<noteq> 0" using mac_invD(2) [of s] by (cases "t = 0") auto
  with ms_leave show ?case using mac_call_inv by blast
qed (auto intro: mac_call_inv mac_Enter_inv mac_TryEnter_inv mac_Leave_inv)

interpretation mac: step_invariant mac_step mac_new mac_inv
proof
  have "asleep mac_new = {}" "signalling mac_new = {}" by (simp_all add: asleep_def signalling_def mac_new_def)
  then show "mac_inv mac_new" by (simp add: mac_inv_def free_def) (simp add: mac_new_def)
qed (rule mac_step_inv)

text \<open>The witnesses' history: thread 1 is inside, thread 2 spins in vain and goes to sleep.\<close>

definition one_inside :: mac_lock where
  "one_inside = \<lparr>lock_queue_m = 1, owning_thread_m = 1, recursion_m = 1, semaphore_m = 0,
     pc = (\<lambda>t. Outside)(1 := Inside), mac_dcheck_failed = False\<rparr>"

lemma goto_goto [simp]: "goto t p (goto t q s) = goto t p s"
  by (simp add: goto_def)

lemma one_inside_reachable: "mac_step\<^sup>*\<^sup>* mac_new one_inside"
proof -
  have "mac_step mac_new (goto 1 (Spin 3000) mac_new)" by (rule ms_enter) (simp_all add: mac_new_def)
  moreover have "mac_step (goto 1 (Spin 3000) mac_new) (goto 1 (SpinCas 3000) mac_new)"
    by (rule ms_in_enter [of 1]) (simp add: mac_Enter_def, simp add: mac_new_def)
  moreover have "mac_step (goto 1 (SpinCas 3000) mac_new) (goto 1 GotLock (mac_new\<lparr>lock_queue_m := 1\<rparr>))"
    by (rule ms_in_enter [of 1]) (simp add: mac_Enter_def, simp add: mac_new_def goto_def)
  moreover have "mac_step (goto 1 GotLock (mac_new\<lparr>lock_queue_m := 1\<rparr>)) one_inside"
    by (rule ms_in_enter [of 1]) (simp add: mac_Enter_def, simp add: mac_new_def goto_def one_inside_def)
  ultimately show ?thesis by (meson rtranclp.rtrancl_into_rtrancl rtranclp.rtrancl_refl)
qed

lemma spin_in_vain:
  "lock_queue_m s \<noteq> 0 \<Longrightarrow> owning_thread_m s \<noteq> t \<Longrightarrow> mac_step\<^sup>*\<^sup>* (goto t (Spin (Suc n)) s) (goto t Queue s)"
proof (induction n)
  case 0
  have "mac_step (goto t (Spin (Suc 0)) s) (goto t Queue s)"
    by (rule ms_in_enter [of t]) (use 0 in \<open>simp add: mac_Enter_def spin_again_def\<close>)
  then show ?case by simp
next
  case (Suc n)
  have "mac_step (goto t (Spin (Suc (Suc n))) s) (goto t (Spin (Suc n)) s)"
    by (rule ms_in_enter [of t]) (use Suc.prems in \<open>simp add: mac_Enter_def spin_again_def\<close>)
  then show ?case using Suc.IH [OF Suc.prems] by (rule converse_rtranclp_into_rtranclp)
qed

definition two_asleep :: mac_lock where
  "two_asleep = goto 2 Asleep (one_inside\<lparr>lock_queue_m := 2\<rparr>)"

lemma two_asleep_reachable: "mac_step\<^sup>*\<^sup>* mac_new two_asleep"
proof -
  have "mac_step one_inside (goto 2 (Spin 3000) one_inside)"
    by (rule ms_enter) (simp_all add: one_inside_def)
  moreover have "mac_step\<^sup>*\<^sup>* (goto 2 (Spin (Suc 2999)) one_inside) (goto 2 Queue one_inside)"
    by (rule spin_in_vain) (simp_all add: one_inside_def)
  moreover have "mac_step (goto 2 Queue one_inside) two_asleep"
    by (rule ms_in_enter [of 2])
      (simp add: mac_Enter_def Let_def, simp add: one_inside_def goto_def two_asleep_def mac_dcheck_def)
  ultimately show ?thesis
    using one_inside_reachable by simp
qed

section \<open>Properties\<close>

text \<open>C25. The lock on the recursive mutex, used by any threads in any order, keeps its debug
  counters equal to the state of the mutex and never fails a debug check; \<^verbatim>\<open>Enter\<close> blocks and
  \<^verbatim>\<open>TryEnter\<close> refuses exactly when another thread holds the lock, and a successful entry followed by
  \<^verbatim>\<open>Leave\<close> restores the lock.\<close>

theorem native_lock_correct:
  assumes "cs_run cs" and "t \<noteq> 0"
  shows "\<not> cs_dcheck_failed cs \<and>
    thread_m cs = (case mutex_m cs of None \<Rightarrow> 0 | Some (o', n) \<Rightarrow> o') \<and>
    recursion_count_m cs = (case mutex_m cs of None \<Rightarrow> 0 | Some (o', n) \<Rightarrow> int n) \<and>
    (Enter t cs = None \<longleftrightarrow> (\<exists>o' n. mutex_m cs = Some (o', n) \<and> o' \<noteq> t)) \<and>
    (fst (TryEnter t cs) \<longleftrightarrow> Enter t cs \<noteq> None) \<and>
    (fst (TryEnter t cs) \<longrightarrow> Enter t cs = Some (snd (TryEnter t cs))) \<and>
    CritScope t id cs = (if fst (TryEnter t cs) then Some cs else None)"
  using cs_run_ok [OF assms(1)] assms(2)
  by (elim cs_ok_cases)
    (auto simp: Enter_def TryEnter_def Leave_def CritScope_def cs_defs split: if_splits)

theorem native_lock_correct_witness: "CritScope 3 id RecursiveCriticalSection_new = Some RecursiveCriticalSection_new"
  using native_lock_correct [OF cr_new, of 3]
  by (simp add: TryEnter_def pthread_mutex_trylock_def RecursiveCriticalSection_new_def)

text \<open>C13. Mutual exclusion of the spinning lock: in every interleaving of calls of \<^verbatim>\<open>Enter\<close>,
  \<^verbatim>\<open>TryEnter\<close> and \<^verbatim>\<open>Leave\<close> by any number of threads, at most one thread is past the lock, no debug check fails,
  and the owner recorded is the thread inside.\<close>

theorem mac_lock_mutual_exclusion:
  assumes "mac_step\<^sup>*\<^sup>* mac_new s"
  shows "(pc s t = Inside \<and> pc s k = Inside \<longrightarrow> t = k) \<and>
    (pc s t = Inside \<longrightarrow> owning_thread_m s = t \<and> 1 \<le> recursion_m s) \<and>
    (pc s t = Inside \<and> k \<noteq> t \<longrightarrow> waiting_pc (pc s k)) \<and> \<not> mac_dcheck_failed s"
proof -
  note inv = mac.reachable [OF assms]
  have h: "held_by t s" if "pc s t = Inside" for t using holds [OF inv] that by simp
  show ?thesis
    using mac_invD(1) [OF inv] held_unique [OF h h] held_inside [OF h] held_others [OF h] by blast
qed

theorem mac_lock_mutual_exclusion_witness:
  "pc two_asleep 1 = Inside \<and> waiting_pc (pc two_asleep 2)"
  using mac_lock_mutual_exclusion [OF two_asleep_reachable, of 1 2]
  by (simp add: two_asleep_def one_inside_def)

text \<open>C14. No wake-up is lost: whenever a thread sleeps on the semaphore, some thread has the lock
  or is about to signal, or the semaphore already has the signal; the semaphore never holds more than one, and the
  queue counter is the number of sleeping threads plus what the holder contributes.\<close>

theorem mac_lock_no_lost_wakeup:
  assumes "mac_step\<^sup>*\<^sup>* mac_new s" and "pc s t = Asleep"
  shows "semaphore_m s \<le> 1 \<and> int (card (asleep s)) \<le> lock_queue_m s \<and>
    ((\<exists>h. held_by h s) \<or> semaphore_m s = 1 \<or> (\<exists>k. pc s k = LeaveSignal))"
proof -
  note inv = mac.reachable [OF assms(1)]
  have "asleep s \<noteq> {}" using assms(2) by (auto simp: asleep_def)
  show ?thesis
  proof (cases "free s")
    case True
    then have "semaphore_m s = 1 \<and> signalling s = {} \<or> semaphore_m s = 0 \<and> (\<exists>t. signalling s = {t})"
      using \<open>asleep s \<noteq> {}\<close> by (simp add: free_def)
    moreover have "int (card (asleep s)) \<le> lock_queue_m s" using True by (simp add: free_def)
    ultimately show ?thesis by (auto simp: signalling_def)
  next
    case False
    then obtain h where h: "held_by h s" using mac_invD(4) [OF inv] by blast
    then have "semaphore_m s = 0" "int (card (asleep s)) \<le> lock_queue_m s"
      using held_units_nonneg by (auto simp: held_by_def)
    with h show ?thesis by auto
  qed
qed

theorem mac_lock_no_lost_wakeup_witness: "semaphore_m two_asleep \<le> 1 \<and> 1 \<le> lock_queue_m two_asleep"
  using mac_lock_no_lost_wakeup [OF two_asleep_reachable, of 2]
  by (simp add: two_asleep_def one_inside_def)

end
