(* ===== verification/Dispatchers.thy ===== *)
theory Dispatchers
  imports TimeUtils
begin

unbundle bit_operations_syntax

text \<open>
  The POSIX half of \<^verbatim>\<open>src/event_loop_temp.h\<close> and \<^verbatim>\<open>src/event_loop_temp.cc\<close>: dispatchers, the signaler that wakes the
  loop up, and the loops on \<^verbatim>\<open>select\<close>, \<^verbatim>\<open>poll\<close> and \<^verbatim>\<open>epoll\<close>.

  The system is the argument \<open>S\<close>: constants, and calls as functions of the number of environment
  calls made so far.  The result of a waiting call is an error number, a time-out, or what is ready; \<open>elapse\<close> is
  what other threads do to the loop meanwhile.  The dispatchers other than the signaler are the argument \<open>D\<close>, the
  virtual members of the interface; \<^verbatim>\<open>OnEvent\<close> may do anything to the loop.  \<^verbatim>\<open>std::unordered_map\<close> is an
  association list in the order of its iteration.  \<^verbatim>\<open>ABSL_DCHECK\<close>s are recorded.  The \<^verbatim>\<open>eventfd\<close> of the signaler is
  its counter, \<open>None\<close> if it could not be created.
\<close>

section \<open>Data\<close>

definition DE_READ :: u32 where "DE_READ = 0x0001"
definition DE_WRITE :: u32 where "DE_WRITE = 0x0002"
definition DE_CONNECT :: u32 where "DE_CONNECT = 0x0004"
definition DE_CLOSE :: u32 where "DE_CLOSE = 0x0008"
definition DE_ACCEPT :: u32 where "DE_ACCEPT = 0x0010"

lemmas DE_defs = DE_READ_def DE_WRITE_def DE_CONNECT_def DE_CLOSE_def DE_ACCEPT_def

definition kForeverMs :: int where "kForeverMs = - 1"

record 'p EvenLoop =
  next_dispatcher_key_m :: u64
  dispatcher_by_key_m :: "(u64 \<times> 'p) list"
  key_by_dispatcher_m :: "('p \<times> u64) list"
  current_dispatcher_keys_m :: "u64 list"
  signal_wakeup_m :: "'p"
  fSignaled_m :: bool
  afd_count :: "nat option"
  fWait_m :: bool
  waiting_m :: bool
  el_dcheck_failed :: bool
  el_calls :: nat

record ('p, 'z) dispatcher_ops =
  requested_events :: "'p \<Rightarrow> ('p, 'z) EvenLoop_scheme \<Rightarrow> u32"
  on_event :: "'p \<Rightarrow> u32 \<Rightarrow> int \<Rightarrow> ('p, 'z) EvenLoop_scheme \<Rightarrow> ('p, 'z) EvenLoop_scheme"
  descriptor :: "'p \<Rightarrow> ('p, 'z) EvenLoop_scheme \<Rightarrow> int"
  descriptor_closed :: "'p \<Rightarrow> ('p, 'z) EvenLoop_scheme \<Rightarrow> bool"

record pollfd =
  fd :: int
  poll_events :: u16

record timeval =
  tv_sec :: int
  tv_usec :: int

datatype 'r wait_result = Error int | Timeout | Ready 'r

datatype epoll_op = EPOLL_CTL_ADD | EPOLL_CTL_MOD | EPOLL_CTL_DEL

record ('p, 'z) posix_api =
  ENOTSOCK :: int
  EBADF :: int
  EINTR :: int
  ENOENT :: int
  POLLIN :: u16
  POLLPRI :: u16
  POLLOUT :: u16
  POLLRDHUP :: u16
  POLLERR :: u16
  POLLHUP :: u16
  EPOLLIN :: u32
  EPOLLPRI :: u32
  EPOLLOUT :: u32
  EPOLLRDHUP :: u32
  EPOLLERR :: u32
  EPOLLHUP :: u32
  FD_SETSIZE :: int
  linux_or_fuchsia :: bool
  signal_fd :: int
  getsockopt :: "nat \<Rightarrow> int \<Rightarrow> int \<times> int \<times> int"
  select :: "nat \<Rightarrow> int list \<Rightarrow> int list \<Rightarrow> timeval option \<Rightarrow> (int list \<times> int list) wait_result"
  poll :: "nat \<Rightarrow> pollfd list \<Rightarrow> int \<Rightarrow> u16 list wait_result"
  epoll_wait :: "nat \<Rightarrow> int \<Rightarrow> (u64 \<times> u32) list wait_result"
  epoll_ctl :: "nat \<Rightarrow> epoll_op \<Rightarrow> int \<Rightarrow> u32 \<Rightarrow> u64 \<Rightarrow> int \<times> int"
  GetEpollEvents :: "u32 \<Rightarrow> u32"
  clock_nanos :: "nat \<Rightarrow> int"
  elapse :: "nat \<Rightarrow> ('p, 'z) EvenLoop_scheme \<Rightarrow> ('p, 'z) EvenLoop_scheme"

definition el_dcheck :: "bool \<Rightarrow> ('p, 'z) EvenLoop_scheme \<Rightarrow> ('p, 'z) EvenLoop_scheme" where
  "el_dcheck b s = (if b then s else s\<lparr>el_dcheck_failed := True\<rparr>)"

definition el_call :: "('p, 'z) EvenLoop_scheme \<Rightarrow> ('p, 'z) EvenLoop_scheme" where
  "el_call s = s\<lparr>el_calls := Suc (el_calls s)\<rparr>"

section \<open>The signaler\<close>

text \<open>\<^verbatim>\<open>Add\<close>, \<^verbatim>\<open>Remove\<close> and \<^verbatim>\<open>Update\<close> are empty in the source.\<close>

definition Add :: "'p \<Rightarrow> ('p, 'z) EvenLoop_scheme \<Rightarrow> ('p, 'z) EvenLoop_scheme" where
  "Add dispatcher s = s"

definition Remove :: "'p \<Rightarrow> ('p, 'z) EvenLoop_scheme \<Rightarrow> ('p, 'z) EvenLoop_scheme" where
  "Remove dispatcher s = s"

definition Update :: "'p \<Rightarrow> ('p, 'z) EvenLoop_scheme \<Rightarrow> ('p, 'z) EvenLoop_scheme" where
  "Update dispatcher s = s"

text \<open>The constructors: \<open>sig\<close> is the address of the new signaler, \<open>created\<close> whether the \<^verbatim>\<open>eventfd\<close> was.\<close>

definition Signaler_new :: "bool \<Rightarrow> 'p \<Rightarrow> ('p, 'z) EvenLoop_scheme \<Rightarrow> ('p, 'z) EvenLoop_scheme" where
  "Signaler_new created sig s =
     Add sig (s\<lparr>fSignaled_m := False, afd_count := (if created then Some 0 else None)\<rparr>)"

definition EvenLoop_new :: "bool \<Rightarrow> 'p \<Rightarrow> 'p EvenLoop" where
  "EvenLoop_new created sig =
     Signaler_new created sig
       \<lparr>next_dispatcher_key_m = 0, dispatcher_by_key_m = [], key_by_dispatcher_m = [],
        current_dispatcher_keys_m = [], signal_wakeup_m = sig, fSignaled_m = False, afd_count = None,
        fWait_m = False, waiting_m = False, el_dcheck_failed = False, el_calls = 0\<rparr>"

text \<open>The destructors: the signaler is removed and its descriptor closed unless its number is 0 or the failure -1; then the
  maps have to be empty.\<close>

definition Signaler_delete :: "int \<Rightarrow> ('p, 'z) EvenLoop_scheme \<Rightarrow> ('p, 'z) EvenLoop_scheme" where
  "Signaler_delete afd s =
     (let s = Remove (signal_wakeup_m s) s in if afd > 0 then s\<lparr>afd_count := None\<rparr> else s)"

definition EvenLoop_delete :: "int \<Rightarrow> ('p, 'z) EvenLoop_scheme \<Rightarrow> ('p, 'z) EvenLoop_scheme" where
  "EvenLoop_delete afd s =
     (let s = Signaler_delete afd s;
          s = el_dcheck (dispatcher_by_key_m s = []) s
      in el_dcheck (key_by_dispatcher_m s = []) s)"

text \<open>\<^verbatim>\<open>write\<close> adds one to the counter, \<^verbatim>\<open>read\<close> takes it and fails on an empty one.\<close>

definition Signal :: "('p, 'z) EvenLoop_scheme \<Rightarrow> ('p, 'z) EvenLoop_scheme" where
  "Signal s =
     (if fSignaled_m s then s
      else let s = el_dcheck (afd_count s \<noteq> None) (s\<lparr>afd_count := map_option Suc (afd_count s)\<rparr>)
           in s\<lparr>fSignaled_m := True\<rparr>)"

definition Signaler_OnEvent :: "u32 \<Rightarrow> int \<Rightarrow> ('p, 'z) EvenLoop_scheme \<Rightarrow> ('p, 'z) EvenLoop_scheme" where
  "Signaler_OnEvent ff err s =
     (let s = (if fSignaled_m s
               then (el_dcheck (\<exists>n. afd_count s = Some (Suc n))
                      (s\<lparr>afd_count := map_option (\<lambda>n. 0) (afd_count s)\<rparr>))\<lparr>fSignaled_m := False\<rparr>
               else s)
      in s\<lparr>fWait_m := False\<rparr>)"

definition EvenLoop_WakeUp :: "('p, 'z) EvenLoop_scheme \<Rightarrow> ('p, 'z) EvenLoop_scheme" where
  "EvenLoop_WakeUp s = Signal s"

section \<open>Dispatching\<close>

text \<open>The virtual members, with those of the signaler.\<close>

definition GetRequestedEvents :: "('p, 'z) dispatcher_ops \<Rightarrow> 'p \<Rightarrow> ('p, 'z) EvenLoop_scheme \<Rightarrow> u32" where
  "GetRequestedEvents D p s = (if p = signal_wakeup_m s then DE_READ else requested_events D p s)"

definition OnEvent ::
  "('p, 'z) dispatcher_ops \<Rightarrow> 'p \<Rightarrow> u32 \<Rightarrow> int \<Rightarrow> ('p, 'z) EvenLoop_scheme \<Rightarrow> ('p, 'z) EvenLoop_scheme" where
  "OnEvent D p ff err s = (if p = signal_wakeup_m s then Signaler_OnEvent ff err s else on_event D p ff err s)"

definition GetDescriptor ::
  "('p, 'z) posix_api \<Rightarrow> ('p, 'z) dispatcher_ops \<Rightarrow> 'p \<Rightarrow> ('p, 'z) EvenLoop_scheme \<Rightarrow> int" where
  "GetDescriptor S D p s = (if p = signal_wakeup_m s then signal_fd S else descriptor D p s)"

definition IsDescriptorClosed :: "('p, 'z) dispatcher_ops \<Rightarrow> 'p \<Rightarrow> ('p, 'z) EvenLoop_scheme \<Rightarrow> bool" where
  "IsDescriptorClosed D p s = (if p = signal_wakeup_m s then False else descriptor_closed D p s)"

definition socket_error ::
  "('p, 'z) posix_api \<Rightarrow> nat \<Rightarrow> int \<Rightarrow> bool \<Rightarrow> int" where
  "socket_error S n sfd error_event =
     (let (res, code, err) = getsockopt S n sfd
      in if res < 0 then (if error_event \<or> err \<noteq> ENOTSOCK S then EBADF S else 0) else code)"

definition event_flags :: "u32 \<Rightarrow> bool \<Rightarrow> bool \<Rightarrow> bool \<Rightarrow> int \<Rightarrow> u32" where
  "event_flags requested closed readable writable errcode =
     (let ff = (0 :: u32);
          ff = (if readable
                then if errcode \<noteq> 0 \<or> closed then ff OR DE_CLOSE
                     else if requested AND DE_ACCEPT \<noteq> 0 then ff OR DE_ACCEPT
                     else ff OR DE_READ
                else ff);
          ff = (if writable
                then if requested AND DE_CONNECT \<noteq> 0
                     then if errcode = 0 then ff OR DE_CONNECT else ff
                     else ff OR DE_WRITE
                else ff)
      in if errcode \<noteq> 0 then ff OR DE_CLOSE else ff)"

definition ProcessEvents ::
  "('p, 'z) posix_api \<Rightarrow> ('p, 'z) dispatcher_ops \<Rightarrow> 'p \<Rightarrow> bool \<Rightarrow> bool \<Rightarrow> bool \<Rightarrow> bool
     \<Rightarrow> ('p, 'z) EvenLoop_scheme \<Rightarrow> ('p, 'z) EvenLoop_scheme" where
  "ProcessEvents S D dispatcher readable writable error_event check_error s =
     (let s = el_dcheck (\<not> (error_event \<and> \<not> check_error)) s;
          errcode = (if check_error
                     then socket_error S (el_calls s) (GetDescriptor S D dispatcher s) error_event
                     else 0);
          s = (if check_error then el_call s else s);
          ff = event_flags (GetRequestedEvents D dispatcher s) (IsDescriptorClosed D dispatcher s)
                 readable writable errcode
      in if ff \<noteq> 0 then OnEvent D dispatcher ff errcode s else s)"

definition ProcessPollEvents ::
  "('p, 'z) posix_api \<Rightarrow> ('p, 'z) dispatcher_ops \<Rightarrow> 'p \<Rightarrow> u16
     \<Rightarrow> ('p, 'z) EvenLoop_scheme \<Rightarrow> ('p, 'z) EvenLoop_scheme" where
  "ProcessPollEvents S D dispatcher revents s =
     (let readable = (revents AND (POLLIN S OR POLLPRI S) \<noteq> 0);
          writable = (revents AND POLLOUT S \<noteq> 0);
          kEvents = (if linux_or_fuchsia S then POLLRDHUP S OR POLLERR S OR POLLHUP S else POLLERR S OR POLLHUP S);
          error = (revents AND kEvents \<noteq> 0)
      in ProcessEvents S D dispatcher readable writable error error s)"

definition DispatcherToPollfd ::
  "('p, 'z) posix_api \<Rightarrow> ('p, 'z) dispatcher_ops \<Rightarrow> 'p \<Rightarrow> ('p, 'z) EvenLoop_scheme \<Rightarrow> pollfd" where
  "DispatcherToPollfd S D dispatcher s =
     (let ff = GetRequestedEvents D dispatcher s;
          evs = (0 :: u16);
          evs = (if ff AND (DE_READ OR DE_ACCEPT) \<noteq> 0 then evs OR POLLIN S else evs);
          evs = (if ff AND (DE_WRITE OR DE_CONNECT) \<noteq> 0 then evs OR POLLOUT S else evs)
      in \<lparr>fd = GetDescriptor S D dispatcher s, poll_events = evs\<rparr>)"

section \<open>Waiting\<close>

definition EvenLoop_ToCmsWait :: "('d, 'y) absl_duration_scheme \<Rightarrow> 'd \<Rightarrow> int" where
  "EvenLoop_ToCmsWait A max_wait_duration =
     to_int32 (if max_wait_duration = InfiniteDuration A then kForeverMs
               else max 1 (ToInt64Milliseconds A max_wait_duration))"

text \<open>The dispatcher of a key, if it still has one, and the handlers of a list of keys.\<close>

definition for_key ::
  "('p \<Rightarrow> 'e \<Rightarrow> ('p, 'z) EvenLoop_scheme \<Rightarrow> ('p, 'z) EvenLoop_scheme) \<Rightarrow> u64 \<times> 'e
     \<Rightarrow> ('p, 'z) EvenLoop_scheme \<Rightarrow> ('p, 'z) EvenLoop_scheme" where
  "for_key handle ke s =
     (case map_of (dispatcher_by_key_m s) (fst ke) of
        None \<Rightarrow> s
      | Some pdispatcher \<Rightarrow> handle pdispatcher (snd ke) s)"

text \<open>
  The end of an iteration of the loops on \<^verbatim>\<open>poll\<close> and \<^verbatim>\<open>epoll\<close>: the time left, \<open>None\<close> to return.
  \<^verbatim>\<open>WaitEpoll\<close> stops when no time is left, \<^verbatim>\<open>WaitPoll\<close> and \<^verbatim>\<open>WaitPollOneDispatcher\<close> one call later.
\<close>

definition time_left ::
  "('p, 'z) posix_api \<Rightarrow> bool \<Rightarrow> int \<Rightarrow> int \<Rightarrow> int \<Rightarrow> ('p, 'z) EvenLoop_scheme
     \<Rightarrow> int option \<times> ('p, 'z) EvenLoop_scheme" where
  "time_left S at_zero cmsWait msStop msWait s =
     (if cmsWait \<noteq> kForeverMs
      then let msWait = TimeDiff msStop (TimeMillis (clock_nanos S (el_calls s)))
           in (if msWait < 0 \<or> at_zero \<and> msWait = 0 then None else Some msWait, el_call s)
      else (Some msWait, s))"

text \<open>\<^verbatim>\<open>msWait\<close> and \<^verbatim>\<open>msStop\<close> at the start.\<close>

definition start_wait ::
  "('p, 'z) posix_api \<Rightarrow> int \<Rightarrow> ('p, 'z) EvenLoop_scheme \<Rightarrow> int \<times> int \<times> ('p, 'z) EvenLoop_scheme" where
  "start_wait S cmsWait s =
     (if cmsWait \<noteq> kForeverMs
      then (cmsWait, TimeAfter (clock_nanos S (el_calls s)) cmsWait, el_call s)
      else (- 1, - 1, s))"

text \<open>What the loops share: one call that waits, and handling what is ready.\<close>

definition after_wait ::
  "('p, 'z) posix_api \<Rightarrow> ('r \<Rightarrow> ('p, 'z) EvenLoop_scheme \<Rightarrow> ('p, 'z) EvenLoop_scheme) \<Rightarrow> 'r wait_result
     \<Rightarrow> ('p, 'z) EvenLoop_scheme \<Rightarrow> bool option \<times> ('p, 'z) EvenLoop_scheme" where
  "after_wait S handle result s =
     (let s = elapse S (el_calls s) (el_call s)
      in case result of
           Error err \<Rightarrow> if err \<noteq> EINTR S then (Some False, s) else (None, s)
         | Timeout \<Rightarrow> (Some True, s)
         | Ready r \<Rightarrow> (None, handle r s))"

definition process_epoll_event ::
  "('p, 'z) posix_api \<Rightarrow> ('p, 'z) dispatcher_ops \<Rightarrow> 'p \<Rightarrow> u32
     \<Rightarrow> ('p, 'z) EvenLoop_scheme \<Rightarrow> ('p, 'z) EvenLoop_scheme" where
  "process_epoll_event S D pdispatcher evs s =
     (let readable = (evs AND (EPOLLIN S OR EPOLLPRI S) \<noteq> 0);
          writable = (evs AND EPOLLOUT S \<noteq> 0);
          error = (evs AND (EPOLLRDHUP S OR EPOLLERR S OR EPOLLHUP S) \<noteq> 0)
      in ProcessEvents S D pdispatcher readable writable error error s)"

partial_function (option) epoll_loop ::
  "('p, 'z) posix_api \<Rightarrow> ('p, 'z) dispatcher_ops \<Rightarrow> int \<Rightarrow> int \<Rightarrow> int
     \<Rightarrow> ('p, 'z) EvenLoop_scheme \<Rightarrow> (bool \<times> ('p, 'z) EvenLoop_scheme) option" where
  "epoll_loop S D cmsWait msStop msWait s =
     (if \<not> fWait_m s then Some (True, s)
      else
        let (ret, s) = after_wait S (fold (for_key (process_epoll_event S D)))
                         (epoll_wait S (el_calls s) (to_int32 msWait)) s
        in case ret of
             Some r \<Rightarrow> Some (r, s)
           | None \<Rightarrow>
               let (left, s) = time_left S True cmsWait msStop msWait s
               in case left of None \<Rightarrow> Some (True, s) | Some msWait \<Rightarrow> epoll_loop S D cmsWait msStop msWait s)"

definition WaitEpoll ::
  "('p, 'z) posix_api \<Rightarrow> ('p, 'z) dispatcher_ops \<Rightarrow> int
     \<Rightarrow> ('p, 'z) EvenLoop_scheme \<Rightarrow> (bool \<times> ('p, 'z) EvenLoop_scheme) option" where
  "WaitEpoll S D cmsWait s =
     (let (msWait, msStop, s) = start_wait S cmsWait s
      in epoll_loop S D cmsWait msStop msWait (s\<lparr>fWait_m := True\<rparr>))"

partial_function (option) poll_one_loop ::
  "('p, 'z) posix_api \<Rightarrow> ('p, 'z) dispatcher_ops \<Rightarrow> 'p \<Rightarrow> int \<Rightarrow> int \<Rightarrow> int \<Rightarrow> int
     \<Rightarrow> ('p, 'z) EvenLoop_scheme \<Rightarrow> (bool \<times> ('p, 'z) EvenLoop_scheme) option" where
  "poll_one_loop S D dispatcher dfd cmsWait msStop msWait s =
     (if \<not> fWait_m s then Some (True, s)
      else
        let fds = DispatcherToPollfd S D dispatcher s;
            (ret, s) = after_wait S
                (\<lambda>revents s. ProcessPollEvents S D dispatcher (hd revents)
                   (el_dcheck (fd fds = dfd) (el_dcheck (length revents = 1) s)))
                (poll S (el_calls s) [fds] (to_int32 msWait)) s
        in case ret of
             Some r \<Rightarrow> Some (r, s)
           | None \<Rightarrow>
               let (left, s) = time_left S False cmsWait msStop msWait s
               in case left of
                    None \<Rightarrow> Some (True, s)
                  | Some msWait \<Rightarrow> poll_one_loop S D dispatcher dfd cmsWait msStop msWait s)"

definition WaitPollOneDispatcher ::
  "('p, 'z) posix_api \<Rightarrow> ('p, 'z) dispatcher_ops \<Rightarrow> int \<Rightarrow> 'p
     \<Rightarrow> ('p, 'z) EvenLoop_scheme \<Rightarrow> (bool \<times> ('p, 'z) EvenLoop_scheme) option" where
  "WaitPollOneDispatcher S D cmsWait dispatcher s =
     (let (msWait, msStop, s) = start_wait S cmsWait s;
          s = s\<lparr>fWait_m := True\<rparr>
      in poll_one_loop S D dispatcher (GetDescriptor S D dispatcher s) cmsWait msStop msWait s)"

text \<open>The snapshot that \<^verbatim>\<open>WaitPoll\<close> and \<^verbatim>\<open>WaitSelect\<close> take of the dispatchers.\<close>

definition snapshot :: "bool \<Rightarrow> ('p, 'z) EvenLoop_scheme \<Rightarrow> (u64 \<times> 'p) list" where
  "snapshot process_io s =
     filter (\<lambda>kv. process_io \<or> snd kv = signal_wakeup_m s) (dispatcher_by_key_m s)"

partial_function (option) poll_loop ::
  "('p, 'z) posix_api \<Rightarrow> ('p, 'z) dispatcher_ops \<Rightarrow> bool \<Rightarrow> int \<Rightarrow> int \<Rightarrow> int
     \<Rightarrow> ('p, 'z) EvenLoop_scheme \<Rightarrow> (bool \<times> ('p, 'z) EvenLoop_scheme) option" where
  "poll_loop S D process_io cmsWait msStop msWait s =
     (if \<not> fWait_m s then Some (True, s)
      else
        let kvs = snapshot process_io s;
            s = s\<lparr>current_dispatcher_keys_m := map fst kvs\<rparr>;
            pollfds = map (\<lambda>kv. DispatcherToPollfd S D (snd kv) s) kvs;
            (ret, s) = after_wait S
                (\<lambda>revents s. fold (for_key (ProcessPollEvents S D))
                   (zip (current_dispatcher_keys_m s) revents) s)
                (poll S (el_calls s) pollfds (to_int32 msWait)) s
        in case ret of
             Some r \<Rightarrow> Some (r, s)
           | None \<Rightarrow>
               let (left, s) = time_left S False cmsWait msStop msWait s
               in case left of
                    None \<Rightarrow> Some (True, s)
                  | Some msWait \<Rightarrow> poll_loop S D process_io cmsWait msStop msWait s)"

definition WaitPoll ::
  "('p, 'z) posix_api \<Rightarrow> ('p, 'z) dispatcher_ops \<Rightarrow> int \<Rightarrow> bool
     \<Rightarrow> ('p, 'z) EvenLoop_scheme \<Rightarrow> (bool \<times> ('p, 'z) EvenLoop_scheme) option" where
  "WaitPoll S D cmsWait process_io s =
     (let (msWait, msStop, s) = start_wait S cmsWait s
      in poll_loop S D process_io cmsWait msStop msWait (s\<lparr>fWait_m := True\<rparr>))"

subsection \<open>The loop on select\<close>

text \<open>The descriptors passed to \<^verbatim>\<open>select\<close>: those of the dispatchers that ask for one of the events.\<close>

definition fd_set ::
  "('p, 'z) posix_api \<Rightarrow> ('p, 'z) dispatcher_ops \<Rightarrow> u32 \<Rightarrow> (u64 \<times> 'p) list
     \<Rightarrow> ('p, 'z) EvenLoop_scheme \<Rightarrow> int list" where
  "fd_set S D evs kvs s =
     map (\<lambda>kv. GetDescriptor S D (snd kv) s) (filter (\<lambda>kv. GetRequestedEvents D (snd kv) s AND evs \<noteq> 0) kvs)"

text \<open>One dispatcher after \<^verbatim>\<open>select\<close> returned: \<^verbatim>\<open>FD_ISSET\<close> and \<^verbatim>\<open>FD_CLR\<close> on the two sets.\<close>

definition process_selected ::
  "('p, 'z) posix_api \<Rightarrow> ('p, 'z) dispatcher_ops \<Rightarrow> u64
     \<Rightarrow> int list \<times> int list \<times> ('p, 'z) EvenLoop_scheme
     \<Rightarrow> int list \<times> int list \<times> ('p, 'z) EvenLoop_scheme" where
  "process_selected S D key rws =
     (let (fdsRead, fdsWrite, s) = rws
      in case map_of (dispatcher_by_key_m s) key of
           None \<Rightarrow> rws
         | Some pdispatcher \<Rightarrow>
             let sfd = GetDescriptor S D pdispatcher s;
                 readable = (sfd \<in> set fdsRead);
                 writable = (sfd \<in> set fdsWrite)
             in (removeAll sfd fdsRead, removeAll sfd fdsWrite,
                 ProcessEvents S D pdispatcher readable writable False (readable \<or> writable) s))"

definition remaining_timeval :: "('p, 'z) posix_api \<Rightarrow> int \<Rightarrow> ('p, 'z) EvenLoop_scheme \<Rightarrow> timeval" where
  "remaining_timeval S stop_us s =
     (let time_left_us = stop_us - TimeMicros (clock_nanos S (el_calls s))
      in if time_left_us > 0
         then \<lparr>tv_sec = time_left_us sdiv kNumMicrosecsPerSec, tv_usec = time_left_us smod kNumMicrosecsPerSec\<rparr>
         else \<lparr>tv_sec = 0, tv_usec = 0\<rparr>)"

partial_function (option) select_loop ::
  "('p, 'z) posix_api \<Rightarrow> ('p, 'z) dispatcher_ops \<Rightarrow> bool \<Rightarrow> int \<Rightarrow> timeval option
     \<Rightarrow> ('p, 'z) EvenLoop_scheme \<Rightarrow> (bool \<times> ('p, 'z) EvenLoop_scheme) option" where
  "select_loop S D process_io stop_us ptvWait s =
     (if \<not> fWait_m s then Some (True, s)
      else
        let kvs = snapshot process_io s;
            s = s\<lparr>current_dispatcher_keys_m := map fst kvs\<rparr>;
            s = el_dcheck (\<forall>kv \<in> set kvs. GetDescriptor S D (snd kv) s < FD_SETSIZE S) s;
            (ret, s) = after_wait S
                (\<lambda>(fdsRead, fdsWrite) s. snd (snd (fold (process_selected S D) (current_dispatcher_keys_m s)
                   (fdsRead, fdsWrite, s))))
                (select S (el_calls s) (fd_set S D (DE_READ OR DE_ACCEPT) kvs s)
                   (fd_set S D (DE_WRITE OR DE_CONNECT) kvs s) ptvWait) s
        in case ret of
             Some r \<Rightarrow> Some (r, s)
           | None \<Rightarrow>
               (case ptvWait of
                  None \<Rightarrow> select_loop S D process_io stop_us None s
                | Some tv \<Rightarrow> select_loop S D process_io stop_us (Some (remaining_timeval S stop_us s)) (el_call s)))"

text \<open>
  \<^verbatim>\<open>cmsWait * 1000\<close> is a product of \<^verbatim>\<open>int\<close>s, which wraps on the targets' hardware (and is undefined
  behaviour by the standard).
\<close>

definition WaitSelect ::
  "('p, 'z) posix_api \<Rightarrow> ('p, 'z) dispatcher_ops \<Rightarrow> int \<Rightarrow> bool
     \<Rightarrow> ('p, 'z) EvenLoop_scheme \<Rightarrow> (bool \<times> ('p, 'z) EvenLoop_scheme) option" where
  "WaitSelect S D cmsWait process_io s =
     (if cmsWait \<noteq> kForeverMs
      then select_loop S D process_io (TimeMicros (clock_nanos S (el_calls s)) + to_int32 (cmsWait * 1000))
             (Some \<lparr>tv_sec = cmsWait sdiv 1000, tv_usec = (cmsWait smod 1000) * 1000\<rparr>)
             ((el_call s)\<lparr>fWait_m := True\<rparr>)
      else select_loop S D process_io 0 None (s\<lparr>fWait_m := True\<rparr>))"

text \<open>\<^verbatim>\<open>ScopedSetTrue\<close> on the flag \<^verbatim>\<open>waiting_\<close>.\<close>

definition ScopedSetTrue_new :: "('p, 'z) EvenLoop_scheme \<Rightarrow> ('p, 'z) EvenLoop_scheme" where
  "ScopedSetTrue_new s = (el_dcheck (\<not> waiting_m s) s)\<lparr>waiting_m := True\<rparr>"

definition ScopedSetTrue_delete :: "('p, 'z) EvenLoop_scheme \<Rightarrow> ('p, 'z) EvenLoop_scheme" where
  "ScopedSetTrue_delete s = s\<lparr>waiting_m := False\<rparr>"

text \<open>The build with \<^verbatim>\<open>epoll\<close>; \<open>epoll_fd\<close> is -1 if it could not be created.\<close>

definition EvenLoop_Wait ::
  "('p, 'z) posix_api \<Rightarrow> ('p, 'z) dispatcher_ops \<Rightarrow> ('d, 'y) absl_duration_scheme \<Rightarrow> int \<Rightarrow> 'd \<Rightarrow> bool
     \<Rightarrow> ('p, 'z) EvenLoop_scheme \<Rightarrow> (bool \<times> ('p, 'z) EvenLoop_scheme) option" where
  "EvenLoop_Wait S D A epoll_fd max_wait_duration process_io s =
     (let s = el_dcheck (\<not> waiting_m s) s;
          s = ScopedSetTrue_new s;
          cmsWait = EvenLoop_ToCmsWait A max_wait_duration;
          result = (if \<not> process_io then WaitPollOneDispatcher S D cmsWait (signal_wakeup_m s) s
                    else if epoll_fd \<noteq> - 1 then WaitEpoll S D cmsWait s
                    else WaitSelect S D cmsWait process_io s)
      in map_option (\<lambda>(r, s). (r, ScopedSetTrue_delete s)) result)"

section \<open>The epoll set\<close>

text \<open>
  The calls of \<^verbatim>\<open>epoll_ctl\<close> an operation makes, in order; the argument \<open>ret\<close> of a call is its return
  value and the error number.
\<close>

definition AddEpoll ::
  "('p, 'z) posix_api \<Rightarrow> ('p, 'z) dispatcher_ops \<Rightarrow> int \<Rightarrow> 'p \<Rightarrow> u64 \<Rightarrow> ('p, 'z) EvenLoop_scheme
     \<Rightarrow> (epoll_op \<times> int \<times> u32 \<times> u64) list \<times> ('p, 'z) EvenLoop_scheme" where
  "AddEpoll S D epoll_fd pdispatcher key s =
     (let s = el_dcheck (epoll_fd \<noteq> - 1) s;
          dfd = GetDescriptor S D pdispatcher s;
          s = el_dcheck (dfd \<noteq> - 1) s
      in if dfd = - 1 then ([], s)
         else
           let evs = GetEpollEvents S (GetRequestedEvents D pdispatcher s)
           in if evs = 0 then ([], s)
              else
                let (err, eno) = epoll_ctl S (el_calls s) EPOLL_CTL_ADD dfd evs key
                in ([(EPOLL_CTL_ADD, dfd, evs, key)], el_dcheck (err = 0) (el_call s)))"

definition RemoveEpoll ::
  "('p, 'z) posix_api \<Rightarrow> ('p, 'z) dispatcher_ops \<Rightarrow> int \<Rightarrow> 'p \<Rightarrow> ('p, 'z) EvenLoop_scheme
     \<Rightarrow> (epoll_op \<times> int \<times> u32 \<times> u64) list \<times> ('p, 'z) EvenLoop_scheme" where
  "RemoveEpoll S D epoll_fd pdispatcher s =
     (let s = el_dcheck (epoll_fd \<noteq> - 1) s;
          dfd = GetDescriptor S D pdispatcher s;
          s = el_dcheck (dfd \<noteq> - 1) s
      in if dfd = - 1 then ([], s)
         else
           let (err, eno) = epoll_ctl S (el_calls s) EPOLL_CTL_DEL dfd 0 0
           in ([(EPOLL_CTL_DEL, dfd, 0, 0)], el_dcheck (err = 0 \<or> eno = ENOENT S) (el_call s)))"

definition UpdateEpoll ::
  "('p, 'z) posix_api \<Rightarrow> ('p, 'z) dispatcher_ops \<Rightarrow> int \<Rightarrow> 'p \<Rightarrow> u64 \<Rightarrow> ('p, 'z) EvenLoop_scheme
     \<Rightarrow> (epoll_op \<times> int \<times> u32 \<times> u64) list \<times> ('p, 'z) EvenLoop_scheme" where
  "UpdateEpoll S D epoll_fd pdispatcher key s =
     (let s = el_dcheck (epoll_fd \<noteq> - 1) s;
          dfd = GetDescriptor S D pdispatcher s;
          s = el_dcheck (dfd \<noteq> - 1) s
      in if dfd = - 1 then ([], s)
         else
           let evs = GetEpollEvents S (GetRequestedEvents D pdispatcher s)
           in if evs = 0 then ([(EPOLL_CTL_DEL, dfd, evs, key)], el_call s)
              else
                let (err, eno) = epoll_ctl S (el_calls s) EPOLL_CTL_MOD dfd evs key;
                    s = el_dcheck (err = 0 \<or> eno = ENOENT S) (el_call s)
                in if err = - 1 \<and> eno = ENOENT S
                   then ([(EPOLL_CTL_MOD, dfd, evs, key), (EPOLL_CTL_ADD, dfd, evs, key)], el_call s)
                   else ([(EPOLL_CTL_MOD, dfd, evs, key)], s))"

section \<open>Lemmas\<close>

definition signaler_ok :: "('p, 'z) EvenLoop_scheme \<Rightarrow> bool" where
  "signaler_ok s \<longleftrightarrow> afd_count s = Some (if fSignaled_m s then 1 else 0)"

text \<open>
  What the loop relies on in its signaler, here and on Windows: a signal stays pending until it is delivered, any number
  of signals is delivered once, and a delivery ends the wait.
\<close>

locale wake_signal =
  fixes signal deliver :: "'s \<Rightarrow> 's" and pending waits usable :: "'s \<Rightarrow> bool"
  assumes signal_signal: "signal (signal s) = signal s"
    and pending_signal: "usable s \<Longrightarrow> pending (signal s)"
    and not_pending: "\<not> pending (deliver s)"
    and not_waits: "\<not> waits (deliver s)"
    and usable_signal: "usable (signal s) \<longleftrightarrow> usable s"
begin

lemma signals_collapse: "(signal ^^ Suc n) s = signal s"
  by (induction n) (simp_all add: signal_signal)

lemma signals_delivered_once:
  assumes "usable s"
  shows "pending ((signal ^^ Suc n) s) \<and> \<not> pending (deliver ((signal ^^ Suc n) s)) \<and> \<not> waits (deliver ((signal ^^ Suc n) s))"
  unfolding signals_collapse using pending_signal [OF assms] not_pending not_waits by blast

end

interpretation eventfd: wake_signal Signal "Signaler_OnEvent ff err" fSignaled_m fWait_m "\<lambda>s. True"
  by unfold_locales (simp_all add: Signal_def Signaler_OnEvent_def el_dcheck_def Let_def)

text \<open>\<^verbatim>\<open>ScopedSetTrue\<close> is a scoped variable wherever its debug check holds.\<close>

interpretation waiting_flag: scoped_variable waiting_m "\<lambda>v s. s\<lparr>waiting_m := v\<rparr>"
  by unfold_locales simp_all

lemma ScopedSetTrue_scope:
  "\<not> waiting_m s \<Longrightarrow>
     ScopedSetTrue_delete (body (ScopedSetTrue_new s)) = scope waiting_m (\<lambda>v s. s\<lparr>waiting_m := v\<rparr>) True body s"
  by (simp add: ScopedSetTrue_delete_def ScopedSetTrue_new_def scope_def el_dcheck_def)

lemma GetDescriptor_fields:
  "signal_wakeup_m (el_dcheck b s) = signal_wakeup_m s" "signal_wakeup_m (el_call s) = signal_wakeup_m s"
  "fWait_m (el_dcheck b s) = fWait_m s" "fWait_m (el_call s) = fWait_m s"
  "el_calls (el_dcheck b s) = el_calls s" "el_calls (el_call s) = Suc (el_calls s)"
  "dispatcher_by_key_m (el_dcheck b s) = dispatcher_by_key_m s" "dispatcher_by_key_m (el_call s) = dispatcher_by_key_m s"
  by (simp_all add: el_dcheck_def el_call_def)

lemma fWait_Signaler_OnEvent: "\<not> fWait_m (Signaler_OnEvent ff err s)"
  by (simp add: Signaler_OnEvent_def Let_def)

lemma ProcessEvents_signaler:
  assumes "p = signal_wakeup_m s" and "readable"
  shows "\<not> fWait_m (ProcessEvents S D p readable w e e s)"
proof -
  have "event_flags DE_READ False True w errcode \<noteq> 0" for errcode
    by (auto simp: event_flags_def DE_defs)
  then show ?thesis
    using assms by (simp add: ProcessEvents_def Let_def GetRequestedEvents_def IsDescriptorClosed_def OnEvent_def
        GetDescriptor_fields fWait_Signaler_OnEvent)
qed

text \<open>
  A loop whose iterations either return or make environment calls, and return once enough calls were made, ends.
\<close>

lemma counted_loop_ends:
  fixes calls :: "'s \<Rightarrow> nat"
  assumes unfold: "\<And>m s. f m s = (case step m s of Inl r \<Rightarrow> Some r | Inr ms \<Rightarrow> f (fst ms) (snd ms))"
    and progress: "\<And>m s ms. step m s = Inr ms \<Longrightarrow> calls s < calls (snd ms)"
    and stop: "\<And>m s. K \<le> calls s \<Longrightarrow> \<exists>r. step m s = Inl r"
  shows "\<exists>r. f m s = Some r"
proof (induction "K - calls s" arbitrary: m s rule: less_induct)
  case less
  show ?case
  proof (cases "step m s")
    case (Inl r)
    then show ?thesis by (simp add: unfold)
  next
    case (Inr ms)
    then have "calls s < K" using stop [of s m] by (metis leI sum.distinct(1))
    with progress [OF Inr] have "K - calls (snd ms) < K - calls s" by linarith
    from less [OF this] Inr show ?thesis by (simp add: unfold)
  qed
qed

text \<open>What the environment does never undoes calls.\<close>

definition calls_mono :: "('p, 'z) posix_api \<Rightarrow> ('p, 'z) dispatcher_ops \<Rightarrow> bool" where
  "calls_mono S D \<longleftrightarrow> (\<forall>n s. el_calls s \<le> el_calls (elapse S n s)) \<and>
     (\<forall>p ff err s. el_calls s \<le> el_calls (on_event D p ff err s))"

lemma ProcessEvents_calls:
  assumes "calls_mono S D"
  shows "el_calls s \<le> el_calls (ProcessEvents S D p r w e c s)"
proof -
  have "el_calls s \<le> el_calls (OnEvent D p ff err s)" for ff err s
    using assms by (auto simp: OnEvent_def calls_mono_def Signaler_OnEvent_def el_dcheck_def Let_def)
  from this [of "el_call (el_dcheck b s)" for b] this [of "el_dcheck b s" for b] show ?thesis
    by (auto simp: ProcessEvents_def Let_def GetDescriptor_fields intro: Suc_leD)
qed

lemma fold_for_key_calls:
  assumes "\<And>p e s. el_calls s \<le> el_calls (h p e s)"
  shows "el_calls s \<le> el_calls (fold (for_key h) kes s)"
proof (induction kes arbitrary: s)
  case (Cons ke kes)
  have "el_calls s \<le> el_calls (for_key h ke s)" using assms by (simp add: for_key_def split: option.split)
  then show ?case using Cons.IH [of "for_key h ke s"] by simp
qed simp

lemma after_wait_calls:
  assumes "calls_mono S D" and "\<And>r s. el_calls s \<le> el_calls (h r s)"
  shows "el_calls s < el_calls (snd (after_wait S h result s))"
proof -
  let ?s = "elapse S (el_calls s) (el_call s)"
  have "el_calls (el_call s) \<le> el_calls ?s" using assms(1) unfolding calls_mono_def by blast
  then have "el_calls s < el_calls ?s" by (simp add: GetDescriptor_fields)
  then show ?thesis
    using assms(2) [of ?s] by (auto simp: after_wait_def Let_def split: wait_result.split intro: less_le_trans)
qed

lemma time_left_calls: "el_calls s \<le> el_calls (snd (time_left S z cmsWait msStop msWait s))"
  by (simp add: time_left_def Let_def GetDescriptor_fields)

lemma time_left_stop:
  "cmsWait \<noteq> kForeverMs \<Longrightarrow> msStop < TimeMillis (clock_nanos S (el_calls s)) \<Longrightarrow>
     fst (time_left S z cmsWait msStop msWait s) = None"
  by (simp add: time_left_def Let_def time_defs)

text \<open>One iteration of a loop with a deadline: it returns, or goes on with the time left.\<close>

definition timed_iteration ::
  "('p, 'z) posix_api \<Rightarrow> (int \<Rightarrow> ('p, 'z) EvenLoop_scheme \<Rightarrow> bool option \<times> ('p, 'z) EvenLoop_scheme)
     \<Rightarrow> bool \<Rightarrow> int \<Rightarrow> int \<Rightarrow> int \<Rightarrow> ('p, 'z) EvenLoop_scheme
     \<Rightarrow> (bool \<times> ('p, 'z) EvenLoop_scheme) + (int \<times> ('p, 'z) EvenLoop_scheme)" where
  "timed_iteration S wait at_zero cmsWait msStop msWait s =
     (if \<not> fWait_m s then Inl (True, s)
      else case wait msWait s of
             (Some r, s) \<Rightarrow> Inl (r, s)
           | (None, s) \<Rightarrow>
               (case time_left S at_zero cmsWait msStop msWait s of
                  (None, s) \<Rightarrow> Inl (True, s)
                | (Some left, s) \<Rightarrow> Inr (left, s)))"

lemma timed_loop_ends:
  assumes unfold: "\<And>m s. f m s = (case timed_iteration S wait z cmsWait msStop m s of
        Inl r \<Rightarrow> Some r | Inr ms \<Rightarrow> f (fst ms) (snd ms))"
    and calls: "\<And>m s. el_calls s < el_calls (snd (wait m s))"
    and "cmsWait \<noteq> kForeverMs" and late: "\<And>n. K \<le> n \<Longrightarrow> msStop < TimeMillis (clock_nanos S n)"
  shows "\<exists>r. f m s = Some r"
proof (rule counted_loop_ends [where calls = el_calls and K = K, OF unfold])
  show "el_calls s < el_calls (snd ms)" if "timed_iteration S wait z cmsWait msStop m s = Inr ms" for m s ms
    using that calls [of s m] time_left_calls [of "snd (wait m s)" S z cmsWait msStop m]
    by (auto simp: timed_iteration_def split: if_splits prod.splits option.splits)
  show "\<exists>r. timed_iteration S wait z cmsWait msStop m s = Inl r" if "K \<le> el_calls s" for m s
  proof -
    have "K \<le> el_calls (snd (wait m s))" using that calls [of s m] by simp
    from time_left_stop [OF assms(3) late [OF this], of z m] show ?thesis
      by (auto simp: timed_iteration_def split: prod.split option.split)
  qed
qed

text \<open>The loops in terms of it.\<close>

definition epoll_once where
  "epoll_once S D m s = after_wait S (fold (for_key (process_epoll_event S D))) (epoll_wait S (el_calls s) (to_int32 m)) s"

definition poll_once where
  "poll_once S D process_io m s =
     (let kvs = snapshot process_io s; s = s\<lparr>current_dispatcher_keys_m := map fst kvs\<rparr>
      in after_wait S (\<lambda>revents s. fold (for_key (ProcessPollEvents S D)) (zip (current_dispatcher_keys_m s) revents) s)
           (poll S (el_calls s) (map (\<lambda>kv. DispatcherToPollfd S D (snd kv) s) kvs) (to_int32 m)) s)"

definition poll_one_once where
  "poll_one_once S D p dfd m s =
     after_wait S (\<lambda>revents s'. ProcessPollEvents S D p (hd revents)
        (el_dcheck (fd (DispatcherToPollfd S D p s) = dfd) (el_dcheck (length revents = 1) s')))
      (poll S (el_calls s) [DispatcherToPollfd S D p s] (to_int32 m)) s"

lemma epoll_loop_iteration:
  "epoll_loop S D cmsWait msStop m s = (case timed_iteration S (epoll_once S D) True cmsWait msStop m s of
      Inl r \<Rightarrow> Some r | Inr ms \<Rightarrow> epoll_loop S D cmsWait msStop (fst ms) (snd ms))"
  by (subst epoll_loop.simps)
    (simp add: timed_iteration_def epoll_once_def Let_def split: prod.split option.split)

lemma poll_loop_iteration:
  "poll_loop S D process_io cmsWait msStop m s =
     (case timed_iteration S (poll_once S D process_io) False cmsWait msStop m s of
        Inl r \<Rightarrow> Some r | Inr ms \<Rightarrow> poll_loop S D process_io cmsWait msStop (fst ms) (snd ms))"
  by (subst poll_loop.simps)
    (simp add: timed_iteration_def poll_once_def Let_def split: prod.split option.split)

lemma poll_one_loop_iteration:
  "poll_one_loop S D p dfd cmsWait msStop m s =
     (case timed_iteration S (poll_one_once S D p dfd) False cmsWait msStop m s of
        Inl r \<Rightarrow> Some r | Inr ms \<Rightarrow> poll_one_loop S D p dfd cmsWait msStop (fst ms) (snd ms))"
  by (subst poll_one_loop.simps)
    (simp add: timed_iteration_def poll_one_once_def Let_def split: prod.split option.split)

lemma once_calls:
  assumes mono: "calls_mono S D"
  shows "el_calls s < el_calls (snd (epoll_once S D m s))"
    and "el_calls s < el_calls (snd (poll_once S D process_io m s))"
    and "el_calls s < el_calls (snd (poll_one_once S D p dfd m s))"
proof -
  have ev: "el_calls s \<le> el_calls (process_epoll_event S D p e s)" "el_calls s \<le> el_calls (ProcessPollEvents S D p e' s)"
    for p e e' s
    using ProcessEvents_calls [OF mono] by (simp_all add: process_epoll_event_def ProcessPollEvents_def Let_def)
  show "el_calls s < el_calls (snd (epoll_once S D m s))"
    unfolding epoll_once_def by (rule after_wait_calls [OF mono fold_for_key_calls [OF ev(1)]])
  show "el_calls s < el_calls (snd (poll_once S D process_io m s))"
    using after_wait_calls [OF mono, where s = "s\<lparr>current_dispatcher_keys_m := map fst (snapshot process_io s)\<rparr>"
        and h = "\<lambda>revents s. fold (for_key (ProcessPollEvents S D)) (zip (current_dispatcher_keys_m s) revents) s",
        OF fold_for_key_calls [OF ev(2)]] by (simp add: poll_once_def Let_def)
  show "el_calls s < el_calls (snd (poll_one_once S D p dfd m s))"
    unfolding poll_one_once_def
    by (rule after_wait_calls [OF mono]) (use ev(2) in \<open>metis GetDescriptor_fields(5)\<close>)
qed

section \<open>Properties\<close>

text \<open>The flags a dispatcher is told: an error or a closed descriptor that is readable is
  reported as a close, a readable one otherwise as an accept or as data according to what was requested, a
  writable one as a connection only if there is no error, and as writable if no connection was
  requested; nothing else is ever reported, and the dispatcher is called exactly when some flag is set.\<close>

lemma event_flags_exact:
  "event_flags requested closed readable writable errcode =
     (if errcode = 0 \<and> \<not> (readable \<and> closed) then 0 else DE_CLOSE) OR
     (if readable \<and> errcode = 0 \<and> \<not> closed
      then if requested AND DE_ACCEPT \<noteq> 0 then DE_ACCEPT else DE_READ else 0) OR
     (if writable then if requested AND DE_CONNECT \<noteq> 0 then if errcode = 0 then DE_CONNECT else 0 else DE_WRITE else 0) \<and>
   (event_flags requested closed readable writable errcode = 0 \<longleftrightarrow> errcode = 0 \<and> \<not> readable \<and> \<not> writable)"
  by (auto simp: event_flags_def DE_defs)

text \<open>C29. The wake-up signal: in any sequence of signals and deliveries the counter of the \<^verbatim>\<open>eventfd\<close> is one
  exactly while a signal is pending, so no debug check fails, repeated signals are delivered once, and
  delivering clears the flag the waiting loop tests.\<close>

theorem signaler_correct:
  assumes "signaler_ok s"
  shows "signaler_ok (Signal s) \<and> signaler_ok (Signaler_OnEvent ff err s) \<and>
    fSignaled_m (Signal s) \<and> (Signal ^^ Suc n) s = Signal s \<and>
    \<not> fSignaled_m (Signaler_OnEvent ff err (Signal s)) \<and> afd_count (Signaler_OnEvent ff err (Signal s)) = Some 0 \<and>
    \<not> fWait_m (Signaler_OnEvent ff err s) \<and>
    el_dcheck_failed (Signal s) = el_dcheck_failed s \<and>
    el_dcheck_failed (Signaler_OnEvent ff err s) = el_dcheck_failed s \<and>
    signaler_ok (EvenLoop_new True sig)"
  unfolding eventfd.signals_collapse using assms
  by (auto simp: signaler_ok_def Signal_def Signaler_OnEvent_def el_dcheck_def Let_def EvenLoop_new_def
      Signaler_new_def Add_def)

theorem signaler_correct_witness: "fSignaled_m (Signal (EvenLoop_new True (0 :: nat)))"
  using signaler_correct [of "EvenLoop_new True (0 :: nat)"]
  by (simp add: signaler_ok_def EvenLoop_new_def Signaler_new_def Add_def)

text \<open>C30. A wait without I/O ends when the signaler is found readable: whatever the time-out, the
  iteration that sees the signal is the last and the wait returns true.\<close>

theorem wake_up_ends_wait:
  assumes "fWait_m s"
    and ready: "poll S (el_calls s) [DispatcherToPollfd S D (signal_wakeup_m s) s] (to_int32 msWait) = Ready [revents]"
    and "revents AND POLLIN S \<noteq> 0"
    and same: "signal_wakeup_m (elapse S (el_calls s) (el_call s)) = signal_wakeup_m s"
  shows "\<exists>s'. poll_one_loop S D (signal_wakeup_m s) dfd cmsWait msStop msWait s = Some (True, s') \<and> \<not> fWait_m s'"
proof -
  let ?p = "signal_wakeup_m s"
  let ?s1 = "elapse S (el_calls s) (el_call s)"
  let ?s2 = "ProcessPollEvents S D ?p revents (el_dcheck (fd (DispatcherToPollfd S D ?p s) = dfd) ?s1)"
  have "revents AND (POLLIN S OR POLLPRI S) \<noteq> 0"
    using assms(3) by (metis and.commute or_and_zero)
  then have f: "\<not> fWait_m ?s2"
    using same by (simp add: ProcessPollEvents_def Let_def ProcessEvents_signaler GetDescriptor_fields)
  have "after_wait S (\<lambda>revents s'. ProcessPollEvents S D ?p (hd revents)
        (el_dcheck (fd (DispatcherToPollfd S D ?p s) = dfd) (el_dcheck (length revents = 1) s')))
      (Ready [revents]) s = (None, ?s2)"
    by (simp add: after_wait_def Let_def el_dcheck_def)
  moreover obtain left s3 where t: "time_left S False cmsWait msStop msWait ?s2 = (left, s3)"
    by (cases "time_left S False cmsWait msStop msWait ?s2")
  ultimately have run: "poll_one_loop S D ?p dfd cmsWait msStop msWait s =
      (case left of None \<Rightarrow> Some (True, s3) | Some m \<Rightarrow> poll_one_loop S D ?p dfd cmsWait msStop m s3)"
    using assms(1) ready by (subst poll_one_loop.simps) (simp add: Let_def)
  have f3: "\<not> fWait_m s3"
    using t f by (auto simp: time_left_def Let_def GetDescriptor_fields split: if_splits)
  then have "poll_one_loop S D ?p dfd cmsWait msStop m s3 = Some (True, s3)" for m
    by (subst poll_one_loop.simps) simp
  with run f3 show ?thesis by (cases left) simp_all
qed

text \<open>The witnesses' system: the constants of Linux, a clock that advances a millisecond per call.\<close>

definition linux_api :: "(nat, unit) posix_api" where
  "linux_api = \<lparr>ENOTSOCK = 88, EBADF = 9, EINTR = 4, ENOENT = 2,
     POLLIN = 0x1, POLLPRI = 0x2, POLLOUT = 0x4, POLLRDHUP = 0x2000, POLLERR = 0x8, POLLHUP = 0x10,
     EPOLLIN = 0x1, EPOLLPRI = 0x2, EPOLLOUT = 0x4, EPOLLRDHUP = 0x2000, EPOLLERR = 0x8, EPOLLHUP = 0x10,
     FD_SETSIZE = 1024, linux_or_fuchsia = True, signal_fd = 7,
     getsockopt = (\<lambda>n sfd. (0, 0, 0)), select = (\<lambda>n r w tv. Timeout), poll = (\<lambda>n fds ms. Ready [1]),
     epoll_wait = (\<lambda>n ms. Error 4), epoll_ctl = (\<lambda>n op sfd evs key. (0, 0)),
     GetEpollEvents = id, clock_nanos = (\<lambda>n. int n * 1000000), elapse = (\<lambda>n s. s)\<rparr>"

definition no_dispatchers :: "(nat, unit) dispatcher_ops" where
  "no_dispatchers = \<lparr>requested_events = (\<lambda>p s. 0), on_event = (\<lambda>p ff err s. s),
     descriptor = (\<lambda>p s. - 1), descriptor_closed = (\<lambda>p s. False)\<rparr>"

definition signalled_loop :: "nat EvenLoop" where
  "signalled_loop = (Signal (EvenLoop_new True 0))\<lparr>fWait_m := True\<rparr>"

theorem wake_up_ends_wait_witness:
  "\<exists>s'. poll_one_loop linux_api no_dispatchers (signal_wakeup_m signalled_loop) 7 (- 1) (- 1) (- 1) signalled_loop =
     Some (True, s') \<and> \<not> fWait_m s'"
  by (rule wake_up_ends_wait [where revents = 1])
    (simp_all add: signalled_loop_def linux_api_def GetDescriptor_fields el_call_def)

text \<open>C28. A wait with a time-out returns: once the clock has passed the deadline for good, none of the loops on
  \<^verbatim>\<open>epoll\<close> and \<^verbatim>\<open>poll\<close> goes on, however often it was interrupted and whatever its handlers do.\<close>

theorem finite_waits_return:
  assumes mono: "calls_mono S D" and "cmsWait \<noteq> kForeverMs"
    and late: "\<And>n. K \<le> n \<Longrightarrow> TimeAfter (clock_nanos S (el_calls s)) cmsWait < TimeMillis (clock_nanos S n)"
  shows "(\<exists>r. WaitEpoll S D cmsWait s = Some r) \<and> (\<exists>r. WaitPoll S D cmsWait process_io s = Some r) \<and>
    (\<exists>r. WaitPollOneDispatcher S D cmsWait p s = Some r)"
proof -
  let ?stop = "TimeAfter (clock_nanos S (el_calls s)) cmsWait"
  have "\<exists>r. epoll_loop S D cmsWait ?stop m s' = Some r" for m s'
    by (rule timed_loop_ends [OF epoll_loop_iteration once_calls(1) [OF mono] assms(2) late])
  moreover have "\<exists>r. poll_loop S D process_io cmsWait ?stop m s' = Some r" for m s'
    by (rule timed_loop_ends [OF poll_loop_iteration once_calls(2) [OF mono] assms(2) late])
  moreover have "\<exists>r. poll_one_loop S D p dfd cmsWait ?stop m s' = Some r" for dfd m s'
    by (rule timed_loop_ends [OF poll_one_loop_iteration once_calls(3) [OF mono] assms(2) late])
  ultimately show ?thesis
    using assms(2) by (simp add: WaitEpoll_def WaitPoll_def WaitPollOneDispatcher_def start_wait_def Let_def)
qed

theorem finite_waits_return_witness:
  "\<exists>r. WaitEpoll linux_api no_dispatchers 3 (EvenLoop_new True 0) = Some r"
proof -
  have mono: "calls_mono linux_api no_dispatchers" by (simp add: calls_mono_def linux_api_def no_dispatchers_def)
  have late: "TimeAfter (clock_nanos linux_api (el_calls (EvenLoop_new True 0))) 3 < TimeMillis (clock_nanos linux_api n)"
    if "4 \<le> n" for n
    using that by (simp add: linux_api_def time_defs EvenLoop_new_def Signaler_new_def Add_def)
  have "(3 :: int) \<noteq> kForeverMs" by (simp add: kForeverMs_def)
  from finite_waits_return [OF mono this late] show ?thesis by blast
qed

text \<open>Handlers may remove dispatchers while a batch of events is delivered: an event whose key has lost its
  dispatcher is skipped, even if an object at the same address was added again under
  another key; in all three loops keys, not addresses, decide.\<close>

lemma removed_dispatcher_skipped:
  assumes "map_of (dispatcher_by_key_m (fold (for_key handle) before s)) key = None"
  shows "fold (for_key handle) (before @ (key, e) # after) s = fold (for_key handle) (before @ after) s \<and>
    process_selected S D key (r, w, fold (for_key handle) before s) = (r, w, fold (for_key handle) before s)"
  using assms by (simp_all add: for_key_def process_selected_def)

lemma removed_dispatcher_skipped_example:
  "fold (for_key (\<lambda>p e s. s)) ([] @ (3, ()) # []) (EvenLoop_new True (0 :: nat)) = EvenLoop_new True 0"
  using removed_dispatcher_skipped [of "\<lambda>p (e :: unit) s. s" "[]" "EvenLoop_new True (0 :: nat)" 3 "()" "[]"]
  by (simp add: EvenLoop_new_def Signaler_new_def Add_def)

text \<open>As the source stands, nothing is ever added to the loop: a new loop, woken up, has no dispatcher to
  poll or select, not even its signaler, and no event of any key is delivered, so a wake-up is
  heard only by a wait without I/O.\<close>

lemma wake_up_unheard:
  "snapshot process_io (EvenLoop_WakeUp (EvenLoop_new created sig)) = [] \<and>
   fold (for_key handle) events (EvenLoop_WakeUp (EvenLoop_new created sig)) = EvenLoop_WakeUp (EvenLoop_new created sig)"
proof -
  let ?s = "EvenLoop_WakeUp (EvenLoop_new created sig)"
  have d: "dispatcher_by_key_m ?s = []"
    by (simp add: EvenLoop_WakeUp_def Signal_def EvenLoop_new_def Signaler_new_def Add_def el_dcheck_def Let_def)
  then have "for_key handle ke ?s = ?s" for ke by (simp add: for_key_def)
  then have "fold (for_key handle) events ?s = ?s" by (induction events) simp_all
  with d show ?thesis by (simp add: snapshot_def)
qed

text \<open>The deadline of \<^verbatim>\<open>WaitSelect\<close> is computed in 32 bits: with a time-out of 2147484 milliseconds (about
  36 minutes) it lies in the past, so after the first interruption the remaining time is zero.\<close>

lemma select_deadline_overflow:
  "remaining_timeval linux_api
     (TimeMicros (clock_nanos linux_api n) + to_int32 (2147484 * 1000)) (s\<lparr>el_calls := n\<rparr>) = \<lparr>tv_sec = 0, tv_usec = 0\<rparr> \<and>
   remaining_timeval linux_api
     (TimeMicros (clock_nanos linux_api n) + to_int32 (2147483 * 1000)) (s\<lparr>el_calls := n\<rparr>) = \<lparr>tv_sec = 2147, tv_usec = 483000\<rparr>"
proof -
  have "to_int32 (2147484 * 1000) = - 2147483296" "to_int32 (2147483 * 1000) = 2147483000"
    by (simp_all add: to_int32_def to_uint32_def)
  then show ?thesis by (simp add: remaining_timeval_def Let_def)
qed

text \<open>
  The interest set the kernel keeps, and what the calls of \<^verbatim>\<open>epoll_ctl\<close> do to it: adding a descriptor that is there,
  and changing or deleting one that is not, fails and changes nothing.
\<close>

fun kernel_ctl :: "(int \<rightharpoonup> u32 \<times> u64) \<Rightarrow> epoll_op \<times> int \<times> u32 \<times> u64 \<Rightarrow> (int \<rightharpoonup> u32 \<times> u64)" where
  "kernel_ctl K (EPOLL_CTL_ADD, f, evs, key) = (if K f = None then K(f \<mapsto> (evs, key)) else K)"
| "kernel_ctl K (EPOLL_CTL_MOD, f, evs, key) = (if K f = None then K else K(f \<mapsto> (evs, key)))"
| "kernel_ctl K (EPOLL_CTL_DEL, f, evs, key) = K(f := None)"

text \<open>\<^verbatim>\<open>UpdateEpoll\<close> brings the kernel's interest in a descriptor up to date whatever it was before: no interest if
  no events are requested, otherwise exactly these events under the dispatcher's key, also when the
  descriptor had been dropped earlier; no debug check fails and other descriptors are untouched.
  \<^verbatim>\<open>AddEpoll\<close> followed by \<^verbatim>\<open>RemoveEpoll\<close> leaves no interest.\<close>

lemma UpdateEpoll_exact:
  assumes kernel: "\<And>f evs key. epoll_ctl S (el_calls s) EPOLL_CTL_MOD f evs key =
      (if K f = None then (- 1, ENOENT S) else (0, 0))"
    and "epoll_fd \<noteq> - 1" and "GetDescriptor S D p s \<noteq> - 1"
  defines "evs \<equiv> GetEpollEvents S (GetRequestedEvents D p s)"
  shows "foldl kernel_ctl K (fst (UpdateEpoll S D epoll_fd p key s)) =
      K(GetDescriptor S D p s := (if evs = 0 then None else Some (evs, key))) \<and>
    el_dcheck_failed (snd (UpdateEpoll S D epoll_fd p key s)) = el_dcheck_failed s \<and>
    foldl kernel_ctl (K(GetDescriptor S D p s := None))
      (fst (AddEpoll S D epoll_fd p key s) @ fst (RemoveEpoll S D epoll_fd p s)) = K(GetDescriptor S D p s := None)"
proof -
  have "foldl kernel_ctl K (fst (UpdateEpoll S D epoll_fd p key s)) =
      K(GetDescriptor S D p s := (if evs = 0 then None else Some (evs, key)))"
    using assms(2,3) by (auto simp: UpdateEpoll_def Let_def el_dcheck_def kernel evs_def)
  moreover have "el_dcheck_failed (snd (UpdateEpoll S D epoll_fd p key s)) = el_dcheck_failed s"
    using assms(2,3) by (auto simp: UpdateEpoll_def Let_def el_dcheck_def el_call_def kernel)
  moreover have "foldl kernel_ctl (K(GetDescriptor S D p s := None))
      (fst (AddEpoll S D epoll_fd p key s) @ fst (RemoveEpoll S D epoll_fd p s)) = K(GetDescriptor S D p s := None)"
    using assms(2,3) by (auto simp: AddEpoll_def RemoveEpoll_def Let_def el_dcheck_def split: prod.split)
  ultimately show ?thesis by blast
qed

lemma UpdateEpoll_exact_example:
  "foldl kernel_ctl (\<lambda>f. Some (0, 0)) (fst (UpdateEpoll linux_api no_dispatchers 3 0 5 (EvenLoop_new True 0))) =
     (\<lambda>f. Some (0, 0))(7 \<mapsto> (1, 5))"
proof -
  have "signal_wakeup_m (EvenLoop_new True (0 :: nat)) = 0"
    by (simp add: EvenLoop_new_def Signaler_new_def Add_def)
  then show ?thesis
    using UpdateEpoll_exact [of linux_api "EvenLoop_new True 0" "\<lambda>f. Some (0, 0)" 3 no_dispatchers 0 5]
    by (simp add: linux_api_def GetDescriptor_def GetRequestedEvents_def DE_READ_def)
qed

end
