(* ===== verification/SelectLoop.thy ===== *)
theory SelectLoop
  imports Dispatchers
begin

text \<open>
  When the loop on \<^verbatim>\<open>select\<close> of \<^verbatim>\<open>src/event_loop_temp.cc\<close> returns.  Unlike the loops on \<^verbatim>\<open>poll\<close> and \<^verbatim>\<open>epoll\<close> it does not look at
  the clock to end: after the deadline it passes a time-out of zero to \<^verbatim>\<open>select\<close> and relies on the answer.
\<close>

definition select_once ::
  "('p, 'z) posix_api \<Rightarrow> ('p, 'z) dispatcher_ops \<Rightarrow> bool \<Rightarrow> timeval option \<Rightarrow> ('p, 'z) EvenLoop_scheme
     \<Rightarrow> bool option \<times> ('p, 'z) EvenLoop_scheme" where
  "select_once S D process_io ptvWait s =
     (let kvs = snapshot process_io s;
          s = s\<lparr>current_dispatcher_keys_m := map fst kvs\<rparr>;
          s = el_dcheck (\<forall>kv \<in> set kvs. GetDescriptor S D (snd kv) s < FD_SETSIZE S) s
      in after_wait S
           (\<lambda>(fdsRead, fdsWrite) s. snd (snd (fold (process_selected S D) (current_dispatcher_keys_m s)
              (fdsRead, fdsWrite, s))))
           (select S (el_calls s) (fd_set S D (DE_READ OR DE_ACCEPT) kvs s)
              (fd_set S D (DE_WRITE OR DE_CONNECT) kvs s) ptvWait) s)"

lemma select_loop_iteration:
  "select_loop S D process_io stop_us (Some tv) s =
     (if \<not> fWait_m s then Some (True, s)
      else case select_once S D process_io (Some tv) s of
             (Some r, t) \<Rightarrow> Some (r, t)
           | (None, t) \<Rightarrow> select_loop S D process_io stop_us (Some (remaining_timeval S stop_us t)) (el_call t))"
  by (subst select_loop.simps) (simp add: select_once_def Let_def split: prod.split option.split)

lemma fold_selected_calls:
  assumes "calls_mono S D"
  shows "el_calls (snd (snd rws)) \<le> el_calls (snd (snd (fold (process_selected S D) keys rws)))"
proof (induction keys arbitrary: rws)
  case (Cons key keys)
  have "el_calls (snd (snd rws)) \<le> el_calls (snd (snd (process_selected S D key rws)))"
    using ProcessEvents_calls [OF assms] by (cases rws) (simp add: process_selected_def Let_def split: option.split)
  then show ?case using Cons.IH [of "process_selected S D key rws"] by simp
qed simp

lemma select_once_calls:
  assumes "calls_mono S D"
  shows "el_calls s < el_calls (snd (select_once S D process_io tv s))"
proof -
  let ?h = "\<lambda>(fdsRead, fdsWrite) s. snd (snd (fold (process_selected S D) (current_dispatcher_keys_m s) (fdsRead, fdsWrite, s)))"
  have h: "el_calls s \<le> el_calls (?h r s)" for r s
    using fold_selected_calls [OF assms, of "(fst r, snd r, s)"] by (simp add: split_def)
  show ?thesis
    unfolding select_once_def Let_def
    by (rule le_less_trans [OF _ after_wait_calls [OF assms, of ?h, OF h]]) (simp add: GetDescriptor_fields)
qed

text \<open>The zero time-out that is passed once the deadline is over.\<close>

abbreviation no_time :: timeval where "no_time \<equiv> \<lparr>tv_sec = 0, tv_usec = 0\<rparr>"

text \<open>The loop returns if, from some call on, the clock is past the deadline and \<^verbatim>\<open>select\<close> with a zero time-out finds nothing ready.\<close>

lemma select_loop_returns:
  assumes mono: "calls_mono S D" and late: "\<And>n. K \<le> n \<Longrightarrow> stop_us \<le> TimeMicros (clock_nanos S n)"
    and quiet: "\<And>n r w. K \<le> n \<Longrightarrow> select S n r w (Some no_time) = Timeout"
  shows "(K < el_calls s \<Longrightarrow> tv = no_time) \<Longrightarrow> \<exists>r. select_loop S D process_io stop_us (Some tv) s = Some r"
proof (induction "Suc K - el_calls s" arbitrary: tv s rule: less_induct)
  case less
  obtain ret t where o: "select_once S D process_io (Some tv) s = (ret, t)" by (meson surj_pair)
  have c: "el_calls s < el_calls t" using select_once_calls [OF mono, of s process_io "Some tv"] o by simp
  show ?case
  proof (cases "fWait_m s \<and> ret = None")
    case True
    have "el_calls s \<le> K"
    proof (rule ccontr)
      assume "\<not> el_calls s \<le> K"
      with less.prems quiet [of "el_calls s"] o True show False
        by (auto simp: select_once_def after_wait_def Let_def GetDescriptor_fields)
    qed
    moreover have "remaining_timeval S stop_us t = no_time" if "K < el_calls (el_call t)"
      using late [of "el_calls t"] that by (simp add: remaining_timeval_def GetDescriptor_fields)
    ultimately have "\<exists>r. select_loop S D process_io stop_us (Some (remaining_timeval S stop_us t)) (el_call t) = Some r"
      using c by (intro less.hyps) (auto simp: GetDescriptor_fields)
    then show ?thesis using o True by (subst select_loop_iteration) simp
  qed (use o in \<open>subst select_loop_iteration, auto split: option.split\<close>)
qed

lemma WaitSelect_returns:
  assumes "calls_mono S D" and "cmsWait \<noteq> kForeverMs" and "el_calls s < K"
    and "\<And>n. K \<le> n \<Longrightarrow> TimeMicros (clock_nanos S (el_calls s)) + to_int32 (cmsWait * 1000) \<le> TimeMicros (clock_nanos S n)"
    and "\<And>n r w. K \<le> n \<Longrightarrow> select S n r w (Some no_time) = Timeout"
  shows "\<exists>r. WaitSelect S D cmsWait process_io s = Some r"
proof -
  have "\<exists>r. select_loop S D process_io (TimeMicros (clock_nanos S (el_calls s)) + to_int32 (cmsWait * 1000)) (Some tv)
      ((el_call s)\<lparr>fWait_m := True\<rparr>) = Some r" for tv
    by (rule select_loop_returns [OF assms(1,4,5)]) (use assms(3) in \<open>auto simp: GetDescriptor_fields\<close>)
  then show ?thesis using assms(2) by (simp add: WaitSelect_def)
qed

text \<open>It never returns while \<^verbatim>\<open>select\<close> keeps finding something ready, whatever the time-out: \<open>P\<close> is an invariant of the states
  in which the waiting flag stays set.\<close>

lemma select_loop_diverges:
  assumes waits: "\<And>s. P s \<Longrightarrow> fWait_m s"
    and busy: "\<And>tv s. P s \<Longrightarrow> \<exists>t. select_once S D process_io (Some tv) s = (None, t) \<and> P (el_call t)"
    and "P s"
  shows "select_loop S D process_io stop_us (Some tv) s = None"
proof (rule ccontr)
  assume "select_loop S D process_io stop_us (Some tv) s \<noteq> None"
  then obtain r where "select_loop S D process_io stop_us (Some tv) s = Some r" by blast
  moreover have "S' = S \<and> D' = D \<and> p = process_io \<and> P s \<longrightarrow> ptv = None"
    if "select_loop S' D' p st ptv s = Some r" for S' D' p st ptv s r
  proof (rule select_loop.raw_induct [where P = "\<lambda>S' D' p st ptv s r. S' = S \<and> D' = D \<and> p = process_io \<and> P s \<longrightarrow> ptv = None",
        OF _ that])
    fix loop S' D' p st ptv s r
    assume IH: "\<And>S' D' p st ptv s r. loop S' D' p st ptv s = Some r \<Longrightarrow>
        S' = S \<and> D' = D \<and> p = process_io \<and> P s \<longrightarrow> ptv = None"
      and body: "(if \<not> fWait_m s then Some (True, s)
        else let kvs = snapshot p s; s = s\<lparr>current_dispatcher_keys_m := map fst kvs\<rparr>;
            s = el_dcheck (\<forall>kv \<in> set kvs. GetDescriptor S' D' (snd kv) s < FD_SETSIZE S') s;
            (ret, s) = after_wait S' (\<lambda>(fdsRead, fdsWrite) s. snd (snd (fold (process_selected S' D') (current_dispatcher_keys_m s)
                   (fdsRead, fdsWrite, s))))
                (select S' (el_calls s) (fd_set S' D' (DE_READ OR DE_ACCEPT) kvs s)
                   (fd_set S' D' (DE_WRITE OR DE_CONNECT) kvs s) ptv) s
          in case ret of
               Some r \<Rightarrow> Some (r, s)
             | None \<Rightarrow> (case ptv of None \<Rightarrow> loop S' D' p st None s
                  | Some tv \<Rightarrow> loop S' D' p st (Some (remaining_timeval S' st s)) (el_call s))) = Some r"
    show "S' = S \<and> D' = D \<and> p = process_io \<and> P s \<longrightarrow> ptv = None"
    proof (intro impI, elim conjE, rule ccontr)
      assume eqs: "S' = S" "D' = D" "p = process_io" "P s" "ptv \<noteq> None"
      then obtain tv where "ptv = Some tv" by blast
      moreover obtain t where t: "select_once S D process_io (Some tv) s = (None, t)" "P (el_call t)"
        using busy eqs(4) by blast
      ultimately have "loop S D process_io st (Some (remaining_timeval S st t)) (el_call t) = Some r"
        using body eqs waits [OF eqs(4)] by (simp add: select_once_def Let_def)
      from IH [OF this] t(2) show False by simp
    qed
  qed
  ultimately show False using \<open>P s\<close> by blast
qed

text \<open>So a wait with a time-out of three milliseconds goes on for ever if one descriptor stays readable because its handler leaves
  data unread; the loops on \<^verbatim>\<open>poll\<close> and \<^verbatim>\<open>epoll\<close> return in the same situation.\<close>

definition busy_api :: "(nat, unit) posix_api" where
  "busy_api = linux_api\<lparr>select := \<lambda>n r w tv. Ready (r, w)\<rparr>"

definition lazy_reader :: "(nat, unit) dispatcher_ops" where
  "lazy_reader = no_dispatchers\<lparr>requested_events := \<lambda>p s. DE_READ, descriptor := \<lambda>p s. 3\<rparr>"

definition one_reader :: "nat EvenLoop" where
  "one_reader = (EvenLoop_new True 0)\<lparr>dispatcher_by_key_m := [(5, 2)]\<rparr>"

definition reading :: "nat EvenLoop \<Rightarrow> bool" where
  "reading s \<longleftrightarrow> fWait_m s \<and> dispatcher_by_key_m s = [(5, 2)] \<and> signal_wakeup_m s = 0"

lemma reading_fields [simp]:
  "reading (el_call s) = reading s" "reading (el_dcheck b s) = reading s"
  "reading (s\<lparr>current_dispatcher_keys_m := ks\<rparr>) = reading s"
  by (simp_all add: reading_def el_call_def el_dcheck_def)

lemma reading_ProcessEvents: "reading s \<Longrightarrow> reading (ProcessEvents busy_api lazy_reader 2 r w e c s)"
  by (simp add: ProcessEvents_def Let_def OnEvent_def lazy_reader_def no_dispatchers_def reading_def GetDescriptor_fields
      split: prod.split)

lemma reading_selected: "reading (snd (snd rws)) \<Longrightarrow> reading (snd (snd (process_selected busy_api lazy_reader key rws)))"
proof -
  obtain fr fw s where rws: "rws = (fr, fw, s)" by (cases rws)
  assume r: "reading (snd (snd rws))"
  then have "map_of (dispatcher_by_key_m s) key = (if key = 5 then Some 2 else None)" by (simp add: rws reading_def)
  with r show ?thesis by (simp add: rws process_selected_def Let_def reading_ProcessEvents)
qed

lemma busy_api_simps: "select busy_api n r w tv = Ready (r, w)" "elapse busy_api n s = s"
  by (simp_all add: busy_api_def linux_api_def)

lemma select_outlives_deadline: "WaitSelect busy_api lazy_reader 3 True one_reader = None"
proof -
  have fold: "reading (snd (snd (fold (process_selected busy_api lazy_reader) keys rws)))"
    if "reading (snd (snd rws))" for keys rws
    using that by (induction keys arbitrary: rws) (simp_all add: reading_selected)
  have busy: "\<exists>t. select_once busy_api lazy_reader True (Some tv) s = (None, t) \<and> reading (el_call t)"
    if "reading s" for tv s
    using that by (simp add: select_once_def Let_def after_wait_def busy_api_simps fold)
  show ?thesis
    using select_loop_diverges [where P = reading, OF _ busy, of "(el_call one_reader)\<lparr>fWait_m := True\<rparr>"]
    by (simp add: WaitSelect_def kForeverMs_def reading_def one_reader_def EvenLoop_new_def Signaler_new_def Add_def
        el_call_def)
qed

end
