(* ===== verification/SignalerPipe.thy ===== *)
theory SignalerPipe
  imports Dispatchers
begin

text \<open>
  The signaler of \<^verbatim>\<open>src/event_loop_temp.cc\<close> on Apple systems, which have no \<^verbatim>\<open>eventfd\<close>: a pipe, of which
  \<open>afd_count\<close> is the number of bytes in it.  Unlike the \<^verbatim>\<open>eventfd\<close> the pipe is not opened with
  \<^verbatim>\<open>EFD_NONBLOCK\<close>: writing to a full pipe and reading from an empty one block, with \<^verbatim>\<open>mutex_\<close> held, which is \<open>None\<close>.
  The capacity of a pipe is the argument \<open>cap\<close>.
\<close>

section \<open>Definitions\<close>

definition pipe_write :: "nat \<Rightarrow> nat option \<Rightarrow> (int \<times> nat option) option" where
  "pipe_write cap afd =
     (case afd of
        None \<Rightarrow> Some (- 1, None)
      | Some n \<Rightarrow> if n < cap then Some (1, Some (Suc n)) else None)"

definition pipe_read :: "nat \<Rightarrow> nat option \<Rightarrow> (int \<times> nat option) option" where
  "pipe_read len afd =
     (case afd of
        None \<Rightarrow> Some (- 1, None)
      | Some n \<Rightarrow> if n = 0 then None else Some (int (min len n), Some (n - len)))"

definition Signal_pipe :: "nat \<Rightarrow> ('p, 'z) EvenLoop_scheme \<Rightarrow> ('p, 'z) EvenLoop_scheme option" where
  "Signal_pipe cap s =
     (if fSignaled_m s then Some s
      else map_option (\<lambda>(res, afd). (el_dcheck (res = 1) (s\<lparr>afd_count := afd\<rparr>))\<lparr>fSignaled_m := True\<rparr>)
             (pipe_write cap (afd_count s)))"

text \<open>The buffer has four bytes, so that a byte too many would be read and noticed.\<close>

definition OnEvent_pipe :: "u32 \<Rightarrow> int \<Rightarrow> ('p, 'z) EvenLoop_scheme \<Rightarrow> ('p, 'z) EvenLoop_scheme option" where
  "OnEvent_pipe ff err s =
     map_option (\<lambda>s. s\<lparr>fWait_m := False\<rparr>)
       (if fSignaled_m s
        then map_option (\<lambda>(res, afd). (el_dcheck (res = 1) (s\<lparr>afd_count := afd\<rparr>))\<lparr>fSignaled_m := False\<rparr>)
               (pipe_read 4 (afd_count s))
        else Some s)"

text \<open>The destructor closes both ends.\<close>

definition Signaler_delete_pipe :: "('p, 'z) EvenLoop_scheme \<Rightarrow> ('p, 'z) EvenLoop_scheme" where
  "Signaler_delete_pipe s = (Remove (signal_wakeup_m s) s)\<lparr>afd_count := None\<rparr>"

text \<open>The calls made to a signaler, and both implementations running them.\<close>

datatype signaler_call = CallSignal | CallOnEvent u32 int

fun call_eventfd :: "signaler_call \<Rightarrow> ('p, 'z) EvenLoop_scheme \<Rightarrow> ('p, 'z) EvenLoop_scheme" where
  "call_eventfd CallSignal s = Signal s"
| "call_eventfd (CallOnEvent ff err) s = Signaler_OnEvent ff err s"

fun call_pipe :: "nat \<Rightarrow> signaler_call \<Rightarrow> ('p, 'z) EvenLoop_scheme \<Rightarrow> ('p, 'z) EvenLoop_scheme option" where
  "call_pipe cap CallSignal s = Signal_pipe cap s"
| "call_pipe cap (CallOnEvent ff err) s = OnEvent_pipe ff err s"

section \<open>Lemmas\<close>

lemma pipe_step:
  assumes "signaler_ok s" and "0 < cap"
  shows "call_pipe cap c s = Some (call_eventfd c s)" and "signaler_ok (call_eventfd c s)"
  using assms
  by (cases c; simp add: signaler_ok_def Signal_pipe_def OnEvent_pipe_def pipe_write_def pipe_read_def Signal_def
      Signaler_OnEvent_def el_dcheck_def Let_def)+

text \<open>A signaler that was made whole behaves in every history of calls as the one on an \<^verbatim>\<open>eventfd\<close>, and never blocks while
  it holds its mutex; so what is proved of that one holds on Apple systems.\<close>

lemma pipe_like_eventfd:
  assumes "signaler_ok s" and "0 < cap"
  shows "run_acts (call_pipe cap) cs s = Some (fold call_eventfd cs s)"
  using assms(1) by (induction cs arbitrary: s) (simp_all add: pipe_step [OF _ assms(2)])

text \<open>If the pipe could not be created the wake-ups are lost, as with a missing \<^verbatim>\<open>eventfd\<close>; the debug check says so.\<close>

lemma no_pipe:
  assumes "afd_count s = None" and "\<not> fSignaled_m s"
  shows "Signal_pipe cap s = Some (Signal s)" and "el_dcheck_failed (Signal s)"
  using assms by (simp_all add: Signal_pipe_def pipe_write_def Signal_def el_dcheck_def Let_def)

end
