(* ===== verification/DispatchersWin.thy ===== *)
theory DispatchersWin
  imports Dispatchers
begin

unbundle bit_operations_syntax

text \<open>
  The Windows half of \<^verbatim>\<open>src/event_loop_temp.h\<close> and \<^verbatim>\<open>src/event_loop_temp.cc\<close>: the signaler on an event object and the loop
  on \<^verbatim>\<open>WSAWaitForMultipleEvents\<close>.

  The state extends that of the POSIX half, whose \<open>fSignaled_m\<close> and \<open>afd_count\<close> do not exist on Windows
  and stay untouched: \<open>hev_m\<close> is whether the signaler's event is signalled, \<open>None\<close> if it could not be created;
  \<open>el_socket_ev_m\<close> is the event all sockets share; \<open>selected\<close> is the kernel's record of \<^verbatim>\<open>WSAEventSelect\<close>, the mask
  of each socket; \<open>el_ub_reached\<close> records an index out of range.  An event handle is one of the loop's two or a
  dispatcher's own, of type \<open>'h\<close>.  The Winsock library is the argument \<open>W\<close>, the dispatchers other than the signaler are the
  argument \<open>D\<close>; handlers may do anything to the loop.  A null dispatcher pointer, which the code skips, has no counterpart.
\<close>

section \<open>Data\<close>

record 'p EvenLoop_win = "'p EvenLoop" +
  hev_m :: "bool option"
  el_socket_ev_m :: bool
  selected :: "u64 \<rightharpoonup> u32"
  el_ub_reached :: bool

datatype 'h wsa_event = SocketEvent | SignalerEvent | DispatcherEvent 'h

record network_events =
  lNetworkEvents :: u32
  connect_error :: int
  close_error :: int

record ('p, 'h) win_dispatcher =
  w_requested_events :: "'p \<Rightarrow> 'p EvenLoop_win \<Rightarrow> u32"
  w_on_event :: "'p \<Rightarrow> u32 \<Rightarrow> int \<Rightarrow> 'p EvenLoop_win \<Rightarrow> 'p EvenLoop_win"
  w_wsa_event :: "'p \<Rightarrow> 'p EvenLoop_win \<Rightarrow> 'h"
  w_socket :: "'p \<Rightarrow> 'p EvenLoop_win \<Rightarrow> u64"
  w_check_signal_close :: "'p \<Rightarrow> 'p EvenLoop_win \<Rightarrow> bool \<times> 'p EvenLoop_win"

record ('p, 'h) winsock =
  INVALID_SOCKET :: u64
  FD_READ :: u32
  FD_WRITE :: u32
  FD_ACCEPT :: u32
  FD_CONNECT :: u32
  FD_CLOSE :: u32
  WSA_WAIT_EVENT_0 :: u32
  WSA_WAIT_TIMEOUT :: u32
  WSA_WAIT_FAILED :: u32
  WSAWaitForMultipleEvents :: "nat \<Rightarrow> 'h wsa_event list \<Rightarrow> u32 \<Rightarrow> u32"
  WSAEnumNetworkEvents :: "nat \<Rightarrow> u64 \<Rightarrow> int \<times> network_events"
  w_clock_nanos :: "nat \<Rightarrow> int"
  w_elapse :: "nat \<Rightarrow> 'p EvenLoop_win \<Rightarrow> 'p EvenLoop_win"

section \<open>The signaler\<close>

definition EvenLoop_win_new :: "bool \<Rightarrow> 'p \<Rightarrow> 'p EvenLoop_win" where
  "EvenLoop_win_new created sig =
     (let s = \<lparr>next_dispatcher_key_m = 0, dispatcher_by_key_m = [], key_by_dispatcher_m = [],
               current_dispatcher_keys_m = [], signal_wakeup_m = sig, fSignaled_m = False, afd_count = None,
               fWait_m = False, waiting_m = False, el_dcheck_failed = False, el_calls = 0,
               hev_m = (if created then Some False else None), el_socket_ev_m = False, selected = Map.empty,
               el_ub_reached = False\<rparr>
      in if created then Add sig s else s)"

definition Signaler_win_delete :: "'p EvenLoop_win \<Rightarrow> 'p EvenLoop_win" where
  "Signaler_win_delete s =
     (if hev_m s \<noteq> None then (Remove (signal_wakeup_m s) s)\<lparr>hev_m := None\<rparr> else s)"

definition Signal_win :: "'p EvenLoop_win \<Rightarrow> 'p EvenLoop_win" where
  "Signal_win s = (if hev_m s \<noteq> None then s\<lparr>hev_m := Some True\<rparr> else s)"

definition Signaler_win_OnEvent :: "u32 \<Rightarrow> int \<Rightarrow> 'p EvenLoop_win \<Rightarrow> 'p EvenLoop_win" where
  "Signaler_win_OnEvent ff err s = s\<lparr>hev_m := map_option (\<lambda>_. False) (hev_m s), fWait_m := False\<rparr>"

text \<open>The virtual members, with those of the signaler.\<close>

definition requested_win :: "('p, 'h) win_dispatcher \<Rightarrow> 'p \<Rightarrow> 'p EvenLoop_win \<Rightarrow> u32" where
  "requested_win D p s = (if p = signal_wakeup_m s then 0 else w_requested_events D p s)"

definition OnEvent_win ::
  "('p, 'h) win_dispatcher \<Rightarrow> 'p \<Rightarrow> u32 \<Rightarrow> int \<Rightarrow> 'p EvenLoop_win \<Rightarrow> 'p EvenLoop_win" where
  "OnEvent_win D p ff err s =
     (if p = signal_wakeup_m s then Signaler_win_OnEvent ff err s else w_on_event D p ff err s)"

definition GetWSAEvent :: "('p, 'h) win_dispatcher \<Rightarrow> 'p \<Rightarrow> 'p EvenLoop_win \<Rightarrow> 'h wsa_event" where
  "GetWSAEvent D p s = (if p = signal_wakeup_m s then SignalerEvent else DispatcherEvent (w_wsa_event D p s))"

definition GetSocket :: "('p, 'h) winsock \<Rightarrow> ('p, 'h) win_dispatcher \<Rightarrow> 'p \<Rightarrow> 'p EvenLoop_win \<Rightarrow> u64" where
  "GetSocket W D p s = (if p = signal_wakeup_m s then INVALID_SOCKET W else w_socket D p s)"

definition CheckSignalClose ::
  "('p, 'h) win_dispatcher \<Rightarrow> 'p \<Rightarrow> 'p EvenLoop_win \<Rightarrow> bool \<times> 'p EvenLoop_win" where
  "CheckSignalClose D p s = (if p = signal_wakeup_m s then (False, s) else w_check_signal_close D p s)"

section \<open>One iteration\<close>

definition FlagsToEvents :: "('p, 'h) winsock \<Rightarrow> u32 \<Rightarrow> u32" where
  "FlagsToEvents W evs =
     (let ffFD = FD_CLOSE W;
          ffFD = (if evs AND DE_READ \<noteq> 0 then ffFD OR FD_READ W else ffFD);
          ffFD = (if evs AND DE_WRITE \<noteq> 0 then ffFD OR FD_WRITE W else ffFD);
          ffFD = (if evs AND DE_CONNECT \<noteq> 0 then ffFD OR FD_CONNECT W else ffFD)
      in if evs AND DE_ACCEPT \<noteq> 0 then ffFD OR FD_ACCEPT W else ffFD)"

text \<open>The loop over the snapshot that fills \<^verbatim>\<open>events\<close> and \<^verbatim>\<open>event_owners\<close>; the socket event is the first.\<close>

definition add_waited ::
  "('p, 'h) winsock \<Rightarrow> ('p, 'h) win_dispatcher \<Rightarrow> bool \<Rightarrow> u64
     \<Rightarrow> 'h wsa_event list \<times> u64 list \<times> 'p EvenLoop_win
     \<Rightarrow> 'h wsa_event list \<times> u64 list \<times> 'p EvenLoop_win" where
  "add_waited W D process_io key es =
     (let (evs, event_owners, s) = es
      in case map_of (dispatcher_by_key_m s) key of
           None \<Rightarrow> es
         | Some disp \<Rightarrow>
             if \<not> process_io \<and> disp \<noteq> signal_wakeup_m s then es
             else
               let sock = GetSocket W D disp s;
                   (closed, s) = CheckSignalClose D disp s
               in if closed then (evs, event_owners, s)
                  else if sock \<noteq> INVALID_SOCKET W
                  then (evs, event_owners,
                        s\<lparr>selected := (selected s)(sock \<mapsto> FlagsToEvents W (requested_win D disp s))\<rparr>)
                  else (evs @ [GetWSAEvent D disp s], event_owners @ [key], s))"

definition prepare ::
  "('p, 'h) winsock \<Rightarrow> ('p, 'h) win_dispatcher \<Rightarrow> bool \<Rightarrow> 'p EvenLoop_win
     \<Rightarrow> 'h wsa_event list \<times> u64 list \<times> 'p EvenLoop_win" where
  "prepare W D process_io s =
     (let s = s\<lparr>current_dispatcher_keys_m := map fst (dispatcher_by_key_m s)\<rparr>
      in fold (add_waited W D process_io) (current_dispatcher_keys_m s) ([SocketEvent], [], s))"

text \<open>The flags and the error code made from the network events of a socket.\<close>

definition win_event_flags :: "('p, 'h) winsock \<Rightarrow> network_events \<Rightarrow> u32 \<times> int" where
  "win_event_flags W wsaEvents =
     (let e = lNetworkEvents wsaEvents;
          ff = (0 :: u32); errcode = 0;
          ff = (if e AND FD_READ W \<noteq> 0 then ff OR DE_READ else ff);
          ff = (if e AND FD_WRITE W \<noteq> 0 then ff OR DE_WRITE else ff);
          (ff, errcode) =
            (if e AND FD_CONNECT W \<noteq> 0
             then if connect_error wsaEvents = 0 then (ff OR DE_CONNECT, errcode)
                  else (ff OR DE_CLOSE, connect_error wsaEvents)
             else (ff, errcode));
          ff = (if e AND FD_ACCEPT W \<noteq> 0 then ff OR DE_ACCEPT else ff)
      in if e AND FD_CLOSE W \<noteq> 0 then (ff OR DE_CLOSE, close_error wsaEvents) else (ff, errcode))"

text \<open>
  One socket after the shared event was signalled.  A successful \<^verbatim>\<open>WSAEnumNetworkEvents\<close> resets the event it is
  given.
\<close>

definition process_socket ::
  "('p, 'h) winsock \<Rightarrow> ('p, 'h) win_dispatcher \<Rightarrow> 'p \<Rightarrow> unit \<Rightarrow> 'p EvenLoop_win \<Rightarrow> 'p EvenLoop_win" where
  "process_socket W D disp u s =
     (let sock = GetSocket W D disp s
      in if sock = INVALID_SOCKET W then s
         else
           let (err, wsaEvents) = WSAEnumNetworkEvents W (el_calls s) sock;
               s = el_call s
           in if err \<noteq> 0 then s
              else
                let s = s\<lparr>el_socket_ev_m := False\<rparr>;
                    (ff, errcode) = win_event_flags W wsaEvents
                in if ff \<noteq> 0 then OnEvent_win D disp ff errcode s else s)"

text \<open>
  After the wait: \<open>Inl\<close> returns from the function; \<open>Inr (False, s)\<close> is the \<^verbatim>\<open>continue\<close> that skips the rest of the
  iteration, \<open>Inr (True, s)\<close> reaches it.
\<close>

definition handle_wait ::
  "('p, 'h) winsock \<Rightarrow> ('p, 'h) win_dispatcher \<Rightarrow> bool \<Rightarrow> u64 list \<Rightarrow> u32 \<Rightarrow> 'p EvenLoop_win
     \<Rightarrow> (bool \<times> 'p EvenLoop_win) + (bool \<times> 'p EvenLoop_win)" where
  "handle_wait W D process_io event_owners dw s =
     (if dw = WSA_WAIT_FAILED W then Inl (False, s)
      else if dw = WSA_WAIT_TIMEOUT W then Inl (True, s)
      else
        let index = sint (dw - WSA_WAIT_EVENT_0 W)
        in if index > 0
           then if nat (index - 1) < length event_owners
                then case map_of (dispatcher_by_key_m s) (event_owners ! nat (index - 1)) of
                       None \<Rightarrow> Inr (False, s)
                     | Some disp \<Rightarrow> Inr (True, (OnEvent_win D disp 0 0 s)\<lparr>el_socket_ev_m := False\<rparr>)
                else Inr (False, s\<lparr>el_ub_reached := True\<rparr>)
           else if process_io
                then Inr (True, (fold (for_key (process_socket W D)) (map (\<lambda>k. (k, ())) (current_dispatcher_keys_m s)) s)
                            \<lparr>el_socket_ev_m := False\<rparr>)
                else Inr (True, s\<lparr>el_socket_ev_m := False\<rparr>))"

text \<open>
  The end of an iteration, and one iteration: \<open>Inl\<close> is the function's result, \<open>Inr\<close> the new \<^verbatim>\<open>cmsElapsed\<close>.
\<close>

definition after_handling ::
  "('p, 'h) winsock \<Rightarrow> int \<Rightarrow> int \<Rightarrow> 'p EvenLoop_win \<Rightarrow> (bool \<times> 'p EvenLoop_win) + (int \<times> 'p EvenLoop_win)" where
  "after_handling W cmsWait msStart s =
     (if \<not> fWait_m s then Inl (True, s)
      else
        let cmsElapsed = TimeSince (w_clock_nanos W (el_calls s)) msStart;
            s = el_call s
        in if cmsWait \<noteq> kForeverMs \<and> cmsElapsed \<ge> cmsWait then Inl (True, s) else Inr (cmsElapsed, s))"

definition win_iteration ::
  "('p, 'h) winsock \<Rightarrow> ('p, 'h) win_dispatcher \<Rightarrow> bool \<Rightarrow> int \<Rightarrow> int \<Rightarrow> int \<Rightarrow> 'p EvenLoop_win
     \<Rightarrow> (bool \<times> 'p EvenLoop_win) + (int \<times> 'p EvenLoop_win)" where
  "win_iteration W D process_io cmsWait msStart cmsElapsed s =
     (if \<not> fWait_m s then Inl (True, s)
      else
        let (evs, event_owners, s) = prepare W D process_io s;
            cmsNext = (if cmsWait = kForeverMs then cmsWait else max 0 (cmsWait - cmsElapsed));
            dw = WSAWaitForMultipleEvents W (el_calls s) evs (to_uint32 cmsNext);
            s = w_elapse W (el_calls s) (el_call s)
        in case handle_wait W D process_io event_owners dw s of
             Inl r \<Rightarrow> Inl r
           | Inr (handled, s) \<Rightarrow>
               if \<not> handled then Inr (cmsElapsed, s) else after_handling W cmsWait msStart s)"

partial_function (option) win_loop ::
  "('p, 'h) winsock \<Rightarrow> ('p, 'h) win_dispatcher \<Rightarrow> bool \<Rightarrow> int \<Rightarrow> int \<Rightarrow> int \<Rightarrow> 'p EvenLoop_win
     \<Rightarrow> (bool \<times> 'p EvenLoop_win) option" where
  "win_loop W D process_io cmsWait msStart cmsElapsed s =
     (case win_iteration W D process_io cmsWait msStart cmsElapsed s of
        Inl r \<Rightarrow> Some r
      | Inr es \<Rightarrow> win_loop W D process_io cmsWait msStart (fst es) (snd es))"

definition EvenLoop_win_Wait ::
  "('p, 'h) winsock \<Rightarrow> ('p, 'h) win_dispatcher \<Rightarrow> ('d, 'y) absl_duration_scheme \<Rightarrow> 'd \<Rightarrow> bool
     \<Rightarrow> 'p EvenLoop_win \<Rightarrow> (bool \<times> 'p EvenLoop_win) option" where
  "EvenLoop_win_Wait W D A max_wait_duration process_io s =
     (let s = el_dcheck (\<not> waiting_m s) s;
          s = ScopedSetTrue_new s;
          cmsWait = EvenLoop_ToCmsWait A max_wait_duration;
          msStart = Time (w_clock_nanos W (el_calls s));
          s = (el_call s)\<lparr>fWait_m := True\<rparr>
      in map_option (\<lambda>(r, s). (r, ScopedSetTrue_delete s))
           (win_loop W D process_io cmsWait msStart 0 s))"

section \<open>Lemmas\<close>

interpretation win_event: wake_signal Signal_win "Signaler_win_OnEvent ff err" "\<lambda>s. hev_m s = Some True" fWait_m
    "\<lambda>s. hev_m s \<noteq> None"
  by unfold_locales (auto simp: Signal_win_def Signaler_win_OnEvent_def)

text \<open>
  Nothing comes or goes while the loop prepares its wait and waits; handlers may still do anything.  Calls of the
  environment are never undone.
\<close>

definition same_dispatchers :: "'p EvenLoop_win \<Rightarrow> 'p EvenLoop_win \<Rightarrow> bool" where
  "same_dispatchers s t \<longleftrightarrow> dispatcher_by_key_m t = dispatcher_by_key_m s \<and> signal_wakeup_m t = signal_wakeup_m s \<and>
     el_calls s \<le> el_calls t"

definition steady :: "('p, 'h) winsock \<Rightarrow> ('p, 'h) win_dispatcher \<Rightarrow> bool" where
  "steady W D \<longleftrightarrow> (\<forall>p s. same_dispatchers s (snd (w_check_signal_close D p s))) \<and>
     (\<forall>n s. same_dispatchers s (w_elapse W n s)) \<and>
     (\<forall>p ff err s. el_calls s \<le> el_calls (w_on_event D p ff err s))"

text \<open>The answer of the wait names one of the events that were passed, or is a time-out or a failure.\<close>

definition honest_wait :: "('p, 'h) winsock \<Rightarrow> bool" where
  "honest_wait W \<longleftrightarrow> (\<forall>n evs ms. WSAWaitForMultipleEvents W n evs ms \<in> {WSA_WAIT_TIMEOUT W, WSA_WAIT_FAILED W} \<or>
     sint (WSAWaitForMultipleEvents W n evs ms - WSA_WAIT_EVENT_0 W) < int (length evs))"

lemma same_dispatchers_refl [simp]: "same_dispatchers s s"
  by (simp add: same_dispatchers_def)

lemma same_dispatchers_trans: "same_dispatchers s t \<Longrightarrow> same_dispatchers t u \<Longrightarrow> same_dispatchers s u"
  by (simp add: same_dispatchers_def)

lemma same_dispatchers_fields [simp]:
  "same_dispatchers s (t\<lparr>selected := m\<rparr>) = same_dispatchers s t"
  "same_dispatchers s (t\<lparr>current_dispatcher_keys_m := ks\<rparr>) = same_dispatchers s t"
  "same_dispatchers (s\<lparr>current_dispatcher_keys_m := ks\<rparr>) t = same_dispatchers s t"
  by (simp_all add: same_dispatchers_def)

lemma steadyD:
  assumes "steady W D"
  shows "same_dispatchers s (snd (w_check_signal_close D p s))" "same_dispatchers s (w_elapse W n s)"
    "el_calls s \<le> el_calls (w_on_event D p ff err s)"
  using assms unfolding steady_def by blast+

lemma same_dispatchers_elapse:
  assumes "steady W D" and "same_dispatchers s t"
  shows "same_dispatchers s (w_elapse W n (el_call t))"
proof -
  have "same_dispatchers s (el_call t)" using assms(2) by (simp add: same_dispatchers_def el_call_def)
  then show ?thesis by (rule same_dispatchers_trans) (rule steadyD(2) [OF assms(1)])
qed

text \<open>The events and their owners run in parallel, and each owner is the dispatcher whose event it is.\<close>

definition owners_ok :: "'p EvenLoop_win \<Rightarrow> 'h wsa_event list \<times> u64 list \<times> 'p EvenLoop_win \<Rightarrow> bool" where
  "owners_ok s es \<longleftrightarrow> (case es of (evs, owners, t) \<Rightarrow>
     length evs = Suc (length owners) \<and> same_dispatchers s t \<and>
     (\<forall>i < length owners. \<exists>disp. map_of (dispatcher_by_key_m s) (owners ! i) = Some disp \<and>
        (evs ! Suc i = SignalerEvent \<longleftrightarrow> disp = signal_wakeup_m s)))"

lemma owners_ok_state: "owners_ok s (evs, owners, t) \<Longrightarrow> same_dispatchers s u \<Longrightarrow> owners_ok s (evs, owners, u)"
  by (simp add: owners_ok_def)

lemma owners_ok_snoc:
  assumes "owners_ok s (evs, owners, t)" and "map_of (dispatcher_by_key_m s) key = Some disp"
    and "e = SignalerEvent \<longleftrightarrow> disp = signal_wakeup_m s"
  shows "owners_ok s (evs @ [e], owners @ [key], t)"
  using assms by (auto simp: owners_ok_def nth_append less_Suc_eq)

lemma add_waited_ok:
  assumes "steady W D" and ok: "owners_ok s es"
  shows "owners_ok s (add_waited W D process_io key es)"
proof -
  obtain evs owners t where es: "es = (evs, owners, t)" by (cases es)
  then have t: "same_dispatchers s t" using ok by (simp add: owners_ok_def)
  show ?thesis
  proof (cases "map_of (dispatcher_by_key_m t) key")
    case None
    then show ?thesis using ok by (simp add: add_waited_def es)
  next
    case (Some disp)
    obtain closed u where c: "CheckSignalClose D disp t = (closed, u)" by (cases "CheckSignalClose D disp t")
    then have "same_dispatchers t u"
      using steadyD(1) [OF assms(1), of t disp] by (auto simp: CheckSignalClose_def split: if_splits)
    then have u: "same_dispatchers s u" using t same_dispatchers_trans by blast
    have "owners_ok s (evs @ [GetWSAEvent D disp u], owners @ [key], u)"
      using Some t u by (intro owners_ok_snoc [where disp = disp] owners_ok_state [OF ok [unfolded es]])
        (auto simp: same_dispatchers_def GetWSAEvent_def)
    then show ?thesis
      using ok u owners_ok_state [OF ok [unfolded es]] by (auto simp: add_waited_def es Some c Let_def)
  qed
qed

lemma prepare_ok: "steady W D \<Longrightarrow> owners_ok s (prepare W D process_io s)"
proof -
  assume "steady W D"
  then have "owners_ok s es \<Longrightarrow> owners_ok s (fold (add_waited W D process_io) ks es)" for ks es
    by (induction ks arbitrary: es) (simp_all add: add_waited_ok)
  then show ?thesis by (simp add: prepare_def owners_ok_def Let_def)
qed

lemma OnEvent_win_calls: "steady W D \<Longrightarrow> el_calls s \<le> el_calls (OnEvent_win D p ff err s)"
  by (simp add: steady_def OnEvent_win_def Signaler_win_OnEvent_def)

lemma process_socket_calls:
  assumes "steady W D"
  shows "el_calls s \<le> el_calls (process_socket W D p u s)"
proof -
  have "el_calls s \<le> el_calls (OnEvent_win D p ff err ((el_call s)\<lparr>el_socket_ev_m := False\<rparr>))" for ff err
    using OnEvent_win_calls [OF assms, of "(el_call s)\<lparr>el_socket_ev_m := False\<rparr>" p ff err] by (simp add: el_call_def)
  then show ?thesis
    by (auto simp: process_socket_def Let_def el_call_def split: prod.split)
qed

text \<open>With an honest wait nothing is skipped and no index is out of range.\<close>

lemma handle_wait_handled:
  assumes "steady W D" and "nat (sint (dw - WSA_WAIT_EVENT_0 W)) \<le> length owners"
    and "\<And>i. i < length owners \<Longrightarrow> map_of (dispatcher_by_key_m s) (owners ! i) \<noteq> None"
    and "handle_wait W D process_io owners dw s = Inr (handled, t)"
  shows "handled \<and> el_calls s \<le> el_calls t"
proof -
  have sockets: "el_calls s \<le> el_calls (fold (for_key (process_socket W D)) kes s)" for kes
    by (rule fold_for_key_calls) (rule process_socket_calls [OF assms(1)])
  show ?thesis
    using assms(2,4) assms(3) [of "nat (sint (dw - WSA_WAIT_EVENT_0 W) - 1)"]
      sockets [of "map (\<lambda>k. (k, ())) (current_dispatcher_keys_m s)"] OnEvent_win_calls [OF assms(1), of s _ 0 0]
    by (auto simp: handle_wait_def Let_def split: if_splits option.splits)
qed

lemma win_iteration_next:
  assumes "steady W D" "honest_wait W"
    and iter: "win_iteration W D process_io cmsWait msStart m s = Inr (m', s')"
  shows "el_calls s < el_calls s'" and "cmsWait = kForeverMs \<or> m' < cmsWait"
    and "\<exists>n \<ge> el_calls s. m' = TimeSince (w_clock_nanos W n) msStart"
proof -
  obtain evs owners t where p: "prepare W D process_io s = (evs, owners, t)" by (cases "prepare W D process_io s")
  then have ok: "owners_ok s (evs, owners, t)" using prepare_ok [OF assms(1), of s process_io] by simp
  define ms dw u where "ms = to_uint32 (if cmsWait = kForeverMs then cmsWait else max 0 (cmsWait - m))"
    and "dw = WSAWaitForMultipleEvents W (el_calls t) evs ms"
    and "u = w_elapse W (el_calls t) (el_call t)"
  have u: "same_dispatchers s u" "Suc (el_calls s) \<le> el_calls u"
    using ok same_dispatchers_elapse [OF assms(1)] steadyD(2) [OF assms(1), of "el_call t" "el_calls t"]
    by (auto simp: u_def owners_ok_def same_dispatchers_def el_call_def)
  note handled = handle_wait_handled [OF assms(1), of dw owners u process_io]
  obtain b v where h: "handle_wait W D process_io owners dw u = Inr (b, v)"
    using iter p by (auto simp: win_iteration_def after_handling_def dw_def u_def ms_def Let_def split: if_splits sum.splits)
  have "b \<and> el_calls u \<le> el_calls v"
  proof (rule handled [OF _ _ h])
    have "dw \<notin> {WSA_WAIT_TIMEOUT W, WSA_WAIT_FAILED W}" using h by (auto simp: handle_wait_def split: if_splits)
    then have "sint (dw - WSA_WAIT_EVENT_0 W) < int (length evs)"
      using assms(2) unfolding honest_wait_def dw_def by blast
    then show "nat (sint (dw - WSA_WAIT_EVENT_0 W)) \<le> length owners" using ok by (simp add: owners_ok_def)
    show "map_of (dispatcher_by_key_m u) (owners ! i) \<noteq> None" if "i < length owners" for i
      using ok u(1) that by (auto simp: owners_ok_def same_dispatchers_def)
  qed
  moreover from this iter p h have "s' = el_call v" "m' = TimeSince (w_clock_nanos W (el_calls v)) msStart"
      "cmsWait = kForeverMs \<or> m' < cmsWait"
    by (auto simp: win_iteration_def after_handling_def dw_def u_def ms_def Let_def split: if_splits)
  ultimately show "el_calls s < el_calls s'" "cmsWait = kForeverMs \<or> m' < cmsWait"
      "\<exists>n \<ge> el_calls s. m' = TimeSince (w_clock_nanos W n) msStart"
    using u(2) by (auto simp: el_call_def intro: exI [of _ "el_calls v"])
qed

section \<open>Properties\<close>

text \<open>C34. A wait with a time-out returns on Windows too: as long as no dispatcher comes or goes while the loop waits and the
  wait names one of the events it was given, once the clock has passed the deadline for good the loop ends, whatever its
  handlers do; the flag against reentrant waits is cleared.\<close>

theorem win_wait_returns:
  assumes "steady W D" and "honest_wait W"
    and "EvenLoop_ToCmsWait A d \<noteq> kForeverMs"
    and late: "\<And>n. K \<le> n \<Longrightarrow>
      EvenLoop_ToCmsWait A d \<le> TimeSince (w_clock_nanos W n) (Time (w_clock_nanos W (el_calls s)))"
  shows "\<exists>r t. EvenLoop_win_Wait W D A d process_io s = Some (r, t) \<and> \<not> waiting_m t"
proof -
  let ?cms = "EvenLoop_ToCmsWait A d" and ?start = "Time (w_clock_nanos W (el_calls s))"
  have "\<exists>r. win_loop W D process_io ?cms ?start m s = Some r" for m s
  proof (rule counted_loop_ends [where calls = el_calls and K = K and
        step = "win_iteration W D process_io ?cms ?start"])
    show "win_loop W D process_io ?cms ?start m s = (case win_iteration W D process_io ?cms ?start m s of
        Inl r \<Rightarrow> Some r | Inr ms \<Rightarrow> win_loop W D process_io ?cms ?start (fst ms) (snd ms))" for m s
      by (rule win_loop.simps)
    show "el_calls s < el_calls (snd ms)" if "win_iteration W D process_io ?cms ?start m s = Inr ms" for m s ms
      using win_iteration_next(1) [OF assms(1,2), of process_io ?cms ?start m s "fst ms" "snd ms"] that by simp
    show "\<exists>r. win_iteration W D process_io ?cms ?start m s = Inl r" if "K \<le> el_calls s" for m s
    proof (cases "win_iteration W D process_io ?cms ?start m s")
      case (Inr ms)
      with win_iteration_next(2,3) [OF assms(1,2), of process_io ?cms ?start m s "fst ms" "snd ms"] assms(3)
      obtain n where "el_calls s \<le> n" "TimeSince (w_clock_nanos W n) ?start < ?cms" by auto
      with late [of n] that show ?thesis by simp
    qed simp
  qed
  then show ?thesis
    by (fastforce simp: EvenLoop_win_Wait_def ScopedSetTrue_new_def ScopedSetTrue_delete_def GetDescriptor_fields Let_def)
qed

text \<open>Sockets and dispatchers for the witnesses: the clock advances a millisecond with every call, waits time out.\<close>

definition quiet_winsock :: "(nat, unit) winsock" where
  "quiet_winsock =
     \<lparr>INVALID_SOCKET = - 1, FD_READ = 1, FD_WRITE = 2, FD_ACCEPT = 8, FD_CONNECT = 16, FD_CLOSE = 32,
      WSA_WAIT_EVENT_0 = 0, WSA_WAIT_TIMEOUT = 258, WSA_WAIT_FAILED = - 1,
      WSAWaitForMultipleEvents = (\<lambda>n evs ms. 258), WSAEnumNetworkEvents = (\<lambda>n sock. (- 1, undefined)),
      w_clock_nanos = (\<lambda>n. int n * 1000000), w_elapse = (\<lambda>n s. s)\<rparr>"

definition idle_dispatcher :: "(nat, unit) win_dispatcher" where
  "idle_dispatcher =
     \<lparr>w_requested_events = (\<lambda>p s. DE_READ), w_on_event = (\<lambda>p ff err s. s), w_wsa_event = (\<lambda>p s. ()),
      w_socket = (\<lambda>p s. 5), w_check_signal_close = (\<lambda>p s. (False, s))\<rparr>"

theorem win_wait_returns_witness:
  "\<exists>r t. EvenLoop_win_Wait quiet_winsock idle_dispatcher micros_duration (Micros 3000) True (EvenLoop_win_new True 0) =
     Some (r, t) \<and> \<not> waiting_m t"
proof (rule win_wait_returns [where K = 3])
  show "steady quiet_winsock idle_dispatcher" by (simp add: steady_def quiet_winsock_def idle_dispatcher_def)
  show "honest_wait quiet_winsock" by (simp add: honest_wait_def quiet_winsock_def)
  show "EvenLoop_ToCmsWait micros_duration (Micros 3000) \<noteq> kForeverMs"
    by (simp add: EvenLoop_ToCmsWait_def kForeverMs_def to_int32_id fits_int32_def)
  show "EvenLoop_ToCmsWait micros_duration (Micros 3000) \<le> TimeSince (w_clock_nanos quiet_winsock n)
      (Time (w_clock_nanos quiet_winsock (el_calls (EvenLoop_win_new True (0 :: nat)))))" if "3 \<le> n" for n
    using that by (simp add: EvenLoop_ToCmsWait_def to_int32_id fits_int32_def quiet_winsock_def EvenLoop_win_new_def
        Add_def time_defs Let_def)
qed

text \<open>A wake-up ends the wait on Windows: if the wait reports the signaler's event, the iteration that sees it is the
  last, the wait returns true, and the event is unsignalled again.\<close>

lemma win_wake_up_ends_wait:
  assumes "steady W D" and "fWait_m s"
    and p: "prepare W D process_io s = (evs, owners, t)"
    and dw: "WSAWaitForMultipleEvents W (el_calls t) evs
        (to_uint32 (if cmsWait = kForeverMs then cmsWait else max 0 (cmsWait - m))) = WSA_WAIT_EVENT_0 W + word_of_nat (Suc i)"
    and "WSA_WAIT_EVENT_0 W + word_of_nat (Suc i) \<notin> {WSA_WAIT_FAILED W, WSA_WAIT_TIMEOUT W}"
    and i: "i < length owners" "Suc i < 2 ^ 31" "evs ! Suc i = SignalerEvent"
  shows "\<exists>u. win_loop W D process_io cmsWait msStart m s = Some (True, u) \<and> \<not> fWait_m u \<and> hev_m u \<noteq> Some True"
proof -
  let ?u = "w_elapse W (el_calls t) (el_call t)"
  have ok: "owners_ok s (evs, owners, t)" using prepare_ok [OF assms(1), of s process_io] p by simp
  then have u: "same_dispatchers s ?u" using same_dispatchers_elapse [OF assms(1)] by (simp add: owners_ok_def)
  have "sint (word_of_nat (Suc i) :: u32) = int (Suc i)"
    using i(2) to_int32_id [of "int (Suc i)"]
    by (simp add: to_int32_def to_uint32_def fits_int32_def del: of_nat_Suc)
  moreover obtain disp where "map_of (dispatcher_by_key_m s) (owners ! i) = Some disp" "disp = signal_wakeup_m s"
    using ok i by (auto simp: owners_ok_def)
  moreover have "nat (int (Suc i) - 1) = i" "0 < int (Suc i)" by simp_all
  ultimately have "handle_wait W D process_io owners (WSA_WAIT_EVENT_0 W + word_of_nat (Suc i)) ?u =
      Inr (True, (Signaler_win_OnEvent 0 0 ?u)\<lparr>el_socket_ev_m := False\<rparr>)"
    using assms(5) i(1) u by (simp add: handle_wait_def OnEvent_win_def same_dispatchers_def Let_def del: of_nat_Suc)
  then have "win_iteration W D process_io cmsWait msStart m s =
      Inl (True, (Signaler_win_OnEvent 0 0 ?u)\<lparr>el_socket_ev_m := False\<rparr>)"
    using assms(2) p dw by (simp add: win_iteration_def after_handling_def Let_def Signaler_win_OnEvent_def del: of_nat_Suc)
  then show ?thesis
    using win_event.not_pending [of 0 0 ?u] win_event.not_waits [of 0 0 ?u]
    by (subst win_loop.simps) (auto simp: Signaler_win_OnEvent_def)
qed

definition woken_loop :: "nat EvenLoop_win" where
  "woken_loop = (EvenLoop_win_new True 0)\<lparr>dispatcher_by_key_m := [(3, 0)], hev_m := Some True, fWait_m := True\<rparr>"

definition waking_winsock :: "(nat, unit) winsock" where
  "waking_winsock = quiet_winsock\<lparr>WSAWaitForMultipleEvents := \<lambda>n evs ms. 1\<rparr>"

lemma win_wake_up_ends_wait_example:
  "\<exists>u. win_loop waking_winsock idle_dispatcher True (- 1) 0 0 woken_loop = Some (True, u) \<and> \<not> fWait_m u \<and>
     hev_m u \<noteq> Some True"
proof (rule win_wake_up_ends_wait [where i = 0])
  show "steady waking_winsock idle_dispatcher"
    by (simp add: steady_def waking_winsock_def quiet_winsock_def idle_dispatcher_def)
  show "fWait_m woken_loop" by (simp add: woken_loop_def)
  show "prepare waking_winsock idle_dispatcher True woken_loop =
      ([SocketEvent, SignalerEvent], [3], woken_loop\<lparr>current_dispatcher_keys_m := [3]\<rparr>)"
    by (simp add: prepare_def add_waited_def woken_loop_def EvenLoop_win_new_def Add_def GetSocket_def
        CheckSignalClose_def GetWSAEvent_def Let_def)
qed (simp_all add: waking_winsock_def quiet_winsock_def)

text \<open>The \<^verbatim>\<open>FD_\<close> constants of Winsock are not zero and have no bits in common.\<close>

definition fd_consts_ok :: "('p, 'h) winsock \<Rightarrow> bool" where
  "fd_consts_ok W \<longleftrightarrow>
     FD_READ W \<noteq> 0 \<and> FD_WRITE W \<noteq> 0 \<and> FD_ACCEPT W \<noteq> 0 \<and> FD_CONNECT W \<noteq> 0 \<and> FD_CLOSE W \<noteq> 0 \<and>
     FD_READ W AND FD_WRITE W = 0 \<and> FD_READ W AND FD_ACCEPT W = 0 \<and> FD_READ W AND FD_CONNECT W = 0 \<and> FD_READ W AND FD_CLOSE W = 0 \<and>
     FD_WRITE W AND FD_ACCEPT W = 0 \<and> FD_WRITE W AND FD_CONNECT W = 0 \<and> FD_WRITE W AND FD_CLOSE W = 0 \<and>
     FD_ACCEPT W AND FD_CONNECT W = 0 \<and> FD_ACCEPT W AND FD_CLOSE W = 0 \<and> FD_CONNECT W AND FD_CLOSE W = 0"

lemma FlagsToEvents_or:
  "FlagsToEvents W evs = FD_CLOSE W OR (if evs AND DE_READ \<noteq> 0 then FD_READ W else 0) OR
     (if evs AND DE_WRITE \<noteq> 0 then FD_WRITE W else 0) OR (if evs AND DE_CONNECT \<noteq> 0 then FD_CONNECT W else 0) OR
     (if evs AND DE_ACCEPT \<noteq> 0 then FD_ACCEPT W else 0)"
  by (simp add: FlagsToEvents_def Let_def or.assoc)

lemma and_or_zero: "c AND (a OR b) = 0 \<longleftrightarrow> c AND a = 0 \<and> c AND b = 0" for a b c :: u32
  using or_and_zero [of a b c] by (simp add: and.commute)

lemma selected_flags:
  assumes "fd_consts_ok W"
  shows "FlagsToEvents W evs AND FD_READ W \<noteq> 0 \<longleftrightarrow> evs AND DE_READ \<noteq> 0"
    "FlagsToEvents W evs AND FD_WRITE W \<noteq> 0 \<longleftrightarrow> evs AND DE_WRITE \<noteq> 0"
    "FlagsToEvents W evs AND FD_CONNECT W \<noteq> 0 \<longleftrightarrow> evs AND DE_CONNECT \<noteq> 0"
    "FlagsToEvents W evs AND FD_ACCEPT W \<noteq> 0 \<longleftrightarrow> evs AND DE_ACCEPT \<noteq> 0"
    "FlagsToEvents W evs AND FD_CLOSE W \<noteq> 0"
  using assms unfolding fd_consts_ok_def FlagsToEvents_or by (simp_all add: or_and_zero and_or_zero and.commute)

lemma win_event_flags_form:
  "win_event_flags W e =
     ((if lNetworkEvents e AND FD_READ W \<noteq> 0 then DE_READ else 0) OR
      (if lNetworkEvents e AND FD_WRITE W \<noteq> 0 then DE_WRITE else 0) OR
      (if lNetworkEvents e AND FD_CONNECT W \<noteq> 0 \<and> connect_error e = 0 then DE_CONNECT else 0) OR
      (if lNetworkEvents e AND FD_ACCEPT W \<noteq> 0 then DE_ACCEPT else 0) OR
      (if lNetworkEvents e AND FD_CLOSE W \<noteq> 0 \<or> lNetworkEvents e AND FD_CONNECT W \<noteq> 0 \<and> connect_error e \<noteq> 0
       then DE_CLOSE else 0),
      if lNetworkEvents e AND FD_CLOSE W \<noteq> 0 then close_error e
      else if lNetworkEvents e AND FD_CONNECT W \<noteq> 0 then connect_error e else 0)"
  unfolding win_event_flags_def Let_def
  by (cases "lNetworkEvents e AND FD_READ W = 0"; cases "lNetworkEvents e AND FD_WRITE W = 0";
      cases "lNetworkEvents e AND FD_CONNECT W = 0"; cases "lNetworkEvents e AND FD_ACCEPT W = 0";
      cases "lNetworkEvents e AND FD_CLOSE W = 0"; cases "connect_error e = 0"; simp add: DE_defs)

text \<open>The events a dispatcher asks for survive the trip through Winsock: the mask \<^verbatim>\<open>FlagsToEvents\<close> selects, reported
  back without errors, is told to the dispatcher as exactly the events it asked for and a close; in general a network
  event is told if and only if it occurred, a failed connection as a close, and the error code is that of the close if there is one,
  otherwise that of the connection.\<close>

lemma win_flags_roundtrip:
  assumes "fd_consts_ok W"
  shows "win_event_flags W \<lparr>lNetworkEvents = FlagsToEvents W requested, connect_error = 0, close_error = 0\<rparr> =
      (requested AND (DE_READ OR DE_WRITE OR DE_CONNECT OR DE_ACCEPT) OR DE_CLOSE, 0) \<and>
    fst (win_event_flags W e) =
      (if lNetworkEvents e AND FD_READ W \<noteq> 0 then DE_READ else 0) OR
      (if lNetworkEvents e AND FD_WRITE W \<noteq> 0 then DE_WRITE else 0) OR
      (if lNetworkEvents e AND FD_CONNECT W \<noteq> 0 \<and> connect_error e = 0 then DE_CONNECT else 0) OR
      (if lNetworkEvents e AND FD_ACCEPT W \<noteq> 0 then DE_ACCEPT else 0) OR
      (if lNetworkEvents e AND FD_CLOSE W \<noteq> 0 \<or> lNetworkEvents e AND FD_CONNECT W \<noteq> 0 \<and> connect_error e \<noteq> 0
       then DE_CLOSE else 0) \<and>
    snd (win_event_flags W e) =
      (if lNetworkEvents e AND FD_CLOSE W \<noteq> 0 then close_error e
       else if lNetworkEvents e AND FD_CONNECT W \<noteq> 0 then connect_error e else 0)"
proof -
  note sel = selected_flags [OF assms, of requested]
  have req: "requested AND (DE_READ OR DE_WRITE OR DE_CONNECT OR DE_ACCEPT) =
      (if requested AND DE_READ \<noteq> 0 then DE_READ else 0) OR (if requested AND DE_WRITE \<noteq> 0 then DE_WRITE else 0) OR
      (if requested AND DE_CONNECT \<noteq> 0 then DE_CONNECT else 0) OR (if requested AND DE_ACCEPT \<noteq> 0 then DE_ACCEPT else 0)"
    using and_exp_flag [of requested 0] and_exp_flag [of requested 1] and_exp_flag [of requested 2] and_exp_flag [of requested 4]
    unfolding bit.conj_disj_distrib by (auto simp: DE_defs)
  have close: "(if FlagsToEvents W requested AND FD_CLOSE W \<noteq> 0 \<or> b then DE_CLOSE else 0) = DE_CLOSE" for b
    using sel(5) by simp
  show ?thesis
    unfolding win_event_flags_form req by (simp only: network_events.simps sel close fst_conv snd_conv)
      (simp add: or.assoc)
qed

lemma win_flags_roundtrip_example:
  "win_event_flags quiet_winsock
     \<lparr>lNetworkEvents = FlagsToEvents quiet_winsock DE_READ, connect_error = 0, close_error = 0\<rparr> =
   (DE_READ AND (DE_READ OR DE_WRITE OR DE_CONNECT OR DE_ACCEPT) OR DE_CLOSE, 0)"
proof -
  have "fd_consts_ok quiet_winsock" by (simp add: fd_consts_ok_def quiet_winsock_def)
  from win_flags_roundtrip [OF this] show ?thesis by blast
qed

text \<open>
  The \<^verbatim>\<open>continue\<close> for a dispatcher that was removed during the wait also skips reading the clock: after a wait of nine of ten
  milliseconds that ends with the event of a removed dispatcher, the next wait is again for ten.
\<close>

definition removing_winsock :: "(nat, unit) winsock" where
  "removing_winsock = quiet_winsock\<lparr>WSAWaitForMultipleEvents := (\<lambda>n evs ms. 1), w_clock_nanos := (\<lambda>n. 9000000),
     w_elapse := (\<lambda>n s. s\<lparr>dispatcher_by_key_m := []\<rparr>)\<rparr>"

lemma removed_dispatcher_restarts_wait:
  "win_iteration removing_winsock (idle_dispatcher\<lparr>w_socket := \<lambda>p s. - 1\<rparr>) True 10 0 0
     (woken_loop\<lparr>dispatcher_by_key_m := [(3, 1)]\<rparr>) =
   Inr (0, woken_loop\<lparr>dispatcher_by_key_m := [], current_dispatcher_keys_m := [3], el_calls := 1\<rparr>)"
  by (simp add: win_iteration_def after_handling_def removing_winsock_def quiet_winsock_def idle_dispatcher_def woken_loop_def
      EvenLoop_win_new_def Add_def prepare_def add_waited_def GetSocket_def CheckSignalClose_def GetWSAEvent_def
      handle_wait_def el_call_def kForeverMs_def Let_def)

end
