(* ===== verification/StackTrace.thy ===== *)
theory StackTrace
  imports IO_Prelude
begin

text \<open>
  \<^verbatim>\<open>src/stacktrace.h\<close> and \<^verbatim>\<open>src/stacktrace.cc\<close>: the stack of a thread, recorded by a signal handler that the
  thread is made to run, and printed.

  Objects of type \<^verbatim>\<open>SignalHandlerOutputState\<close> live on the stack of the thread that asks for a trace;
  \<open>outputs\<close> is the store of those that are alive, and \<open>dangling\<close> records that the handler followed a pointer to
  one that is not.  The system is the argument \<open>K\<close>, its calls functions of the number of calls made so far.
  \<open>elapse\<close> is what the other threads, among them the interrupted one, do during a futex call.  The unwinder
  \<^verbatim>\<open>_Unwind_Backtrace\<close> is the argument \<open>B\<close>, the loader's \<^verbatim>\<open>dladdr\<close> the argument \<open>dladdr\<close>.
\<close>

section \<open>Recording a stack\<close>

definition kMaxStackSize :: nat where "kMaxStackSize = 100"

record SignalHandlerOutputState =
  futex_m :: int
  stack_size_counter :: nat
  addresses :: "u64 list"

definition SignalHandlerOutputState_new :: SignalHandlerOutputState where
  "SignalHandlerOutputState_new =
     \<lparr>futex_m = 0, stack_size_counter = 0, addresses = replicate kMaxStackSize 0\<rparr>"

datatype unwind_reason = URC_NO_REASON | URC_END_OF_STACK

text \<open>\<^verbatim>\<open>UnwindBacktrace\<close>: \<open>ip\<close> is \<^verbatim>\<open>_Unwind_GetIP(unwind_context)\<close>, a null output state is \<open>None\<close>.\<close>

definition UnwindBacktrace ::
  "u64 \<Rightarrow> SignalHandlerOutputState option \<Rightarrow> unwind_reason \<times> SignalHandlerOutputState option" where
  "UnwindBacktrace ip output_state =
     (case output_state of
        None \<Rightarrow> (URC_END_OF_STACK, output_state)
      | Some st \<Rightarrow>
          if stack_size_counter st \<ge> kMaxStackSize then (URC_END_OF_STACK, output_state)
          else (URC_NO_REASON,
                Some (st\<lparr>addresses := (addresses st)[stack_size_counter st := ip - 2],
                         stack_size_counter := Suc (stack_size_counter st)\<rparr>)))"

type_synonym unwinder =
  "(u64 \<Rightarrow> SignalHandlerOutputState option \<Rightarrow> unwind_reason \<times> SignalHandlerOutputState option)
     \<Rightarrow> SignalHandlerOutputState option \<Rightarrow> SignalHandlerOutputState option"

text \<open>
  What the ABI says of \<^verbatim>\<open>_Unwind_Backtrace\<close>: the trace function is called for the frames in order, until it
  returns something else than \<^verbatim>\<open>_URC_NO_REASON\<close>.  \<open>backtrace_ok B frames\<close> says that \<open>B\<close> unwinds a stack
  with these instruction pointers.
\<close>

fun trace_frames ::
  "(u64 \<Rightarrow> 'o \<Rightarrow> unwind_reason \<times> 'o) \<Rightarrow> u64 list \<Rightarrow> 'o \<Rightarrow> 'o" where
  "trace_frames trace [] st = st"
| "trace_frames trace (ip # ips) st =
     (case trace ip st of (r, st) \<Rightarrow> if r = URC_NO_REASON then trace_frames trace ips st else st)"

definition backtrace_ok :: "unwinder \<Rightarrow> u64 list \<Rightarrow> bool" where
  "backtrace_ok B frames \<longleftrightarrow> (\<forall>trace st. B trace st = trace_frames trace frames st)"

section \<open>Formatting\<close>

record Dl_info =
  dli_fname :: string
  dli_fbase :: u64
  dli_sname :: "string option"

record StackTraceElement =
  shared_object_path :: string
  relative_address :: u32
  symbol_name :: "string option"

definition StackTraceElement_of :: "u64 \<Rightarrow> Dl_info \<Rightarrow> StackTraceElement" where
  "StackTraceElement_of address dl_info =
     \<lparr>shared_object_path = dli_fname dl_info, relative_address = ucast (address - dli_fbase dl_info),
      symbol_name = dli_sname dl_info\<rparr>"

definition FormatStackTrace ::
  "(u64 \<Rightarrow> Dl_info option) \<Rightarrow> SignalHandlerOutputState \<Rightarrow> StackTraceElement list" where
  "FormatStackTrace dladdr params =
     fold (\<lambda>i stack_trace.
             let address = addresses params ! i
             in case dladdr address of
                  None \<Rightarrow> stack_trace
                | Some dl_info \<Rightarrow> stack_trace @ [StackTraceElement_of address dl_info])
       [0 ..< stack_size_counter params] []"

text \<open>\<^verbatim>\<open>GetStackTrace()\<close>, for the calling thread.\<close>

definition GetStackTrace_self ::
  "unwinder \<Rightarrow> (u64 \<Rightarrow> Dl_info option) \<Rightarrow> StackTraceElement list" where
  "GetStackTrace_self B dladdr =
     (case B UnwindBacktrace (Some SignalHandlerOutputState_new) of
        None \<Rightarrow> []
      | Some params \<Rightarrow> FormatStackTrace dladdr params)"

section \<open>Interrupting a thread\<close>

text \<open>The disposition of the signal: the recording handler, or the one the program had before.\<close>

datatype 'h disposition = SignalHandler_installed | Previous 'h

record 'h GlobalStackUnwinder =
  current_output_state_m :: "nat option"
  outputs :: "nat \<rightharpoonup> SignalHandlerOutputState"
  next_output :: nat
  handler :: "'h disposition"
  dangling :: bool
  st_calls :: nat

record 'h signal_api =
  sigaction :: "nat \<Rightarrow> int"
  tgkill :: "nat \<Rightarrow> int \<Rightarrow> int \<Rightarrow> int"
  futex_wait :: "nat \<Rightarrow> int"
  elapse :: "nat \<Rightarrow> 'h GlobalStackUnwinder \<Rightarrow> 'h GlobalStackUnwinder"

definition GlobalStackUnwinder_new :: "'h \<Rightarrow> 'h GlobalStackUnwinder" where
  "GlobalStackUnwinder_new h =
     \<lparr>current_output_state_m = None, outputs = Map.empty, next_output = 0, handler = Previous h,
      dangling = False, st_calls = 0\<rparr>"

definition st_call :: "'h GlobalStackUnwinder \<Rightarrow> 'h GlobalStackUnwinder" where
  "st_call s = s\<lparr>st_calls := Suc (st_calls s)\<rparr>"

text \<open>\<^verbatim>\<open>AsyncSafeWaitableEvent::Signal\<close>; the wake-up it sends is part of \<open>elapse\<close> of the waiting thread.\<close>

definition AsyncSafe_Signal :: "SignalHandlerOutputState \<Rightarrow> SignalHandlerOutputState" where
  "AsyncSafe_Signal st = st\<lparr>futex_m := 1\<rparr>"

definition SignalHandler :: "unwinder \<Rightarrow> 'h GlobalStackUnwinder \<Rightarrow> 'h GlobalStackUnwinder" where
  "SignalHandler B s =
     (case current_output_state_m s of
        None \<Rightarrow> s
      | Some p \<Rightarrow>
          (case outputs s p of
             None \<Rightarrow> s\<lparr>dangling := True\<rparr>
           | Some st \<Rightarrow> s\<lparr>outputs := (outputs s)(p := map_option AsyncSafe_Signal (B UnwindBacktrace (Some st)))\<rparr>))"

text \<open>A delivery of the signal: what runs depends on the disposition; the program's own handler is \<open>run_previous\<close>.\<close>

definition deliver ::
  "unwinder \<Rightarrow> ('h \<Rightarrow> 'h GlobalStackUnwinder \<Rightarrow> 'h GlobalStackUnwinder)
     \<Rightarrow> 'h GlobalStackUnwinder \<Rightarrow> 'h GlobalStackUnwinder" where
  "deliver B run_previous s =
     (case handler s of SignalHandler_installed \<Rightarrow> SignalHandler B s | Previous h \<Rightarrow> run_previous h s)"

text \<open>\<^verbatim>\<open>AsyncSafeWaitableEvent::Wait\<close> on the event of the output state at \<open>p\<close>.\<close>

partial_function (option) AsyncSafe_Wait ::
  "'h signal_api \<Rightarrow> nat \<Rightarrow> 'h GlobalStackUnwinder \<Rightarrow> (bool \<times> 'h GlobalStackUnwinder) option" where
  "AsyncSafe_Wait K p s =
     (let res = futex_wait K (st_calls s);
          s = elapse K (st_calls s) (st_call s)
      in if (case outputs s p of None \<Rightarrow> 0 | Some st \<Rightarrow> futex_m st) \<noteq> 0 then Some (True, s)
         else if res \<noteq> 0 then Some (False, s)
         else AsyncSafe_Wait K p s)"

datatype capture_error = Failed_to_change_signal_action | Failed_to_interrupt_thread | Failed_to_wait

text \<open>
  \<^verbatim>\<open>CaptureRawStacktrace\<close>; the whole body after the declarations runs under \<^verbatim>\<open>mutex_\<close>.  The second
  \<^verbatim>\<open>sigaction\<close> restores the old disposition unless it fails; its result is ignored.
\<close>

definition CaptureRawStacktrace ::
  "'h signal_api \<Rightarrow> int \<Rightarrow> int \<Rightarrow> nat \<Rightarrow> 'h GlobalStackUnwinder
     \<Rightarrow> (capture_error option \<times> 'h GlobalStackUnwinder) option" where
  "CaptureRawStacktrace K pid tid params s =
     (let s = s\<lparr>current_output_state_m := Some params\<rparr>;
          r = sigaction K (st_calls s); s = st_call s
      in if r \<noteq> 0 then Some (Some Failed_to_change_signal_action, s)
         else
           let old_act = handler s;
               s = s\<lparr>handler := SignalHandler_installed\<rparr>;
               r = tgkill K (st_calls s) pid tid; s = st_call s
           in if r \<noteq> 0 then Some (Some Failed_to_interrupt_thread, s)
              else
                map_option (\<lambda>(finished, s).
                    if \<not> finished then (Some Failed_to_wait, s)
                    else (None, (if sigaction K (st_calls s) = 0 then s\<lparr>handler := old_act\<rparr> else s)
                                \<lparr>st_calls := Suc (st_calls s)\<rparr>))
                  (AsyncSafe_Wait K params s))"

text \<open>\<^verbatim>\<open>GetStackTrace(tid)\<close>: \<^verbatim>\<open>params\<close> is a local variable, gone when the function returns.\<close>

definition GetStackTrace ::
  "'h signal_api \<Rightarrow> (u64 \<Rightarrow> Dl_info option) \<Rightarrow> int \<Rightarrow> int \<Rightarrow> 'h GlobalStackUnwinder
     \<Rightarrow> (StackTraceElement list \<times> 'h GlobalStackUnwinder) option" where
  "GetStackTrace K dladdr pid tid s =
     (let p = next_output s;
          s = s\<lparr>outputs := (outputs s)(p \<mapsto> SignalHandlerOutputState_new), next_output := Suc p\<rparr>
      in map_option (\<lambda>(error_string, s).
             (case error_string of
                Some e \<Rightarrow> []
              | None \<Rightarrow> (case outputs s p of None \<Rightarrow> [] | Some params \<Rightarrow> FormatStackTrace dladdr params),
              s\<lparr>outputs := (outputs s)(p := None)\<rparr>))
           (CaptureRawStacktrace K pid tid p s))"

section \<open>Printing\<close>

text \<open>The conversions \<^verbatim>\<open>%02zu\<close> and \<^verbatim>\<open>%08x\<close> of \<^verbatim>\<open>printf\<close>: digits in base ten or sixteen, padded with zeros.\<close>

definition digit_char :: "int \<Rightarrow> char" where
  "digit_char d = char_of (if d < 10 then 48 + d else 87 + d)"

function digits :: "int \<Rightarrow> int \<Rightarrow> string" where
  "digits b n = (if b < 2 \<or> n < b then [digit_char n] else digits b (n div b) @ [digit_char (n mod b)])"
  by pat_completeness auto
termination
  by (relation "measure (\<lambda>(b, n). nat n)") (auto simp: int_div_less_self)

declare digits.simps [simp del]

definition zero_pad :: "nat \<Rightarrow> string \<Rightarrow> string" where
  "zero_pad w cs = replicate (w - length cs) (digit_char 0) @ cs"

definition newline :: char where "newline = char_of (10 :: nat)"
definition space :: char where "space = char_of (32 :: nat)"

definition trace_line :: "nat \<Rightarrow> StackTraceElement \<Rightarrow> string" where
  "trace_line i e =
     ''#'' @ zero_pad 2 (digits 10 (int i)) @ [space] @ ''pc'' @ [space] @
     zero_pad 8 (digits 16 (uint (relative_address e))) @ [space] @ shared_object_path e @
     (case symbol_name e of None \<Rightarrow> [] | Some name \<Rightarrow> space # name) @ [newline]"

definition StackTraceToString :: "StackTraceElement list \<Rightarrow> string" where
  "StackTraceToString stack_trace =
     fold (\<lambda>i string_builder. string_builder @ trace_line i (stack_trace ! i)) [0 ..< length stack_trace] []"

text \<open>What \<^verbatim>\<open>Event::Wait\<close> of \<^verbatim>\<open>src/event.cc\<close> logs on Android when a wait takes too long, given the trace of the
  current thread; elsewhere it logs nothing.\<close>

definition WarnThatTheCurrentThreadIsProbablyDeadlocked :: "bool \<Rightarrow> StackTraceElement list \<Rightarrow> string list" where
  "WarnThatTheCurrentThreadIsProbablyDeadlocked android stack_trace =
     (if android then [''Probable deadlock:'', StackTraceToString stack_trace] else [])"

text \<open>A reader of that format, to say what the printed trace tells.\<close>

fun split_on :: "char \<Rightarrow> string \<Rightarrow> string list" where
  "split_on c [] = [[]]"
| "split_on c (x # xs) =
     (if x = c then [] # split_on c xs
      else case split_on c xs of [] \<Rightarrow> [[x]] | w # ws \<Rightarrow> (x # w) # ws)"

definition digit_value :: "char \<Rightarrow> int" where
  "digit_value c = (if of_char c < (58 :: int) then of_char c - 48 else of_char c - 87)"

definition read_number :: "int \<Rightarrow> string \<Rightarrow> int" where
  "read_number b cs = foldl (\<lambda>n c. n * b + digit_value c) 0 cs"

fun read_line :: "string list \<Rightarrow> (nat \<times> StackTraceElement) option" where
  "read_line [i, pc, a, path] =
     Some (nat (read_number 10 (tl i)),
       \<lparr>shared_object_path = path, relative_address = word_of_int (read_number 16 a), symbol_name = None\<rparr>)"
| "read_line [i, pc, a, path, name] =
     Some (nat (read_number 10 (tl i)),
       \<lparr>shared_object_path = path, relative_address = word_of_int (read_number 16 a), symbol_name = Some name\<rparr>)"
| "read_line _ = None"

definition read_trace :: "string \<Rightarrow> (nat \<times> StackTraceElement) option list" where
  "read_trace cs = map (\<lambda>l. read_line (split_on space l)) (butlast (split_on newline cs))"

section \<open>Lemmas on recording\<close>

lemma UnwindBacktrace_simps:
  "UnwindBacktrace ip None = (URC_END_OF_STACK, None)"
  "stack_size_counter st < kMaxStackSize \<Longrightarrow> UnwindBacktrace ip (Some st) =
     (URC_NO_REASON, Some (st\<lparr>addresses := (addresses st)[stack_size_counter st := ip - 2],
        stack_size_counter := Suc (stack_size_counter st)\<rparr>))"
  "kMaxStackSize \<le> stack_size_counter st \<Longrightarrow> UnwindBacktrace ip (Some st) = (URC_END_OF_STACK, Some st)"
  by (simp_all add: UnwindBacktrace_def)

text \<open>The array keeps its length, and its first entries are the frames seen so far.\<close>

lemma trace_frames_Unwind:
  assumes "length (addresses st) = kMaxStackSize" and "stack_size_counter st \<le> kMaxStackSize"
  shows "\<exists>st'. trace_frames UnwindBacktrace ips (Some st) = Some st' \<and> futex_m st' = futex_m st \<and>
    length (addresses st') = kMaxStackSize \<and>
    stack_size_counter st' = min kMaxStackSize (stack_size_counter st + length ips) \<and>
    take (stack_size_counter st') (addresses st') =
      take (stack_size_counter st) (addresses st) @
      map (\<lambda>ip. ip - 2) (take (kMaxStackSize - stack_size_counter st) ips)"
  using assms
proof (induction ips arbitrary: st)
  case (Cons ip ips)
  show ?case
  proof (cases "stack_size_counter st < kMaxStackSize")
    case True
    let ?st = "st\<lparr>addresses := (addresses st)[stack_size_counter st := ip - 2],
      stack_size_counter := Suc (stack_size_counter st)\<rparr>"
    have "take (Suc (stack_size_counter st)) (addresses ?st) = take (stack_size_counter st) (addresses st) @ [ip - 2]"
      using True Cons.prems(1) by (simp add: take_Suc_conv_app_nth)
    moreover have "kMaxStackSize - stack_size_counter st = Suc (kMaxStackSize - Suc (stack_size_counter st))"
      using True by simp
    ultimately show ?thesis
      using Cons.IH [of ?st] Cons.prems True by (auto simp: UnwindBacktrace_simps)
  next
    case False
    then show ?thesis using Cons.prems by (simp add: UnwindBacktrace_simps)
  qed
qed simp

definition symbolize :: "(u64 \<Rightarrow> Dl_info option) \<Rightarrow> u64 list \<Rightarrow> StackTraceElement list" where
  "symbolize dladdr = List.map_filter (\<lambda>a. map_option (StackTraceElement_of a) (dladdr a))"

lemma symbolize_simps [simp]:
  "symbolize dladdr [] = []"
  "symbolize dladdr (xs @ ys) = symbolize dladdr xs @ symbolize dladdr ys"
  "symbolize dladdr [a] = (case dladdr a of None \<Rightarrow> [] | Some d \<Rightarrow> [StackTraceElement_of a d])"
  by (simp_all add: symbolize_def List.map_filter_def split: option.split)

lemma FormatStackTrace_symbolize:
  assumes "stack_size_counter st \<le> length (addresses st)"
  shows "FormatStackTrace dladdr st = symbolize dladdr (take (stack_size_counter st) (addresses st))"
proof -
  let ?f = "\<lambda>i tr. let a = addresses st ! i in case dladdr a of None \<Rightarrow> tr | Some d \<Rightarrow> tr @ [StackTraceElement_of a d]"
  have "n \<le> length (addresses st) \<Longrightarrow> fold ?f [0 ..< n] [] = symbolize dladdr (take n (addresses st))" for n
    by (induction n) (auto simp: take_Suc_conv_app_nth Let_def split: option.split)
  with assms show ?thesis by (simp add: FormatStackTrace_def)
qed

lemma futex_new [simp]: "futex_m SignalHandlerOutputState_new = 0"
  by (simp add: SignalHandlerOutputState_new_def)

text \<open>The frames a trace shows: the innermost hundred, each two bytes before its return address.\<close>

definition shown_frames :: "u64 list \<Rightarrow> u64 list" where
  "shown_frames frames = map (\<lambda>ip. ip - 2) (take kMaxStackSize frames)"

lemma recorded:
  assumes "backtrace_ok B frames"
  shows "\<exists>st. B UnwindBacktrace (Some SignalHandlerOutputState_new) = Some st \<and> futex_m st = 0 \<and>
    length (addresses st) = kMaxStackSize \<and> stack_size_counter st \<le> kMaxStackSize \<and>
    FormatStackTrace dladdr st = symbolize dladdr (shown_frames frames)"
proof -
  obtain st where st: "trace_frames UnwindBacktrace frames (Some SignalHandlerOutputState_new) = Some st"
      "futex_m st = 0" "length (addresses st) = kMaxStackSize" "stack_size_counter st \<le> kMaxStackSize"
      "take (stack_size_counter st) (addresses st) = shown_frames frames"
    using trace_frames_Unwind [of SignalHandlerOutputState_new frames]
    by (auto simp: SignalHandlerOutputState_new_def shown_frames_def)
  then show ?thesis
    using assms FormatStackTrace_symbolize [of st dladdr] by (auto simp: backtrace_ok_def)
qed

section \<open>Lemmas on capturing\<close>

text \<open>The interrupted thread takes the signal during the futex call with number \<open>k\<close>; the calls before it wake up spuriously.\<close>

definition interrupted_at ::
  "'h signal_api \<Rightarrow> unwinder \<Rightarrow> ('h \<Rightarrow> 'h GlobalStackUnwinder \<Rightarrow> 'h GlobalStackUnwinder) \<Rightarrow> nat \<Rightarrow> bool" where
  "interrupted_at K B run_previous k \<longleftrightarrow>
     (\<forall>n s. elapse K n s = (if n = k then deliver B run_previous s else s)) \<and> (\<forall>n < k. futex_wait K n = 0)"

lemma AsyncSafe_Wait_interrupted:
  assumes "interrupted_at K B run_previous k" and "st_calls s \<le> k"
    and "handler s = SignalHandler_installed" and "current_output_state_m s = Some p"
    and "outputs s p = Some st" and "futex_m st = 0" and "B UnwindBacktrace (Some st) = Some st'"
  shows "AsyncSafe_Wait K p s =
    Some (True, s\<lparr>st_calls := Suc k, outputs := (outputs s)(p \<mapsto> AsyncSafe_Signal st')\<rparr>)"
  using assms(2-6)
proof (induction "k - st_calls s" arbitrary: s)
  case 0
  then have "st_calls s = k" by simp
  with 0 assms(1,7) show ?case
    by (subst AsyncSafe_Wait.simps)
      (simp add: interrupted_at_def deliver_def st_call_def SignalHandler_def AsyncSafe_Signal_def Let_def)
next
  case (Suc d)
  then have "st_calls s < k" by simp
  moreover have "AsyncSafe_Wait K p (st_call s) =
      Some (True, s\<lparr>st_calls := Suc k, outputs := (outputs s)(p \<mapsto> AsyncSafe_Signal st')\<rparr>)"
    using Suc.hyps(1) [of "st_call s"] Suc.hyps(2) Suc.prems by (simp add: st_call_def)
  ultimately show ?case
    using assms(1) Suc.prems
    by (subst AsyncSafe_Wait.simps) (simp add: interrupted_at_def st_call_def)
qed

section \<open>Lemmas on printing\<close>

lemma separators: "space = CHR '' ''" "newline = CHR 0x0A"
  by (code_simp, code_simp)

lemma digit_value_char: "0 \<le> d \<Longrightarrow> d < 16 \<Longrightarrow> digit_value (digit_char d) = d"
  by (simp add: digit_value_def digit_char_def)

lemma digit_char_neq:
  assumes "0 \<le> d" "d < 16"
  shows "digit_char d \<noteq> space \<and> digit_char d \<noteq> newline"
proof -
  have "of_char (digit_char d) \<noteq> (32 :: int)" "of_char (digit_char d) \<noteq> (10 :: int)"
    using assms by (simp_all add: digit_char_def)
  moreover have "of_char space = (32 :: int)" "of_char newline = (10 :: int)"
    by (simp_all add: separators)
  ultimately show ?thesis by metis
qed

lemma read_number_snoc: "read_number b (cs @ [c]) = read_number b cs * b + digit_value c"
  by (simp add: read_number_def)

lemma read_number_zeros: "read_number b (replicate k (digit_char 0) @ cs) = read_number b cs"
  by (induction k) (simp_all add: read_number_def digit_value_char)

lemma last_digit: "1 < b \<Longrightarrow> b \<le> 16 \<Longrightarrow> n mod b < 16" for b n :: int
  using pos_mod_bound [of b n] by linarith

lemma read_number_digits:
  assumes "1 < b" "b \<le> 16" "0 \<le> n"
  shows "read_number b (zero_pad w (digits b n)) = n"
proof -
  have "read_number b (digits b n) = n"
    using assms
  proof (induction b n rule: digits.induct)
    case (1 b n)
    show ?case
    proof (cases "n < b")
      case True
      then show ?thesis using 1(2-4) digit_value_char [of n]
        by (subst digits.simps) (simp add: read_number_def)
    next
      case False
      have "0 \<le> n mod b" "n mod b < 16" "0 \<le> n div b"
        using 1(2-4) last_digit [of b n] by (simp_all add: pos_imp_zdiv_nonneg_iff)
      then show ?thesis
        using False 1 digit_value_char [of "n mod b"] by (subst digits.simps) (simp add: read_number_snoc)
    qed
  qed
  then show ?thesis by (simp add: zero_pad_def read_number_zeros)
qed

lemma set_digits:
  assumes "1 < b" "b \<le> 16" "0 \<le> n" "c \<in> set (digits b n)"
  shows "c \<noteq> space \<and> c \<noteq> newline"
  using assms
proof (induction b n rule: digits.induct)
  case (1 b n)
  have "0 \<le> n mod b" "n mod b < 16" "0 \<le> n div b"
        using 1(2-4) last_digit [of b n] by (simp_all add: pos_imp_zdiv_nonneg_iff)
  moreover have "c \<in> set (if n < b then [digit_char n] else digits b (n div b) @ [digit_char (n mod b)])"
    using 1(2,5) by (simp add: digits.simps [of b n] split: if_splits)
  ultimately show ?case
    using 1(1-4) digit_char_neq [of n] digit_char_neq [of "n mod b"] by (auto split: if_splits)
qed

lemma set_zero_pad:
  assumes "1 < b" "b \<le> 16" "0 \<le> n" "c \<in> set (zero_pad w (digits b n))"
  shows "c \<noteq> space \<and> c \<noteq> newline"
  using assms set_digits digit_char_neq [of 0] by (auto simp: zero_pad_def)

text \<open>Splitting words that were each ended by the separator.\<close>

lemma split_on_words:
  "\<forall>w \<in> set ws. c \<notin> set w \<Longrightarrow> c \<notin> set x \<Longrightarrow> split_on c (concat (map (\<lambda>w. w @ [c]) ws) @ x) = ws @ [x]"
proof (induction ws)
  case Nil
  have "c \<notin> set x \<Longrightarrow> split_on c x = [x]" by (induction x) auto
  with Nil show ?case by simp
next
  case (Cons w ws)
  have "c \<notin> set w \<Longrightarrow> split_on c (w @ c # ys) = w # split_on c ys" for ys by (induction w) auto
  with Cons show ?case by simp
qed

text \<open>The names in a trace are words: paths and mangled symbols without spaces and line ends.\<close>

definition word_names :: "StackTraceElement \<Rightarrow> bool" where
  "word_names e \<longleftrightarrow> (\<forall>name \<in> insert (shared_object_path e) (set_option (symbol_name e)).
     space \<notin> set name \<and> newline \<notin> set name)"

definition line_body :: "nat \<Rightarrow> StackTraceElement \<Rightarrow> string" where
  "line_body i e = butlast (trace_line i e)"

lemma trace_line_body: "trace_line i e = line_body i e @ [newline]"
  by (simp add: line_body_def trace_line_def butlast_append)

lemma line_body_no_newline: "word_names e \<Longrightarrow> newline \<notin> set (line_body i e)"
  using set_zero_pad [of 10 "int i" newline 2] set_zero_pad [of 16 "uint (relative_address e)" newline 8]
  by (auto simp: line_body_def trace_line_def butlast_append word_names_def separators
      split: option.splits)

lemma read_line_body: 
  assumes "word_names e"
  shows "read_line (split_on space (line_body i e)) = Some (i, e)"
proof -
  let ?i = "''#'' @ zero_pad 2 (digits 10 (int i))" and ?a = "zero_pad 8 (digits 16 (uint (relative_address e)))"
  have words: "space \<notin> set ?i" "space \<notin> set ''pc''" "space \<notin> set ?a" "space \<notin> set (shared_object_path e)"
    using assms set_zero_pad [of 10 "int i" space 2] set_zero_pad [of 16 "uint (relative_address e)" space 8]
    by (auto simp: word_names_def separators)
  have e: "e = \<lparr>shared_object_path = shared_object_path e, relative_address = relative_address e, symbol_name = symbol_name e\<rparr>"
    by simp
  have "split_on space (line_body i e) =
      [?i, ''pc'', ?a, shared_object_path e] @ (case symbol_name e of None \<Rightarrow> [] | Some n \<Rightarrow> [n])"
  proof (cases "symbol_name e")
    case None
    then have "line_body i e = concat (map (\<lambda>w. w @ [space]) [?i, ''pc'', ?a]) @ shared_object_path e"
      by (simp add: line_body_def trace_line_def butlast_append)
    with None words show ?thesis using split_on_words [of "[?i, ''pc'', ?a]" space "shared_object_path e"] by simp
  next
    case (Some name)
    then have "line_body i e = concat (map (\<lambda>w. w @ [space]) [?i, ''pc'', ?a, shared_object_path e]) @ name"
      by (simp add: line_body_def trace_line_def butlast_append)
    moreover have "space \<notin> set name" using assms Some by (simp add: word_names_def)
    ultimately show ?thesis
      using Some words split_on_words [of "[?i, ''pc'', ?a, shared_object_path e]" space name] by simp
  qed
  then show ?thesis
    using read_number_digits [of 10 "int i" 2] read_number_digits [of 16 "uint (relative_address e)" 8] e
    by (cases "symbol_name e") simp_all
qed

lemma StackTraceToString_lines:
  "StackTraceToString tr = concat (map (\<lambda>w. w @ [newline]) (map (\<lambda>i. line_body i (tr ! i)) [0 ..< length tr]))"
proof -
  have "fold (\<lambda>i b. b @ f i) is b0 = b0 @ concat (map f is)" for f :: "nat \<Rightarrow> string" and "is" b0
    by (induction "is" arbitrary: b0) simp_all
  then show ?thesis by (simp add: StackTraceToString_def trace_line_body comp_def)
qed

lemma read_trace_lines:
  assumes "\<forall>e \<in> set tr. word_names e"
  shows "read_trace (StackTraceToString tr) = map (\<lambda>i. Some (i, tr ! i)) [0 ..< length tr]"
proof -
  let ?ws = "map (\<lambda>i. line_body i (tr ! i)) [0 ..< length tr]"
  have "split_on newline (StackTraceToString tr) = ?ws @ [[]]"
    using assms line_body_no_newline split_on_words [of ?ws newline "[]"] by (simp add: StackTraceToString_lines)
  then show ?thesis using assms by (simp add: read_trace_def comp_def read_line_body)
qed

section \<open>Properties\<close>

text \<open>A thread that asks for its own trace gets its innermost hundred frames, innermost first, each with the
  address of the call, two bytes before the return address; frames the loader does not know are left out, and nothing else is.\<close>

lemma own_trace_exact:
  assumes "backtrace_ok B frames"
  shows "GetStackTrace_self B dladdr = symbolize dladdr (shown_frames frames)"
  using recorded [OF assms, of dladdr] by (auto simp: GetStackTrace_self_def)

lemma own_trace_exact_example:
  "GetStackTrace_self (\<lambda>trace. trace_frames trace (replicate 200 7)) (\<lambda>a. None) = []"
  using own_trace_exact [of "\<lambda>trace. trace_frames trace (replicate 200 7)" "replicate 200 7" "\<lambda>a. None"]
  by (simp add: backtrace_ok_def symbolize_def List.map_filter_def)

text \<open>C32. The trace of another thread: if the signal can be sent, \<^verbatim>\<open>GetStackTrace\<close> returns once that thread has run the handler,
  however often the wait wakes up without reason before; the result is that thread's trace, the
  previous signal handler is installed again, and no output state is left behind or was used after its lifetime.\<close>

theorem thread_trace_exact:
  assumes "backtrace_ok B frames" and int: "interrupted_at K B run_previous (st_calls s + 2 + k)"
    and "\<And>n. sigaction K n = 0" and "tgkill K (Suc (st_calls s)) pid tid = 0"
    and "outputs s (next_output s) = None"
  shows "\<exists>t. GetStackTrace K dladdr pid tid s = Some (symbolize dladdr (shown_frames frames), t) \<and>
    handler t = handler s \<and> outputs t = outputs s \<and> dangling t = dangling s"
proof -
  let ?p = "next_output s"
  let ?s = "s\<lparr>outputs := (outputs s)(?p \<mapsto> SignalHandlerOutputState_new), next_output := Suc ?p,
    current_output_state_m := Some ?p, handler := SignalHandler_installed, st_calls := st_calls s + 2\<rparr>"
  obtain st where st: "B UnwindBacktrace (Some SignalHandlerOutputState_new) = Some st" "futex_m st = 0"
      "length (addresses st) = kMaxStackSize" "stack_size_counter st \<le> kMaxStackSize"
      "FormatStackTrace dladdr st = symbolize dladdr (shown_frames frames)"
    using recorded [OF assms(1)] by blast
  have "AsyncSafe_Wait K ?p ?s =
      Some (True, ?s\<lparr>st_calls := Suc (st_calls s + 2 + k), outputs := (outputs ?s)(?p \<mapsto> AsyncSafe_Signal st)\<rparr>)"
    by (rule AsyncSafe_Wait_interrupted [OF int]) (use st(1) futex_new in \<open>simp_all\<close>)
  moreover have "FormatStackTrace dladdr (AsyncSafe_Signal st) = FormatStackTrace dladdr st"
    by (simp add: FormatStackTrace_def AsyncSafe_Signal_def)
  ultimately show ?thesis
    using assms(3-5) st(5) by (simp add: GetStackTrace_def CaptureRawStacktrace_def st_call_def fun_upd_idem Let_def)
qed

text \<open>A program whose handler is run when the first futex call is made.\<close>

definition prompt_thread :: "unwinder \<Rightarrow> nat \<Rightarrow> unit signal_api" where
  "prompt_thread B k =
     \<lparr>sigaction = (\<lambda>n. 0), tgkill = (\<lambda>n pid tid. 0), futex_wait = (\<lambda>n. 0),
      elapse = (\<lambda>n s. if n = k then deliver B (\<lambda>h s. s) s else s)\<rparr>"

theorem thread_trace_exact_witness:
  "\<exists>t. GetStackTrace (prompt_thread (\<lambda>trace. trace_frames trace [42]) 5)
       (\<lambda>a. Some \<lparr>dli_fname = ''a.so'', dli_fbase = 8, dli_sname = None\<rparr>) 1 2 (GlobalStackUnwinder_new ()) =
     Some ([\<lparr>shared_object_path = ''a.so'', relative_address = 32, symbol_name = None\<rparr>], t) \<and>
     handler t = Previous ()"
proof -
  let ?B = "\<lambda>trace. trace_frames trace [42]"
  have "interrupted_at (prompt_thread ?B 5) ?B (\<lambda>h s. s) (st_calls (GlobalStackUnwinder_new ()) + 2 + 3)"
    by (simp add: interrupted_at_def prompt_thread_def GlobalStackUnwinder_new_def)
  from thread_trace_exact [OF _ this, of "[42]" 1 2
      "\<lambda>a. Some \<lparr>dli_fname = ''a.so'', dli_fbase = 8, dli_sname = None\<rparr>"] show ?thesis
    by (simp add: backtrace_ok_def prompt_thread_def GlobalStackUnwinder_new_def shown_frames_def kMaxStackSize_def
        StackTraceElement_of_def) blast
qed



text \<open>What is printed.\<close>

lemma print_two_frames:
  "StackTraceToString
     [\<lparr>shared_object_path = ''a.so'', relative_address = 0x1F, symbol_name = Some ''f''\<rparr>,
      \<lparr>shared_object_path = ''b.so'', relative_address = 0xDEADBEEF, symbol_name = None\<rparr>] =
   ''#00 pc 0000001f a.so f'' @ [CHR 0x0A] @ ''#01 pc deadbeef b.so'' @ [CHR 0x0A]"
  by code_simp

text \<open>C35. A printed trace can be read back: \<^verbatim>\<open>StackTraceToString\<close> writes one line per frame, and from the line the frame's
  number, its address, the path of its object and the name of its symbol, or that there is none, are
  recovered, provided paths and names contain neither spaces nor line ends.\<close>

theorem trace_roundtrip:
  assumes "\<forall>e \<in> set tr. word_names e"
  shows "read_trace (StackTraceToString tr) = map (\<lambda>i. Some (i, tr ! i)) [0 ..< length tr]"
  using assms by (rule read_trace_lines)

theorem trace_roundtrip_witness:
  "read_trace (StackTraceToString [\<lparr>shared_object_path = ''a.so'', relative_address = 0x1F, symbol_name = Some ''f''\<rparr>]) =
     [Some (0, \<lparr>shared_object_path = ''a.so'', relative_address = 0x1F, symbol_name = Some ''f''\<rparr>)]"
  using trace_roundtrip [of "[\<lparr>shared_object_path = ''a.so'', relative_address = 0x1F, symbol_name = Some ''f''\<rparr>]"]
  by (simp add: word_names_def separators)

end
