(* ===== verification/YieldPolicy.thy ===== *)
theory YieldPolicy
  imports IO_Prelude
begin

text \<open>
  \<^verbatim>\<open>src/yield_policy.h\<close> and \<^verbatim>\<open>src/yield_policy.cc\<close>: the yield policy of a thread, set for the lifetime of a
  \<^verbatim>\<open>ScopedYieldPolicy\<close>.  The source has two implementations of the thread's variable, one with \<^verbatim>\<open>thread_local\<close> and one with a
  key of the pthread library; both are here, and the second is shown to refine the first.  Threads
  are numbers, a null policy is \<open>None\<close>.
\<close>

section \<open>The thread-local variable\<close>

type_synonym 'p tls = "nat \<Rightarrow> 'p option"

definition GetCurrentYieldPolicy :: "nat \<Rightarrow> 'p tls \<Rightarrow> 'p option" where
  "GetCurrentYieldPolicy self current_yield_policy = current_yield_policy self"

definition SetCurrentYieldPolicy :: "nat \<Rightarrow> 'p option \<Rightarrow> 'p tls \<Rightarrow> 'p tls" where
  "SetCurrentYieldPolicy self ptr current_yield_policy = current_yield_policy(self := ptr)"

definition ScopedYieldPolicy_new :: "nat \<Rightarrow> 'p option \<Rightarrow> 'p tls \<Rightarrow> 'p option \<times> 'p tls" where
  "ScopedYieldPolicy_new self policy tls =
     (let previous = GetCurrentYieldPolicy self tls in (previous, SetCurrentYieldPolicy self policy tls))"

definition ScopedYieldPolicy_delete :: "nat \<Rightarrow> 'p option \<Rightarrow> 'p tls \<Rightarrow> 'p tls" where
  "ScopedYieldPolicy_delete self previous tls = SetCurrentYieldPolicy self previous tls"

text \<open>\<^verbatim>\<open>YieldExecution\<close>: the policies called so far are listed in \<open>called\<close>.\<close>

definition YieldExecution :: "nat \<Rightarrow> 'p tls \<Rightarrow> 'p list \<Rightarrow> 'p list" where
  "YieldExecution self tls called =
     (case GetCurrentYieldPolicy self tls of None \<Rightarrow> called | Some current \<Rightarrow> called @ [current])"

interpretation yield_variable: scoped_variable "GetCurrentYieldPolicy self" "SetCurrentYieldPolicy self" for self
  by unfold_locales (simp_all add: GetCurrentYieldPolicy_def SetCurrentYieldPolicy_def)

section \<open>The pthread key\<close>

text \<open>
  \<open>once_m\<close> is the state of \<^verbatim>\<open>init_once\<close>, \<open>specific\<close> the values under each key and thread.  \<open>key_create\<close> is the answer of
  \<^verbatim>\<open>pthread_key_create\<close>: the new key, whose value is null in every thread, or \<open>None\<close> if it fails.
\<close>

record 'p pthread_tls =
  once_m :: bool
  g_current_yield_policy_tls :: nat
  specific :: "nat \<Rightarrow> nat \<Rightarrow> 'p option"

definition pthread_tls_new :: "(nat \<Rightarrow> nat \<Rightarrow> 'p option) \<Rightarrow> 'p pthread_tls" where
  "pthread_tls_new others = \<lparr>once_m = False, g_current_yield_policy_tls = 0, specific = others\<rparr>"

definition InitializeTls :: "nat option \<Rightarrow> 'p pthread_tls \<Rightarrow> fault + 'p pthread_tls" where
  "InitializeTls key_create s =
     (case key_create of
        None \<Rightarrow> Inl CHECK_failed
      | Some key \<Rightarrow>
          Inr (s\<lparr>g_current_yield_policy_tls := key, specific := (specific s)(key := (\<lambda>self. None))\<rparr>))"

definition GetCurrentYieldPolicyTls :: "nat option \<Rightarrow> 'p pthread_tls \<Rightarrow> fault + nat \<times> 'p pthread_tls" where
  "GetCurrentYieldPolicyTls key_create s =
     (if once_m s then Inr (g_current_yield_policy_tls s, s)
      else case InitializeTls key_create (s\<lparr>once_m := True\<rparr>) of
             Inl f \<Rightarrow> Inl f
           | Inr s \<Rightarrow> Inr (g_current_yield_policy_tls s, s))"

definition pthread_Get :: "nat option \<Rightarrow> nat \<Rightarrow> 'p pthread_tls \<Rightarrow> fault + 'p option \<times> 'p pthread_tls" where
  "pthread_Get key_create self s =
     map_sum id (\<lambda>(key, s). (specific s key self, s)) (GetCurrentYieldPolicyTls key_create s)"

definition pthread_Set :: "nat option \<Rightarrow> nat \<Rightarrow> 'p option \<Rightarrow> 'p pthread_tls \<Rightarrow> fault + 'p pthread_tls" where
  "pthread_Set key_create self ptr s =
     map_sum id (\<lambda>(key, s). s\<lparr>specific := (specific s)(key := (specific s key)(self := ptr))\<rparr>)
       (GetCurrentYieldPolicyTls key_create s)"

section \<open>Blocks of code\<close>

text \<open>
  What a thread does with policies, as nested blocks: yield, or open a block under a policy.
  \<open>run\<close> executes it with the operations above, \<open>yields\<close> is what lexical scoping says it should call.
\<close>

datatype 'p code = Yield | Block "'p option" "'p code list"

fun run :: "nat \<Rightarrow> 'p code \<Rightarrow> 'p tls \<times> 'p list \<Rightarrow> 'p tls \<times> 'p list" where
  "run self Yield (tls, called) = (tls, YieldExecution self tls called)"
| "run self (Block policy cs) (tls, called) =
     (let (previous, tls) = ScopedYieldPolicy_new self policy tls;
          (tls, called) = fold (run self) cs (tls, called)
      in (ScopedYieldPolicy_delete self previous tls, called))"

fun yields :: "'p option \<Rightarrow> 'p code \<Rightarrow> 'p list" where
  "yields policy Yield = (case policy of None \<Rightarrow> [] | Some p \<Rightarrow> [p])"
| "yields policy (Block p cs) = concat (map (yields p) cs)"

text \<open>The thread-local variable a pthread key stands for.\<close>

definition abs_tls :: "'p pthread_tls \<Rightarrow> 'p tls" where
  "abs_tls s = (\<lambda>self. if once_m s then specific s (g_current_yield_policy_tls s) self else None)"

section \<open>Properties\<close>

text \<open>C37. Yield policies are scoped: in any nesting of blocks, a thread that yields calls the policy of the innermost
  block around it, or none; when a block ends the previous policy is back, and no
  other thread's policy is ever changed.\<close>

theorem yield_lexically_scoped:
  "run self c (tls, called) = (tls, called @ yields (tls self) c)"
proof (induction c arbitrary: tls called)
  case Yield
  show ?case by (simp add: YieldExecution_def GetCurrentYieldPolicy_def split: option.split)
next
  case (Block p cs)
  have "fold (run self) cs (tls, called) = (tls, called @ concat (map (yields (tls self)) cs))" for tls called
    using Block.IH by (induction cs arbitrary: called) simp_all
  then show ?case
    by (simp add: ScopedYieldPolicy_new_def ScopedYieldPolicy_delete_def GetCurrentYieldPolicy_def
        SetCurrentYieldPolicy_def)
qed

text \<open>C36. The implementation on a pthread key is equivalent to the one on a \<^verbatim>\<open>thread_local\<close> variable, from a state in which
  the key does not exist yet: reading and setting give the same values, in every thread, and the key is
  created only once; if it cannot be created the first use aborts.\<close>

theorem pthread_policy_equivalent:
  "(\<exists>t. pthread_Get (Some key) self s = Inr (GetCurrentYieldPolicy self (abs_tls s), t) \<and> abs_tls t = abs_tls s \<and>
      once_m t \<and> pthread_Get other self t = Inr (GetCurrentYieldPolicy self (abs_tls s), t)) \<and>
   (\<exists>t. pthread_Set (Some key) self ptr s = Inr t \<and> abs_tls t = SetCurrentYieldPolicy self ptr (abs_tls s) \<and>
      g_current_yield_policy_tls t = (if once_m s then g_current_yield_policy_tls s else key)) \<and>
   (pthread_Get None self s = Inl CHECK_failed \<longleftrightarrow> \<not> once_m s) \<and>
   (pthread_Set None self ptr s = Inl CHECK_failed \<longleftrightarrow> \<not> once_m s)"
  by (auto simp: pthread_Get_def pthread_Set_def GetCurrentYieldPolicyTls_def InitializeTls_def abs_tls_def
      GetCurrentYieldPolicy_def SetCurrentYieldPolicy_def fun_eq_iff)

end
