(* ===== verification/Logging.thy ===== *)
theory Logging
  imports IO_Prelude
begin

text \<open>
  \<^verbatim>\<open>src/logging.h\<close> and \<^verbatim>\<open>src/logging.cc\<close>: the sink that receives the program's log.  The logging library is not part of
  the sources; the calls the code makes to it are listed in \<open>log_calls\<close>.  Sinks are addresses of type
  \<open>'s\<close>, a null one is \<open>None\<close>.
\<close>

datatype LogSeverity = INFO | WARNING | ERROR | FATAL

text \<open>\<^verbatim>\<open>absl::LogSeverity\<close> is an enumeration over \<^verbatim>\<open>int\<close>; \<open>kOther\<close> is any value that has no name.\<close>

datatype absl_severity = kInfo | kWarning | kError | kFatal | kOther int

definition Send :: "(LogSeverity \<Rightarrow> string \<Rightarrow> 's \<Rightarrow> 's) \<Rightarrow> absl_severity \<Rightarrow> string \<Rightarrow> 's \<Rightarrow> 's" where
  "Send OnLogMessage severity text_message =
     (case severity of
        kInfo \<Rightarrow> OnLogMessage INFO text_message
      | kWarning \<Rightarrow> OnLogMessage WARNING text_message
      | kError \<Rightarrow> OnLogMessage ERROR text_message
      | kFatal \<Rightarrow> OnLogMessage FATAL text_message
      | kOther n \<Rightarrow> OnLogMessage INFO text_message)"

datatype 's log_call = absl_InitializeLog | AddLogSink 's | RemoveLogSink 's

record 's logging =
  g_log_sink_m :: "'s option"
  log_calls :: "'s log_call list"

definition logging_new :: "'s logging" where
  "logging_new = \<lparr>g_log_sink_m = None, log_calls = []\<rparr>"

definition DeInitializeLog :: "'s logging \<Rightarrow> 's logging" where
  "DeInitializeLog l =
     (case g_log_sink_m l of
        None \<Rightarrow> l
      | Some sink \<Rightarrow> l\<lparr>log_calls := log_calls l @ [RemoveLogSink sink]\<rparr>)"

definition InitializeLog :: "LogSeverity \<Rightarrow> 's option \<Rightarrow> 's logging \<Rightarrow> 's logging" where
  "InitializeLog severity log_sink l =
     (let l = l\<lparr>log_calls := log_calls l @ [absl_InitializeLog]\<rparr>
      in case log_sink of
           Some sink \<Rightarrow>
             if g_log_sink_m l = None
             then l\<lparr>g_log_sink_m := Some sink, log_calls := log_calls l @ [AddLogSink sink]\<rparr>
             else l
         | None \<Rightarrow> l)"

text \<open>A history of the program's calls, and what it does to the sinks of the logging library.\<close>

datatype 's log_command = Init LogSeverity "'s option" | DeInit

fun log_exec :: "'s log_command \<Rightarrow> 's logging \<Rightarrow> 's logging" where
  "log_exec (Init severity sink) l = InitializeLog severity sink l"
| "log_exec DeInit l = DeInitializeLog l"

definition sink_calls :: "'s logging \<Rightarrow> 's log_call list" where
  "sink_calls l = filter (\<lambda>c. c \<noteq> absl_InitializeLog) (log_calls l)"

text \<open>The first sink of a history decides: it is added once, and removed at every later \<^verbatim>\<open>DeInitializeLog\<close>.\<close>

fun expected_calls :: "'s log_command list \<Rightarrow> 's log_call list" where
  "expected_calls [] = []"
| "expected_calls (DeInit # cs) = expected_calls cs"
| "expected_calls (Init severity None # cs) = expected_calls cs"
| "expected_calls (Init severity (Some sink) # cs) =
     AddLogSink sink # replicate (length (filter (\<lambda>c. c = DeInit) cs)) (RemoveLogSink sink)"

lemma sink_calls_after:
  assumes "g_log_sink_m l = Some sink"
  shows "sink_calls (fold log_exec cs l) =
    sink_calls l @ replicate (length (filter (\<lambda>c. c = DeInit) cs)) (RemoveLogSink sink)"
  using assms
proof (induction cs arbitrary: l)
  case (Cons c cs)
  have "replicate n (RemoveLogSink sink) @ [RemoveLogSink sink] = RemoveLogSink sink # replicate n (RemoveLogSink sink)" for n
    by (induction n) simp_all
  with Cons show ?case
    by (cases c) (auto simp: InitializeLog_def DeInitializeLog_def sink_calls_def Let_def split: option.split)
qed simp

section \<open>Properties\<close>

text \<open>Over the whole life of the program at most one sink is added, the first one that is not null, however often logging is
  initialised; every later \<^verbatim>\<open>DeInitializeLog\<close> removes that same sink again, also when it has been removed
  already, and no sink is added after that.\<close>

lemma log_sink_history:
  "sink_calls (fold log_exec cs logging_new) = expected_calls cs"
proof -
  have "g_log_sink_m l = None \<Longrightarrow> sink_calls (fold log_exec cs l) = sink_calls l @ expected_calls cs" for l
  proof (induction cs arbitrary: l rule: expected_calls.induct)
    case (4 severity sink cs)
    then show ?case
      using sink_calls_after [of "log_exec (Init severity (Some sink)) l" sink cs]
      by (simp add: InitializeLog_def sink_calls_def)
  qed (auto simp: InitializeLog_def DeInitializeLog_def sink_calls_def)
  from this [of logging_new] show ?thesis by (simp add: logging_new_def sink_calls_def)
qed

text \<open>So the library is asked to remove a sink it no longer has, and the second program part gets no log.\<close>

lemma sink_removed_twice:
  "sink_calls (fold log_exec [Init INFO (Some (1 :: nat)), DeInit, Init INFO (Some 2), DeInit] logging_new) =
     [AddLogSink 1, RemoveLogSink 1, RemoveLogSink 1]"
  by (simp add: log_exec.simps InitializeLog_def DeInitializeLog_def logging_new_def sink_calls_def)

end
