(* ===== verification/PlatformThread.thy ===== *)
theory PlatformThread
  imports IO_Prelude
begin

text \<open>
  \<^verbatim>\<open>src/platform_thread_types.h\<close> and \<^verbatim>\<open>src/platform_thread_types.cc\<close>: the identity and the name of a thread, on every
  platform the source distinguishes.  The system's answers for the calling thread are the argument \<open>K\<close>.  A C string is the list of
  its characters before the terminating zero, \<open>c_str\<close> reads one from an array.
\<close>

section \<open>Identity\<close>

datatype platform = Windows | MacOS | Android | Fuchsia | Linux | Emscripten | OtherPosix

text \<open>A \<^verbatim>\<open>pthread_t\<close> has 64 bits; \<^verbatim>\<open>DWORD\<close>, \<^verbatim>\<open>pid_t\<close> and \<^verbatim>\<open>zx_handle_t\<close> have 32, to which the conversions cut.\<close>

record thread_api =
  GetCurrentThreadId :: u32
  zx_thread_self :: u32
  gettid :: u32
  syscall_gettid :: u64
  pthread_self :: u64
  pthread_mach_thread_np :: "u64 \<Rightarrow> u32"
  pthread_equal :: "u64 \<Rightarrow> u64 \<Rightarrow> int"

definition CurrentThreadId :: "platform \<Rightarrow> thread_api \<Rightarrow> u32" where
  "CurrentThreadId os K =
     (case os of
        Windows \<Rightarrow> GetCurrentThreadId K
      | MacOS \<Rightarrow> pthread_mach_thread_np K (pthread_self K)
      | Android \<Rightarrow> gettid K
      | Fuchsia \<Rightarrow> zx_thread_self K
      | Linux \<Rightarrow> ucast (syscall_gettid K)
      | Emscripten \<Rightarrow> ucast (pthread_self K)
      | OtherPosix \<Rightarrow> ucast (pthread_self K))"

definition CurrentThreadRef :: "platform \<Rightarrow> thread_api \<Rightarrow> u64" where
  "CurrentThreadRef os K =
     (case os of
        Windows \<Rightarrow> ucast (GetCurrentThreadId K)
      | Fuchsia \<Rightarrow> ucast (zx_thread_self K)
      | _ \<Rightarrow> pthread_self K)"

definition IsThreadRefEqual :: "platform \<Rightarrow> thread_api \<Rightarrow> u64 \<Rightarrow> u64 \<Rightarrow> bool" where
  "IsThreadRefEqual os K a b \<longleftrightarrow> (if os = Windows \<or> os = Fuchsia then a = b else pthread_equal K a b \<noteq> 0)"

section \<open>Name\<close>

definition c_str :: "'a::zero list \<Rightarrow> 'a list" where
  "c_str xs = takeWhile (\<lambda>c. c \<noteq> 0) xs"

text \<open>Reading \<^verbatim>\<open>name[i]\<close>: the terminator is the last character that may be read.\<close>

definition char_at :: "u8 list \<Rightarrow> nat \<Rightarrow> u8 option" where
  "char_at name i = (if i < length name then Some (name ! i) else if i = length name then Some 0 else None)"

text \<open>
  The loop that widens the name; \<^verbatim>\<open>char\<close> is signed, so the conversion extends the sign.  A read behind the
  terminator or a write behind the array would be a fault.
\<close>

function copy_name :: "u8 list \<Rightarrow> nat \<Rightarrow> u16 list \<Rightarrow> fault + u16 list" where
  "copy_name name i wide_thread_name =
     (if i < 64 - 1
      then case char_at name i of
             None \<Rightarrow> Inl UB
           | Some c \<Rightarrow>
               if i \<ge> length wide_thread_name then Inl UB
               else let wide_thread_name = wide_thread_name[i := scast c]
                    in if wide_thread_name ! i = 0 then Inr wide_thread_name
                       else copy_name name (Suc i) wide_thread_name
      else Inr wide_thread_name)"
  by pat_completeness auto
termination
  by (relation "measure (\<lambda>(name, i, w). 63 - i)") auto

declare copy_name.simps [simp del]

datatype name_call =
    SetThreadDescription "u16 list"
  | RaiseException u32 "u8 list"
  | prctl_PR_SET_NAME "u8 list"
  | pthread_setname_np "u8 list"
  | zx_object_set_property "u8 list" nat

text \<open>
  \<^verbatim>\<open>SetCurrentThreadName\<close>: the calls it makes.  \<open>available\<close> is whether
  \<^verbatim>\<open>SetThreadDescription\<close> was found, \<open>stack\<close> the array's contents before it is written; on Fuchsia a
  status other than \<^verbatim>\<open>ZX_OK\<close> fails a debug check, the second component.
\<close>

definition SetCurrentThreadName_win :: "bool \<Rightarrow> u16 list \<Rightarrow> u8 list \<Rightarrow> fault + name_call list" where
  "SetCurrentThreadName_win available stack name =
     map_sum id (\<lambda>calls. calls @ [RaiseException 0x406D1388 name])
       (if available
        then map_sum id (\<lambda>wide. [SetThreadDescription (c_str (wide[64 - 1 := 0]))]) (copy_name name 0 stack)
        else Inr [])"

definition SetCurrentThreadName_linux :: "u8 list \<Rightarrow> name_call list" where
  "SetCurrentThreadName_linux name = [prctl_PR_SET_NAME name]"

definition SetCurrentThreadName_mac :: "u8 list \<Rightarrow> name_call list" where
  "SetCurrentThreadName_mac name = [pthread_setname_np name]"

definition SetCurrentThreadName_fuchsia :: "int \<Rightarrow> int \<Rightarrow> u8 list \<Rightarrow> name_call list \<times> bool" where
  "SetCurrentThreadName_fuchsia ZX_OK status name = ([zx_object_set_property name (length (c_str name))], status = ZX_OK)"

section \<open>Lemmas\<close>

lemma scast_eq_0: "(scast c :: u16) = 0 \<longleftrightarrow> c = 0" for c :: u8
proof
  assume zero: "(scast c :: u16) = 0"
  have "\<not> bit c n" if "n < 8" for n
  proof -
    have "bit (scast c :: u16) n = bit c n" using that by (cases "n = 7") (simp_all add: bit_simps min_def)
    with zero show ?thesis by simp
  qed
  then show "c = 0" by (intro bit_word_eqI) simp
qed simp

text \<open>\<open>copied name i w\<close>: the first \<open>i\<close> characters of the array are those of the name.\<close>

definition copied :: "u8 list \<Rightarrow> nat \<Rightarrow> u16 list \<Rightarrow> bool" where
  "copied name i w \<longleftrightarrow> length w = 64 \<and> i \<le> length name \<and> take i w = map scast (take i name)"

lemma copied_Suc:
  assumes "copied name i w" "i < length name" "i < 64"
  shows "copied name (Suc i) (w[i := scast (name ! i)])"
  using assms by (simp add: copied_def take_Suc_conv_app_nth)

lemma copy_name_copied:
  assumes "0 \<notin> set name" "copied name i w" "i \<le> 63"
  shows "\<exists>w'. copy_name name i w = Inr w' \<and> copied name (min 63 (length name)) w' \<and>
    (length name < 63 \<longrightarrow> w' ! length name = 0)"
  using assms
proof (induction "63 - i" arbitrary: i w)
  case 0
  then have "i = 63" by simp
  with 0 show ?case by (subst copy_name.simps) (simp add: copied_def min_def)
next
  case (Suc d)
  show ?case
  proof (cases "i = length name")
    case True
    moreover from this have "length name < 63" using Suc.hyps(2) by simp
    ultimately show ?thesis
      using Suc.prems(2) by (subst copy_name.simps) (simp add: copied_def char_at_def min_def)
  next
    case False
    with Suc.prems have i: "i < length name" by (simp add: copied_def)
    then have "name ! i \<noteq> 0" using Suc.prems(1) nth_mem by metis
    moreover have "copied name (Suc i) (w[i := scast (name ! i)])"
      using Suc.hyps(2) by (intro copied_Suc [OF Suc.prems(2) i]) simp
    moreover have "i < 63" "d = 63 - Suc i" using Suc.hyps(2) by simp_all
    ultimately show ?thesis
      using Suc.hyps(1) [of "Suc i" "w[i := scast (name ! i)]"] i Suc.prems(1,2)
      by (subst copy_name.simps) (simp add: char_at_def scast_eq_0 copied_def [of name i w])
  qed
qed

lemma c_str_split: "k < length w \<Longrightarrow> 0 \<notin> set (take k w) \<Longrightarrow> w ! k = 0 \<Longrightarrow> c_str w = take k w"
  unfolding c_str_def by (rule takeWhile_eq_take_P_nth) (auto simp: in_set_conv_nth)

text \<open>Where the identity is cut from a \<^verbatim>\<open>pthread_t\<close>, threads that differ above bit 31 have the same one.\<close>

lemma thread_ids_collide:
  "CurrentThreadId Emscripten (K\<lparr>pthread_self := p + push_bit 32 n\<rparr>) = CurrentThreadId Emscripten (K\<lparr>pthread_self := p\<rparr>)"
proof -
  have "ucast (p + push_bit 32 n) = (ucast p :: u32)"
    by transfer (simp add: push_bit_eq_mult take_bit_eq_mod mod_mod_cancel mod_add_eq)
  then show ?thesis by (simp add: CurrentThreadId_def)
qed

section \<open>Properties\<close>

text \<open>On Windows a thread is given the name's first 63 characters, widened with their sign, whatever was in the
  buffer before; neither the name nor the buffer is accessed out of bounds.  The debugger is always told the
  whole name.\<close>

lemma thread_name_truncated:
  assumes "0 \<notin> set name" and "length stack = 64"
  shows "SetCurrentThreadName_win available stack name =
    Inr ((if available then [SetThreadDescription (map scast (take 63 name))] else []) @ [RaiseException 0x406D1388 name])"
proof -
  let ?k = "min 63 (length name)"
  obtain w where w: "copy_name name 0 stack = Inr w" "copied name ?k w" "length name < 63 \<longrightarrow> w ! length name = 0"
    using copy_name_copied [of name 0 stack] assms by (auto simp: copied_def)
  let ?w = "w[63 := 0]"
  have len: "length w = 64" and pre: "take ?k ?w = map scast (take 63 name)"
    using w(2) by (simp_all add: copied_def min_def split: if_splits)
  have "0 \<notin> set (take 63 name)" using assms(1) by (meson in_set_takeD)
  then have "0 \<notin> set (take ?k ?w)" unfolding pre by (simp add: image_iff scast_eq_0)
  moreover have "?w ! ?k = 0" using w(3) len by (cases "length name < 63") simp_all
  ultimately have "c_str ?w = map scast (take 63 name)"
    using c_str_split [of ?k ?w] len pre by simp
  then show ?thesis by (simp add: SetCurrentThreadName_win_def w(1))
qed

lemma thread_name_truncated_example:
  "SetCurrentThreadName_win True (replicate 64 7) [72, 105] =
     Inr [SetThreadDescription [72, 105], RaiseException 0x406D1388 [72, 105]]"
  using thread_name_truncated [of "[72, 105]" "replicate 64 7" True] by (simp add: length_replicate del: replicate.simps)

end
