(* ===== verification/FunctionView.thy ===== *)
theory FunctionView
  imports IO_Prelude
begin

text \<open>
  \<^verbatim>\<open>src/function_view.h\<close>: a non-owning reference to a callable, with its type erased.  Callable objects and functions
  live at addresses; \<open>objs\<close> and \<open>funs\<close> say what calling them does to an argument and the program's state, \<open>None\<close>
  where nothing lives (any more).  The dispatch function \<^verbatim>\<open>call_\<close> is one of the two static templates, with the
  type of the callable as its instance; reading the union through the other member is undefined behaviour.
\<close>

datatype void_union = void_ptr nat | fun_ptr nat

datatype 't call_function = CallVoidPtr 't | CallFunPtr 't

record 't FunctionView =
  f_m :: "void_union option"
  call_m :: "'t call_function option"

text \<open>What is passed to the constructor template; a function pointer may be null.\<close>

datatype 't callable = Object 't nat | FunctionPointer 't "nat option" | Nullptr | View "'t FunctionView"

text \<open>
  The constructors, as overload resolution picks them: for objects, function pointers, \<^verbatim>\<open>nullptr\<close>, and the copy of another
  view.  \<open>f_m = None\<close> is a union that was not initialised.
\<close>

fun FunctionView_new :: "'t callable \<Rightarrow> 't FunctionView" where
  "FunctionView_new (Object t a) = \<lparr>f_m = Some (void_ptr a), call_m = Some (CallVoidPtr t)\<rparr>"
| "FunctionView_new (FunctionPointer t f) =
     \<lparr>f_m = Some (fun_ptr (case f of None \<Rightarrow> 0 | Some a \<Rightarrow> a)),
      call_m = (case f of None \<Rightarrow> None | Some a \<Rightarrow> Some (CallFunPtr t))\<rparr>"
| "FunctionView_new Nullptr = \<lparr>f_m = None, call_m = None\<rparr>"
| "FunctionView_new (View v) = v"

definition FunctionView_default :: "'t FunctionView" where
  "FunctionView_default = \<lparr>f_m = None, call_m = None\<rparr>"

definition operator_bool :: "'t FunctionView \<Rightarrow> bool" where
  "operator_bool v \<longleftrightarrow> call_m v \<noteq> None"

type_synonym ('t, 'a, 's, 'r) callables = "nat \<rightharpoonup> 't \<times> ('a \<Rightarrow> 's \<Rightarrow> 'r \<times> 's)"

text \<open>\<^verbatim>\<open>operator()\<close>: a call through a null \<^verbatim>\<open>call_\<close>, to a dead object or to one of another type is undefined.\<close>

definition invoke ::
  "('t, 'a, 's, 'r) callables \<Rightarrow> 't \<Rightarrow> nat \<Rightarrow> 'a \<Rightarrow> 's \<Rightarrow> fault + 'r \<times> 's" where
  "invoke code t a args s =
     (case code a of None \<Rightarrow> Inl UB | Some (t', g) \<Rightarrow> if t' = t then Inr (g args s) else Inl UB)"

definition operator_call ::
  "('t, 'a, 's, 'r) callables \<Rightarrow> ('t, 'a, 's, 'r) callables \<Rightarrow> 't FunctionView \<Rightarrow> 'a \<Rightarrow> 's \<Rightarrow> fault + 'r \<times> 's" where
  "operator_call objs funs v args s =
     (case (call_m v, f_m v) of
        (Some (CallVoidPtr t), Some (void_ptr a)) \<Rightarrow> invoke objs t a args s
      | (Some (CallFunPtr t), Some (fun_ptr a)) \<Rightarrow> invoke funs t a args s
      | _ \<Rightarrow> Inl UB)"

text \<open>The reference semantics: calling the callable itself, and what calling nothing is.\<close>

fun call_directly ::
  "('t, 'a, 's, 'r) callables \<Rightarrow> ('t, 'a, 's, 'r) callables \<Rightarrow> 't callable \<Rightarrow> 'a \<Rightarrow> 's \<Rightarrow> fault + 'r \<times> 's" where
  "call_directly objs funs (Object t a) args s = invoke objs t a args s"
| "call_directly objs funs (FunctionPointer t f) args s =
     (case f of None \<Rightarrow> Inl UB | Some a \<Rightarrow> invoke funs t a args s)"
| "call_directly objs funs Nullptr args s = Inl UB"
| "call_directly objs funs (View v) args s = operator_call objs funs v args s"

text \<open>
  Views a program can make, with the callable each stands for: from the callable itself, as an empty view, or by
  copying another view any number of times.
\<close>

inductive made :: "'t callable \<Rightarrow> 't FunctionView \<Rightarrow> bool" where
  made_default: "made Nullptr FunctionView_default"
| made_object: "made (Object t a) (FunctionView_new (Object t a))"
| made_function: "made (FunctionPointer t f) (FunctionView_new (FunctionPointer t f))"
| made_null: "made Nullptr (FunctionView_new Nullptr)"
| made_copy: "made c v \<Longrightarrow> made c (FunctionView_new (View v))"

definition callable_null :: "'t callable \<Rightarrow> bool" where
  "callable_null c \<longleftrightarrow> c = Nullptr \<or> (\<exists>t. c = FunctionPointer t None)"

definition well_tagged :: "'t FunctionView \<Rightarrow> bool" where
  "well_tagged v \<longleftrightarrow>
     (case call_m v of
        None \<Rightarrow> True
      | Some (CallVoidPtr t) \<Rightarrow> (\<exists>a. f_m v = Some (void_ptr a))
      | Some (CallFunPtr t) \<Rightarrow> (\<exists>a. f_m v = Some (fun_ptr a)))"

section \<open>Which arguments it takes\<close>

text \<open>
  The types a constructor template can be instantiated with, as far as its \<^verbatim>\<open>enable_if\<close> looks into them.  \<open>'t\<close> names function types and
  classes; a class is a callable object or not.  The traits are those of \<^verbatim>\<open>type_traits\<close>.
\<close>

datatype 't cpp_type = Function_t 't | Nullptr_t | FunctionView_t | Class_t 't
  | Pointer_t "'t cpp_type" | Const_t "'t cpp_type" | LRef_t "'t cpp_type"

fun remove_reference :: "'t cpp_type \<Rightarrow> 't cpp_type" where
  "remove_reference (LRef_t t) = t"
| "remove_reference t = t"

fun remove_cv :: "'t cpp_type \<Rightarrow> 't cpp_type" where
  "remove_cv (Const_t t) = t"
| "remove_cv t = t"

fun remove_pointer :: "'t cpp_type \<Rightarrow> 't cpp_type" where
  "remove_pointer (Pointer_t t) = t"
| "remove_pointer (Const_t (Pointer_t t)) = t"
| "remove_pointer t = t"

definition add_pointer :: "'t cpp_type \<Rightarrow> 't cpp_type" where
  "add_pointer t = Pointer_t (remove_reference t)"

fun is_function :: "'t cpp_type \<Rightarrow> bool" where
  "is_function (Function_t t) = True"
| "is_function t = False"

text \<open>The deduction of \<^verbatim>\<open>F\<close> from an argument for the parameter \<^verbatim>\<open>F&&\<close>: a reference for an lvalue.\<close>

definition deduced :: "bool \<Rightarrow> 't cpp_type \<Rightarrow> 't cpp_type" where
  "deduced lvalue t = (if lvalue then LRef_t t else t)"

text \<open>The conditions of the three templates, and which constructors take an argument; the fourth is the implicit copy.\<close>

definition takes_callable :: "'t cpp_type \<Rightarrow> bool" where
  "takes_callable F \<longleftrightarrow> \<not> is_function (remove_pointer (remove_reference F)) \<and> remove_cv F \<noteq> Nullptr_t \<and>
     FunctionView_t \<noteq> remove_cv (remove_reference F)"

definition takes_function :: "'t cpp_type \<Rightarrow> bool" where
  "takes_function F \<longleftrightarrow> is_function (remove_pointer (remove_reference F))"

definition takes_nullptr :: "'t cpp_type \<Rightarrow> bool" where
  "takes_nullptr F \<longleftrightarrow> Nullptr_t = remove_cv F"

datatype view_constructor = From_callable | From_function | From_nullptr | Copy

fun takes :: "view_constructor \<Rightarrow> 't cpp_type \<Rightarrow> bool" where
  "takes From_callable F = takes_callable F"
| "takes From_function F = takes_function F"
| "takes From_nullptr F = takes_nullptr F"
| "takes Copy F = (remove_cv (remove_reference F) = FunctionView_t)"

text \<open>
  Whether the chosen constructor compiles.  Its body converts \<^verbatim>\<open>&f\<close> to \<^verbatim>\<open>void*\<close>, or names an instance of \<^verbatim>\<open>CallFunPtr\<close>, whose body calls
  through \<^verbatim>\<open>add_pointer<F>\<close>; \<open>calls\<close> says of a class or a function whether it can be called with \<^verbatim>\<open>ArgT...\<close> for a \<^verbatim>\<open>RetT\<close>.
\<close>

fun can_call :: "('t \<Rightarrow> bool) \<Rightarrow> 't cpp_type \<Rightarrow> bool" where
  "can_call calls (Class_t c) = calls c"
| "can_call calls (Pointer_t (Function_t f)) = calls f"
| "can_call calls t = False"

fun is_const :: "'t cpp_type \<Rightarrow> bool" where
  "is_const (Const_t t) = True"
| "is_const t = False"

definition compiles_callable :: "('t \<Rightarrow> bool) \<Rightarrow> 't cpp_type \<Rightarrow> bool" where
  "compiles_callable calls F \<longleftrightarrow> \<not> is_const (remove_reference F) \<and> can_call calls (remove_reference F)"

definition compiles_function :: "('t \<Rightarrow> bool) \<Rightarrow> 't cpp_type \<Rightarrow> bool" where
  "compiles_function calls F \<longleftrightarrow> can_call calls (add_pointer (remove_pointer F))"

fun compiles :: "('t \<Rightarrow> bool) \<Rightarrow> view_constructor \<Rightarrow> 't cpp_type \<Rightarrow> bool" where
  "compiles calls From_callable F = compiles_callable calls F"
| "compiles calls From_function F = compiles_function calls F"
| "compiles calls From_nullptr F = True"
| "compiles calls Copy F = True"

text \<open>The type of an expression is not a reference, nothing points to a reference, and a function has no qualifiers.\<close>

fun object_type :: "'t cpp_type \<Rightarrow> bool" where
  "object_type (Pointer_t t) = (object_type t \<or> is_function t)"
| "object_type (Const_t t) = (\<not> is_const t \<and> object_type t)"
| "object_type (LRef_t t) = False"
| "object_type (Function_t t) = False"
| "object_type t = True"

definition argument :: "bool \<Rightarrow> 't cpp_type \<Rightarrow> bool" where
  "argument lvalue t \<longleftrightarrow> object_type t \<or> is_function t \<and> lvalue"

text \<open>Which arguments a view can be made of.\<close>

fun accepted :: "('t \<Rightarrow> bool) \<Rightarrow> bool \<Rightarrow> 't cpp_type \<Rightarrow> bool" where
  "accepted calls lvalue (Class_t c) = calls c"
| "accepted calls lvalue (Function_t f) = calls f"
| "accepted calls lvalue (Pointer_t (Function_t f)) = (calls f \<and> \<not> lvalue)"
| "accepted calls lvalue (Const_t (Pointer_t (Function_t f))) = (calls f \<and> \<not> lvalue)"
| "accepted calls lvalue Nullptr_t = (\<not> lvalue)"
| "accepted calls lvalue (Const_t Nullptr_t) = (\<not> lvalue)"
| "accepted calls lvalue FunctionView_t = True"
| "accepted calls lvalue (Const_t FunctionView_t) = True"
| "accepted calls lvalue t = False"

lemmas view_type_defs = takes_callable_def takes_function_def takes_nullptr_def compiles_callable_def compiles_function_def
  add_pointer_def deduced_def argument_def

lemma remove_cv_cases: "remove_cv t = t' \<longleftrightarrow> t = Const_t t' \<or> t = t' \<and> \<not> is_const t"
  by (cases t) auto

lemma takes_Copy: "takes Copy F \<longleftrightarrow> \<not> takes_callable F \<and> \<not> takes_function F \<and> \<not> takes_nullptr F"
  by (cases F rule: remove_reference.cases)
    (auto simp: view_type_defs remove_cv_cases eq_commute [of FunctionView_t "remove_cv t" for t]
      eq_commute [of Nullptr_t "remove_cv t" for t])

lemma one_template: "\<not> (takes_callable F \<and> takes_function F)" "\<not> (takes_callable F \<and> takes_nullptr F)"
    "\<not> (takes_function F \<and> takes_nullptr F)"
  by (auto simp: view_type_defs remove_cv_cases eq_commute [of Nullptr_t "remove_cv t" for t])

lemma one_constructor: "\<exists>!c. takes c F"
proof -
  have "\<exists>c. takes c F" using takes_Copy [of F] takes.simps by metis
  moreover have "c = d" if "takes c F" "takes d F" for c d
    using that takes_Copy [of F] one_template [of F] by (cases c; cases d) auto
  ultimately show ?thesis by blast
qed

lemma compiles_accepted:
  assumes "argument lvalue t" and "takes c (deduced lvalue t)"
  shows "compiles calls c (deduced lvalue t) \<longleftrightarrow> accepted calls lvalue t"
  using assms
  by (cases "(calls, lvalue, t)" rule: accepted.cases; cases c; cases lvalue)
    (auto simp: view_type_defs remove_cv_cases split: if_splits)

section \<open>Properties\<close>

text \<open>C39. A view stands for its callable: however it was made and copied, its tag fits its union, calling it
  does exactly what calling the callable itself does, with the same result, effect and undefined behaviour, also if the
  callable's state or what lives at its address changes in between, and it is true as a condition exactly if there is something to call.\<close>

theorem view_well_tagged:
  assumes "made c v"
  shows "well_tagged v \<and> operator_call objs funs v args s = call_directly objs funs c args s \<and>
    (operator_bool v \<longleftrightarrow> \<not> callable_null c)"
  using assms
  by (induction rule: made.induct)
    (auto simp: well_tagged_def operator_bool_def operator_call_def FunctionView_default_def callable_null_def
      split: option.split)

text \<open>A function that adds its argument to the state, called through a copy of a view.\<close>

theorem view_well_tagged_witness:
  "operator_call (\<lambda>a. None) [9 \<mapsto> ((), \<lambda>x s. (s, s + x))]
     (FunctionView_new (View (FunctionView_new (FunctionPointer () (Some 9))))) (2 :: int) 40 = Inr (40, 42)"
  using view_well_tagged [OF made_copy [OF made_function [of "()" "Some 9"]], of "\<lambda>a. None"
      "[9 \<mapsto> ((), \<lambda>x s. (s, s + x))]" "2 :: int" 40]
  by (simp add: invoke_def)

text \<open>C40. Exactly one constructor takes each argument, and the views that can be made are these: of a copy of a view, of a callable
  object that is not const, of a function, and of a function pointer or \<^verbatim>\<open>nullptr\<close> that is not a variable; with any other argument the
  chosen constructor does not compile.\<close>

theorem view_constructors:
  assumes "argument lvalue t"
  shows "(\<exists>!c. takes c (deduced lvalue t)) \<and>
    ((\<exists>c. takes c (deduced lvalue t) \<and> compiles calls c (deduced lvalue t)) \<longleftrightarrow> accepted calls lvalue t)"
  using one_constructor [of "deduced lvalue t"] compiles_accepted [OF assms] by metis

text \<open>A variable that holds a function pointer is taken by the constructor for function pointers, which then does not compile.\<close>

theorem view_constructors_witness:
  "\<not> (\<exists>c. takes c (deduced True (Pointer_t (Function_t ()))) \<and> compiles (\<lambda>f. True) c (deduced True (Pointer_t (Function_t ()))))"
  using view_constructors [of True "Pointer_t (Function_t ())" "\<lambda>f. True"] by (simp add: argument_def)

end
