(* ===== verification/BlockingThreads.thy ===== *)
theory BlockingThreads
  imports WaitEvent
begin

text \<open>
  The blocking call down to the waiting event: \<^verbatim>\<open>BlockingCallImpl\<close>, \<^verbatim>\<open>PostTaskImpl\<close>, \<^verbatim>\<open>RunPendingTasks\<close> and \<^verbatim>\<open>Quit\<close>
  of \<^verbatim>\<open>src/event_loop.cc\<close> with \<^verbatim>\<open>Event::Set\<close> and \<^verbatim>\<open>Event::Wait\<close> of \<^verbatim>\<open>src/event.cc\<close> (POSIX), as steps of many calling threads, of
  the loop's thread and of a thread that quits the loop, which interleave in any order.

  Calls are numbered.  The \<^verbatim>\<open>done\<close> event of a call and the functor its closure refers to live in the frame of
  the caller: \<open>touched_dead\<close> records an access to a frame that is gone.  The critical sections of \<^verbatim>\<open>pending_lock_\<close> only contain the
  append and the swaps and are single steps; the mutex of each event is explicit, because \<^verbatim>\<open>Set\<close> goes on
  accessing the event while it holds it.
\<close>

section \<open>State\<close>

text \<open>\<^verbatim>\<open>Event::Set\<close>: lock, store, broadcast, unlock.\<close>

datatype set_pc = SLock | SStore | SBroadcast | SUnlock

text \<open>
  A caller.  \<open>CRefused\<close>: \<^verbatim>\<open>PostTaskImpl\<close> returned early, and the cleanup of the closure that dies with the
  parameter sets the event.  \<open>CWait\<close>: in \<^verbatim>\<open>Event::Wait\<close>, about to get the mutex and test the status; \<open>CBlocked\<close>: inside
  \<^verbatim>\<open>pthread_cond_wait\<close>.
\<close>

datatype call_pc = CNew | CCheck | CPostCheck | CRefused set_pc | CPush | CWake | CWait | CBlocked | CReturned

text \<open>The loop's thread runs the functor of a call and then destroys the closure, whose cleanup sets the event.\<close>

datatype serve_pc = VIdle | VReset | VTake | VNext "nat list" | VSet set_pc nat "nat list" | VLeft

text \<open>\<^verbatim>\<open>Quit\<close>: the tasks swapped out are destroyed after the lock is released and before the flag is cleared.\<close>

datatype drop_pc = DIdle | DSwap | DNext "nat list" | DSet set_pc nat "nat list" | DStore | DDone

record calls =
  call_queue :: "nat list"
  loop_running :: bool
  loop_woken :: bool
  caller :: "nat \<Rightarrow> call_pc"
  server :: serve_pc
  dropper :: drop_pc
  done_ev :: "nat \<Rightarrow> Event"
  done_locked :: "nat \<Rightarrow> bool"
  served :: "nat list"
  touched_dead :: bool

definition calls_new :: calls where
  "calls_new = \<lparr>call_queue = [], loop_running = True, loop_woken = False, caller = (\<lambda>c. CNew), server = VIdle,
     dropper = DIdle, done_ev = (\<lambda>c. \<lparr>is_manual_reset_m = False, event_status_m = False\<rparr>), done_locked = (\<lambda>c. False),
     served = [], touched_dead = False\<rparr>"

section \<open>Steps\<close>

fun frame_alive :: "call_pc \<Rightarrow> bool" where
  "frame_alive CNew = False" | "frame_alive CCheck = False" | "frame_alive CReturned = False" | "frame_alive _ = True"

definition touch :: "nat \<Rightarrow> calls \<Rightarrow> calls" where
  "touch c b = b\<lparr>touched_dead := touched_dead b \<or> \<not> frame_alive (caller b c)\<rparr>"

text \<open>One step of \<^verbatim>\<open>Event::Set\<close> on the event of call \<open>c\<close>; the second component is what is left of it.\<close>

fun set_step :: "set_pc \<Rightarrow> nat \<Rightarrow> calls \<Rightarrow> (calls \<times> set_pc option) option" where
  "set_step SLock c b =
     (if done_locked b c then None
      else Some ((touch c b)\<lparr>done_locked := (done_locked b)(c := True)\<rparr>, Some SStore))"
| "set_step SStore c b = Some ((touch c b)\<lparr>done_ev := (done_ev b)(c := Set (done_ev b c))\<rparr>, Some SBroadcast)"
| "set_step SBroadcast c b =
     Some ((touch c b)\<lparr>caller := (caller b)(c := if caller b c = CBlocked then CWait else caller b c)\<rparr>, Some SUnlock)"
| "set_step SUnlock c b = Some ((touch c b)\<lparr>done_locked := (done_locked b)(c := False)\<rparr>, None)"

definition call_step :: "nat \<Rightarrow> calls \<Rightarrow> calls option" where
  "call_step c b =
     (let go = (\<lambda>p b. b\<lparr>caller := (caller b)(c := p)\<rparr>) in
      case caller b c of
        CNew \<Rightarrow> None
      | CCheck \<Rightarrow>
          Some (if \<not> loop_running b then go CReturned b
                else go CPostCheck (b\<lparr>done_ev := (done_ev b)(c := \<lparr>is_manual_reset_m = False, event_status_m = False\<rparr>),
                                      done_locked := (done_locked b)(c := False)\<rparr>))
      | CPostCheck \<Rightarrow> Some (if \<not> loop_running b then go (CRefused SLock) b else go CPush b)
      | CRefused p \<Rightarrow> map_option (\<lambda>(b, q). go (case q of Some q \<Rightarrow> CRefused q | None \<Rightarrow> CWait) b) (set_step p c b)
      | CPush \<Rightarrow> Some (go CWake (b\<lparr>call_queue := call_queue b @ [c]\<rparr>))
      | CWake \<Rightarrow> Some (go CWait (b\<lparr>loop_woken := True\<rparr>))
      | CWait \<Rightarrow>
          (if done_locked b c then None
           else if event_status_m (done_ev b c)
           then Some (go CReturned (b\<lparr>done_ev := (done_ev b)(c :=
                  if is_manual_reset_m (done_ev b c) then done_ev b c else Reset (done_ev b c))\<rparr>))
           else Some (go CBlocked b))
      | CBlocked \<Rightarrow> None
      | CReturned \<Rightarrow> None)"

definition serve_step :: "calls \<Rightarrow> calls option" where
  "serve_step b =
     (case server b of
        VIdle \<Rightarrow> if loop_woken b then Some (b\<lparr>server := VReset\<rparr>) else None
      | VReset \<Rightarrow> Some (b\<lparr>loop_woken := False, server := VTake\<rparr>)
      | VTake \<Rightarrow> Some (b\<lparr>call_queue := [], server := VNext (call_queue b)\<rparr>)
      | VNext [] \<Rightarrow> Some (b\<lparr>server := VIdle\<rparr>)
      | VNext (c # cs) \<Rightarrow> Some ((touch c b)\<lparr>served := served b @ [c], server := VSet SLock c cs\<rparr>)
      | VSet p c cs \<Rightarrow>
          map_option (\<lambda>(b, q). b\<lparr>server := (case q of Some q \<Rightarrow> VSet q c cs | None \<Rightarrow> VNext cs)\<rparr>) (set_step p c b)
      | VLeft \<Rightarrow> None)"

definition drop_step :: "calls \<Rightarrow> calls option" where
  "drop_step b =
     (case dropper b of
        DIdle \<Rightarrow> None
      | DSwap \<Rightarrow> Some (b\<lparr>call_queue := [], dropper := DNext (call_queue b)\<rparr>)
      | DNext [] \<Rightarrow> Some (b\<lparr>dropper := DStore\<rparr>)
      | DNext (c # cs) \<Rightarrow> Some (b\<lparr>dropper := DSet SLock c cs\<rparr>)
      | DSet p c cs \<Rightarrow>
          map_option (\<lambda>(b, q). b\<lparr>dropper := (case q of Some q \<Rightarrow> DSet q c cs | None \<Rightarrow> DNext cs)\<rparr>) (set_step p c b)
      | DStore \<Rightarrow> Some (b\<lparr>loop_running := False, dropper := DDone\<rparr>)
      | DDone \<Rightarrow> None)"

text \<open>
  The program's own steps, and what happens to it: a thread makes a call, a condition variable wakes its
  waiter without reason, a thread calls \<^verbatim>\<open>Quit\<close>, and the loop's thread, seeing that the loop does not run any more, stops
  calling \<^verbatim>\<open>RunEventLoopOnce\<close>.
\<close>

inductive own_step :: "calls \<Rightarrow> calls \<Rightarrow> bool" where
  os_call: "call_step c b = Some b' \<Longrightarrow> own_step b b'"
| os_serve: "serve_step b = Some b' \<Longrightarrow> own_step b b'"
| os_drop: "drop_step b = Some b' \<Longrightarrow> own_step b b'"

inductive calls_step :: "calls \<Rightarrow> calls \<Rightarrow> bool" where
  cs_own: "own_step b b' \<Longrightarrow> calls_step b b'"
| cs_new: "caller b c = CNew \<Longrightarrow> calls_step b (b\<lparr>caller := (caller b)(c := CCheck)\<rparr>)"
| cs_spurious: "caller b c = CBlocked \<Longrightarrow> calls_step b (b\<lparr>caller := (caller b)(c := CWait)\<rparr>)"
| cs_quit: "dropper b = DIdle \<or> dropper b = DDone \<Longrightarrow> calls_step b (b\<lparr>dropper := DSwap\<rparr>)"
| cs_leave: "server b = VIdle \<Longrightarrow> \<not> loop_running b \<Longrightarrow> calls_step b (b\<lparr>server := VLeft\<rparr>)"

section \<open>Invariant\<close>

fun server_rest :: "serve_pc \<Rightarrow> nat list" where
  "server_rest (VNext cs) = cs" | "server_rest (VSet p c cs) = cs" | "server_rest _ = []"

fun server_cur :: "serve_pc \<Rightarrow> (nat \<times> set_pc) option" where
  "server_cur (VSet p c cs) = Some (c, p)" | "server_cur _ = None"

fun dropper_cur :: "drop_pc \<Rightarrow> (nat \<times> set_pc) option" where
  "dropper_cur (DSet p c cs) = Some (c, p)" | "dropper_cur _ = None"

fun server_all :: "serve_pc \<Rightarrow> nat list" where
  "server_all (VNext cs) = cs" | "server_all (VSet p c cs) = c # cs" | "server_all _ = []"

fun dropper_all :: "drop_pc \<Rightarrow> nat list" where
  "dropper_all (DNext cs) = cs" | "dropper_all (DSet p c cs) = c # cs" | "dropper_all _ = []"

text \<open>The closure of call \<open>c\<close> exists; somebody is at \<open>p\<close> in \<^verbatim>\<open>Set\<close> on its event.\<close>

definition in_flight :: "calls \<Rightarrow> nat \<Rightarrow> bool" where
  "in_flight b c \<longleftrightarrow> c \<in> set (server_all (server b)) \<or> c \<in> set (call_queue b) \<or> c \<in> set (dropper_all (dropper b))"

definition setting :: "calls \<Rightarrow> nat \<Rightarrow> set_pc \<Rightarrow> bool" where
  "setting b c p \<longleftrightarrow> caller b c = CRefused p \<or> server_cur (server b) = Some (c, p) \<or> dropper_cur (dropper b) = Some (c, p)"

fun waiting :: "call_pc \<Rightarrow> bool" where
  "waiting CWake = True" | "waiting CWait = True" | "waiting CBlocked = True" | "waiting _ = False"

text \<open>Each closure is in one place, and its caller waits.\<close>

definition closures_ok :: "calls \<Rightarrow> bool" where
  "closures_ok b \<longleftrightarrow>
     distinct (served b @ server_rest (server b) @ call_queue b @ dropper_all (dropper b)) \<and>
     (\<forall>c p. server_cur (server b) = Some (c, p) \<longrightarrow> c \<in> set (served b)) \<and>
     (\<forall>c. in_flight b c \<longrightarrow> waiting (caller b c)) \<and>
     (\<forall>c. c \<in> set (served b) \<longrightarrow> waiting (caller b c) \<or> caller b c = CReturned)"

text \<open>The event of a call: who holds its mutex and when it is signalled.\<close>

definition event_ok :: "calls \<Rightarrow> nat \<Rightarrow> bool" where
  "event_ok b c \<longleftrightarrow>
     \<not> is_manual_reset_m (done_ev b c) \<and>
     (frame_alive (caller b c) \<longrightarrow>
       (done_locked b c \<longleftrightarrow> setting b c SStore \<or> setting b c SBroadcast \<or> setting b c SUnlock)) \<and>
     (caller b c = CPostCheck \<or> caller b c = CPush \<longrightarrow> \<not> event_status_m (done_ev b c)) \<and>
     (\<forall>p. caller b c = CRefused p \<longrightarrow> (event_status_m (done_ev b c) \<longleftrightarrow> p = SBroadcast \<or> p = SUnlock)) \<and>
     (waiting (caller b c) \<longrightarrow>
       (event_status_m (done_ev b c) \<longleftrightarrow> \<not> in_flight b c \<or> setting b c SBroadcast \<or> setting b c SUnlock)) \<and>
     (caller b c = CBlocked \<and> event_status_m (done_ev b c) \<longrightarrow> setting b c SBroadcast)"

definition wake_ok :: "calls \<Rightarrow> bool" where
  "wake_ok b \<longleftrightarrow>
     (call_queue b \<noteq> [] \<longrightarrow> loop_woken b \<or> (\<exists>c. caller b c = CWake) \<or> server b = VReset \<or> server b = VTake) \<and>
     (server b = VReset \<longrightarrow> loop_woken b) \<and>
     (server b = VLeft \<longrightarrow> \<not> loop_running b)"

text \<open>Before \<^verbatim>\<open>Quit\<close> no call is refused, and every call that got past the queue has been served.\<close>

definition unquit_ok :: "calls \<Rightarrow> bool" where
  "unquit_ok b \<longleftrightarrow> (dropper b = DIdle \<longrightarrow>
     loop_running b \<and> (\<forall>c p. caller b c \<noteq> CRefused p) \<and>
     (\<forall>c. waiting (caller b c) \<or> caller b c = CReturned \<longrightarrow> c \<in> set (served b @ server_rest (server b) @ call_queue b)))"

definition active :: "calls \<Rightarrow> nat set" where
  "active b = {c. caller b c \<noteq> CNew \<and> caller b c \<noteq> CReturned}"

definition calls_inv :: "calls \<Rightarrow> bool" where
  "calls_inv b \<longleftrightarrow> closures_ok b \<and> (\<forall>c. event_ok b c) \<and> wake_ok b \<and> unquit_ok b \<and>
     finite (active b) \<and> \<not> touched_dead b"


section \<open>Lemmas\<close>

lemma set_step_frame:
  assumes "set_step p c b = Some (b', q)"
  shows "call_queue b' = call_queue b" "server b' = server b" "dropper b' = dropper b" "served b' = served b"
    "loop_running b' = loop_running b" "loop_woken b' = loop_woken b"
    "waiting (caller b' d) = waiting (caller b d)" "frame_alive (caller b' d) = frame_alive (caller b d)"
    "caller b' d = CReturned \<longleftrightarrow> caller b d = CReturned" "caller b' d = CNew \<longleftrightarrow> caller b d = CNew"
    "caller b' d = CWake \<longleftrightarrow> caller b d = CWake" "caller b' d = CRefused r \<longleftrightarrow> caller b d = CRefused r"
  using assms by (cases p; auto simp: touch_def split: if_splits)+

lemma call_refused_step:
  assumes "call_step i b = Some b'" "caller b i = CRefused p"
  obtains b1 q where "set_step p i b = Some (b1, q)"
    "b' = b1\<lparr>caller := (caller b1)(i := case q of None \<Rightarrow> CWait | Some q \<Rightarrow> CRefused q)\<rparr>"
  using assms by (auto simp: call_step_def Let_def split: option.splits)

lemma serve_set_step:
  assumes "serve_step b = Some b'" "server b = VSet p c cs"
  obtains b1 q where "set_step p c b = Some (b1, q)"
    "b' = b1\<lparr>server := case q of None \<Rightarrow> VNext cs | Some q \<Rightarrow> VSet q c cs\<rparr>"
  using assms by (auto simp: serve_step_def split: option.splits)

lemma drop_set_step:
  assumes "drop_step b = Some b'" "dropper b = DSet p c cs"
  obtains b1 q where "set_step p c b = Some (b1, q)"
    "b' = b1\<lparr>dropper := case q of None \<Rightarrow> DNext cs | Some q \<Rightarrow> DSet q c cs\<rparr>"
  using assms by (auto simp: drop_step_def split: option.splits)

lemma server_rest_all: "c \<in> set (server_rest s) \<Longrightarrow> c \<in> set (server_all s)"
  by (cases s) auto

text \<open>A step that only moves callers on.\<close>

lemma closures_frame:
  assumes "closures_ok b" "call_queue b' = call_queue b" "server b' = server b" "dropper b' = dropper b" "served b' = served b"
    and "\<And>c. waiting (caller b c) \<Longrightarrow> waiting (caller b' c) \<or> \<not> in_flight b c \<and> caller b' c = CReturned"
    and "\<And>c. caller b c = CReturned \<Longrightarrow> caller b' c = CReturned"
  shows "closures_ok b'"
  using assms unfolding closures_ok_def in_flight_def by simp blast

lemma event_ok_returns:
  assumes "event_ok b c" "caller b c = CWait" "\<not> done_locked b c" "event_status_m (done_ev b c)"
  shows "\<not> in_flight b c"
  using assms by (auto simp: event_ok_def)

lemma closures_call:
  assumes "call_step i b = Some b'" "closures_ok b" "event_ok b i"
  shows "closures_ok b'"
proof (cases "caller b i")
  case (CRefused p)
  then obtain b1 q where b1: "set_step p i b = Some (b1, q)"
    "b' = b1\<lparr>caller := (caller b1)(i := case q of None \<Rightarrow> CWait | Some q \<Rightarrow> CRefused q)\<rparr>"
    by (rule call_refused_step [OF assms(1)])
  have "\<not> in_flight b i" "i \<notin> set (served b)" using assms(2) CRefused by (fastforce simp: closures_ok_def)+
  then show ?thesis using assms(2) set_step_frame [OF b1(1)] unfolding b1(2)
    by (auto simp: closures_ok_def in_flight_def)
next
  case CPush
  then have "\<not> in_flight b i" "i \<notin> set (served b)" using assms(2) by (fastforce simp: closures_ok_def)+
  with CPush assms show ?thesis
    using server_rest_all [of i "server b"]
    by (auto simp: call_step_def closures_ok_def in_flight_def Let_def) blast+
next
  case CWait
  show ?thesis
    by (rule closures_frame [OF assms(2)])
      (use assms(1) CWait event_ok_returns [OF assms(3) CWait] in \<open>auto simp: call_step_def Let_def split: if_splits\<close>)
qed (rule closures_frame [OF assms(2)]; use assms(1) in \<open>auto simp: call_step_def Let_def split: if_splits\<close>)+

lemma closures_serve:
  assumes "serve_step b = Some b'" "closures_ok b"
  shows "closures_ok b'"
proof (cases "server b")
  case (VSet p c cs)
  then obtain b1 q where b1: "set_step p c b = Some (b1, q)"
    "b' = b1\<lparr>server := case q of None \<Rightarrow> VNext cs | Some q \<Rightarrow> VSet q c cs\<rparr>"
    by (rule serve_set_step [OF assms(1)])
  show ?thesis using assms(2) set_step_frame [OF b1(1)] VSet unfolding b1(2)
    by (cases q) (auto simp: closures_ok_def in_flight_def)
next
  case (VNext cs)
  then show ?thesis using assms
    by (cases cs) (auto simp: serve_step_def closures_ok_def in_flight_def setting_def touch_def)
qed (use assms in \<open>auto simp: serve_step_def closures_ok_def in_flight_def split: if_splits\<close>)

lemma closures_drop:
  assumes "drop_step b = Some b'" "closures_ok b"
  shows "closures_ok b'"
proof (cases "dropper b")
  case (DSet p c cs)
  then obtain b1 q where b1: "set_step p c b = Some (b1, q)"
    "b' = b1\<lparr>dropper := case q of None \<Rightarrow> DNext cs | Some q \<Rightarrow> DSet q c cs\<rparr>"
    by (rule drop_set_step [OF assms(1)])
  show ?thesis using assms(2) set_step_frame [OF b1(1)] DSet unfolding b1(2)
    by (cases q) (auto simp: closures_ok_def in_flight_def)
next
  case (DNext cs)
  then show ?thesis using assms
    by (cases cs) (auto simp: drop_step_def closures_ok_def in_flight_def setting_def touch_def)
qed (use assms in \<open>auto simp: drop_step_def closures_ok_def in_flight_def split: if_splits\<close>)

lemma server_cur_all: "server_cur s = Some (c, p) \<Longrightarrow> c \<in> set (server_all s)"
  by (cases s) auto

lemma dropper_cur_all: "dropper_cur s = Some (c, p) \<Longrightarrow> c \<in> set (dropper_all s)"
  by (cases s) auto

text \<open>At most one actor sets the event of a call.\<close>

lemma one_setter:
  assumes "closures_ok b"
  shows "server_cur (server b) = Some (c, p) \<Longrightarrow> dropper_cur (dropper b) \<noteq> Some (c, q)"
    and "server_cur (server b) = Some (c, p) \<Longrightarrow> caller b c \<noteq> CRefused q"
    and "dropper_cur (dropper b) = Some (c, p) \<Longrightarrow> caller b c \<noteq> CRefused q"
  using assms server_cur_all [of "server b" c p] dropper_cur_all [of "dropper b" c]
  unfolding closures_ok_def in_flight_def
  by (fastforce, (metis waiting.simps)+)

lemma event_ok_frame:
  assumes "event_ok b c" "caller b' c = caller b c" "done_ev b' c = done_ev b c" "done_locked b' c = done_locked b c"
    and "\<And>p. setting b' c p = setting b c p" "in_flight b' c = in_flight b c"
  shows "event_ok b' c"
  using assms by (simp add: event_ok_def)

lemma set_step_other:
  assumes "set_step p i b = Some (b', q)" "c \<noteq> i"
  shows "caller b' c = caller b c" "done_ev b' c = done_ev b c" "done_locked b' c = done_locked b c"
  using assms by (cases p; auto simp: touch_def split: if_splits)+

lemma event_refused:
  assumes "caller b i = CRefused p" "set_step p i b = Some (b1, q)" "closures_ok b" "event_ok b i"
    and "b' = b1\<lparr>caller := (caller b1)(i := case q of None \<Rightarrow> CWait | Some q \<Rightarrow> CRefused q)\<rparr>"
  shows "event_ok b' i"
proof -
  have n: "\<not> in_flight b i" using assms(1,3) by (fastforce simp: closures_ok_def)
  then have "server_cur (server b) \<noteq> Some (i, r)" "dropper_cur (dropper b) \<noteq> Some (i, r)" for r
    using server_cur_all [of "server b" i r] dropper_cur_all [of "dropper b" i r] by (auto simp: in_flight_def)
  then show ?thesis
    using assms n by (cases p) (auto simp: event_ok_def setting_def in_flight_def touch_def Set_def split: if_splits)
qed

lemma event_call:
  assumes "call_step i b = Some b'" "closures_ok b" "\<And>c. event_ok b c"
  shows "event_ok b' c"
proof (cases "c = i")
  case False
  have "caller b' c = caller b c \<and> done_ev b' c = done_ev b c \<and> done_locked b' c = done_locked b c \<and>
      (\<forall>p. setting b' c p = setting b c p) \<and> in_flight b' c = in_flight b c"
  proof (cases "caller b i")
    case (CRefused p)
    then obtain b1 q where b1: "set_step p i b = Some (b1, q)"
      "b' = b1\<lparr>caller := (caller b1)(i := case q of None \<Rightarrow> CWait | Some q \<Rightarrow> CRefused q)\<rparr>"
      by (rule call_refused_step [OF assms(1)])
    show ?thesis
      using set_step_frame [OF b1(1)] set_step_other [OF b1(1) False] False unfolding b1(2)
      by (simp add: setting_def in_flight_def)
  qed (use assms(1) False in \<open>auto simp: call_step_def Let_def setting_def in_flight_def split: if_splits\<close>)
  then show ?thesis using event_ok_frame [OF assms(3) [of c], of b'] by simp
next
  case True
  have cur: "server_cur (server b) \<noteq> Some (i, r) \<and> dropper_cur (dropper b) \<noteq> Some (i, r)" if "\<not> in_flight b i" for r
    using that server_cur_all [of "server b" i r] dropper_cur_all [of "dropper b" i r] by (auto simp: in_flight_def)
  show ?thesis
  proof (cases "caller b i")
    case (CRefused p)
    then obtain b1 q where b1: "set_step p i b = Some (b1, q)"
      "b' = b1\<lparr>caller := (caller b1)(i := case q of None \<Rightarrow> CWait | Some q \<Rightarrow> CRefused q)\<rparr>"
      by (rule call_refused_step [OF assms(1)])
    show ?thesis using event_refused [OF CRefused b1(1) assms(2,3) b1(2)] True by simp
  next
    case CCheck
    then have "\<not> in_flight b i" using assms(2) by (fastforce simp: closures_ok_def)
    with CCheck assms(1) cur assms(3) [of i] show ?thesis unfolding True
      by (auto simp: call_step_def Let_def event_ok_def setting_def split: if_splits)
  next
    case CPostCheck
    then have "\<not> in_flight b i" using assms(2) by (fastforce simp: closures_ok_def)
    with CPostCheck assms(1) cur assms(3) [of i] show ?thesis unfolding True
      by (auto simp: call_step_def Let_def event_ok_def setting_def split: if_splits)
  next
    case CPush
    then have "\<not> in_flight b i" using assms(2) by (fastforce simp: closures_ok_def)
    note cur [OF this, simp]
    have "b' = b\<lparr>call_queue := call_queue b @ [i], caller := (caller b)(i := CWake)\<rparr>"
      using assms(1) CPush by (simp add: call_step_def Let_def)
    with CPush assms(3) [of i] show ?thesis unfolding True
      by (simp add: event_ok_def setting_def in_flight_def)
  next
    case CWake
    then have "b' = b\<lparr>loop_woken := True, caller := (caller b)(i := CWait)\<rparr>"
      using assms(1) by (simp add: call_step_def Let_def)
    with CWake assms(3) [of i] show ?thesis unfolding True
      by (simp add: event_ok_def setting_def in_flight_def)
  next
    case CWait
    then have "\<not> done_locked b i"
      and "b' = (if event_status_m (done_ev b i) then b\<lparr>done_ev := (done_ev b)(i := if is_manual_reset_m (done_ev b i) then done_ev b i else Reset (done_ev b i)), caller := (caller b)(i := CReturned)\<rparr>
        else b\<lparr>caller := (caller b)(i := CBlocked)\<rparr>)"
      using assms(1) by (auto simp: call_step_def Let_def split: if_splits)
    with CWait assms(3) [of i] show ?thesis unfolding True
      by (simp add: event_ok_def setting_def in_flight_def Reset_def)
  qed (use assms(1) in \<open>auto simp: call_step_def Let_def\<close>)
qed

lemma event_ok_waiting:
  assumes "waiting (caller b c)"
  shows "event_ok b c \<longleftrightarrow> \<not> is_manual_reset_m (done_ev b c) \<and>
     (done_locked b c \<longleftrightarrow> setting b c SStore \<or> setting b c SBroadcast \<or> setting b c SUnlock) \<and>
     (event_status_m (done_ev b c) \<longleftrightarrow> \<not> in_flight b c \<or> setting b c SBroadcast \<or> setting b c SUnlock) \<and>
     (caller b c = CBlocked \<and> event_status_m (done_ev b c) \<longrightarrow> setting b c SBroadcast)"
  using assms by (cases "caller b c") (simp_all add: event_ok_def)

text \<open>A step of \<^verbatim>\<open>Set\<close> by the loop's thread or by \<^verbatim>\<open>Quit\<close> on the event of \<open>c\<close>, who waits.\<close>

lemma set_step_event:
  assumes "set_step p c b = Some (b1, q)" "event_ok b c" "waiting (caller b c)" "in_flight b c"
    and "\<And>r. setting b c r \<longleftrightarrow> r = p" "\<And>r. setting b' c r \<longleftrightarrow> q = Some r"
    and "caller b' = caller b1" "done_ev b' = done_ev b1" "done_locked b' = done_locked b1"
    and "in_flight b' c \<longleftrightarrow> q \<noteq> None"
  shows "event_ok b' c"
proof -
  have w: "waiting (caller b' c)" using assms(3) set_step_frame(7) [OF assms(1)] by (simp add: assms(7))
  note e = assms(2) [unfolded event_ok_waiting [OF assms(3)] assms(5)]
  have "caller b1 c = (if p = SBroadcast \<and> caller b c = CBlocked then CWait else caller b c) \<and>
    done_ev b1 c = (if p = SStore then Set (done_ev b c) else done_ev b c) \<and>
    done_locked b1 c = (if p = SLock then True else if p = SUnlock then False else done_locked b c) \<and>
    q = (case p of SLock \<Rightarrow> Some SStore | SStore \<Rightarrow> Some SBroadcast | SBroadcast \<Rightarrow> Some SUnlock | SUnlock \<Rightarrow> None)"
    using assms(1) by (cases p) (auto simp: touch_def split: if_splits)
  then show ?thesis
    unfolding event_ok_waiting [OF w] assms(6-10)
    using e assms(4) by (cases p) (auto simp: Set_def)
qed

lemma server_setting:
  assumes "closures_ok b" "server b = VSet p c cs"
  shows "setting b c r \<longleftrightarrow> r = p" "waiting (caller b c)" "in_flight b c" "c \<notin> set cs" "c \<notin> set (call_queue b)"
    "c \<notin> set (dropper_all (dropper b))"
proof -
  have f: "in_flight b c" using assms(2) by (simp add: in_flight_def)
  then show "waiting (caller b c)" "in_flight b c" using assms(1) by (auto simp: closures_ok_def)
  then show "setting b c r \<longleftrightarrow> r = p"
    using one_setter(1) [OF assms(1), of c p r] assms(2) by (auto simp: setting_def)
  have "c \<in> set (served b)" "distinct (served b @ cs @ call_queue b @ dropper_all (dropper b))"
    using assms by (auto simp: closures_ok_def)
  then show "c \<notin> set cs" "c \<notin> set (call_queue b)" "c \<notin> set (dropper_all (dropper b))" by auto
qed

lemma dropper_setting:
  assumes "closures_ok b" "dropper b = DSet p c cs"
  shows "setting b c r \<longleftrightarrow> r = p" "waiting (caller b c)" "in_flight b c" "c \<notin> set cs" "c \<notin> set (call_queue b)"
    "c \<notin> set (server_all (server b))"
proof -
  have f: "in_flight b c" using assms(2) by (simp add: in_flight_def)
  then show "waiting (caller b c)" "in_flight b c" using assms(1) by (auto simp: closures_ok_def)
  then show "setting b c r \<longleftrightarrow> r = p"
    using one_setter(1) [OF assms(1), of c r p] assms(2) by (auto simp: setting_def)
  have d: "distinct (served b @ server_rest (server b) @ call_queue b @ c # cs)"
    "\<And>p. server_cur (server b) = Some (c, p) \<Longrightarrow> c \<in> set (served b)"
    using assms by (auto simp: closures_ok_def)
  then show "c \<notin> set cs" "c \<notin> set (call_queue b)" by auto
  from d show "c \<notin> set (server_all (server b))" by (cases "server b") auto
qed

lemma server_next:
  assumes "closures_ok b" "server b = VNext (c # cs)"
  shows "waiting (caller b c)" "\<not> setting b c r"
proof -
  have "c \<notin> set (dropper_all (dropper b))" and w: "waiting (caller b c)"
    using assms by (auto simp: closures_ok_def in_flight_def)
  then show "waiting (caller b c)" "\<not> setting b c r"
    using dropper_cur_all [of "dropper b" c r] assms(2) by (auto simp: setting_def)
qed

lemma dropper_next:
  assumes "closures_ok b" "dropper b = DNext (c # cs)"
  shows "waiting (caller b c)" "\<not> setting b c r"
proof -
  have d: "distinct (served b @ server_rest (server b) @ call_queue b @ c # cs)" "waiting (caller b c)"
    "server_cur (server b) = Some (c, r) \<Longrightarrow> c \<in> set (served b)"
    using assms by (auto simp: closures_ok_def in_flight_def)
  then show "waiting (caller b c)" "\<not> setting b c r" using assms(2) by (auto simp: setting_def)
qed

lemma event_serve:
  assumes "serve_step b = Some b'" "closures_ok b" "\<And>c. event_ok b c"
  shows "event_ok b' d"
proof (cases "server b")
  case (VSet p c cs)
  then obtain b1 q where b1: "set_step p c b = Some (b1, q)"
    "b' = b1\<lparr>server := case q of None \<Rightarrow> VNext cs | Some q \<Rightarrow> VSet q c cs\<rparr>"
    by (rule serve_set_step [OF assms(1)])
  note fr = set_step_frame [OF b1(1)] and st = server_setting [OF assms(2) VSet]
  show ?thesis
  proof (cases "d = c")
    case True
    have "caller b c \<noteq> CRefused r" "dropper_cur (dropper b) \<noteq> Some (c, r)" for r
      using st(2) st(6) dropper_cur_all [of "dropper b" c r] by auto
    then have "setting b' c r \<longleftrightarrow> q = Some r" for r
      using fr unfolding b1(2) by (cases q) (auto simp: setting_def)
    moreover have "in_flight b' c \<longleftrightarrow> q \<noteq> None"
      using st fr unfolding b1(2) by (cases q) (auto simp: in_flight_def)
    ultimately show ?thesis
      unfolding True using set_step_event [OF b1(1) assms(3) st(2,3,1), of b'] by (simp add: b1(2))
  next
    case False
    show ?thesis
      by (rule event_ok_frame [OF assms(3)])
        (use False VSet fr set_step_other [OF b1(1) False] in \<open>cases q; auto simp: b1(2) setting_def in_flight_def\<close>)+
  qed
next
  case (VNext cs)
  show ?thesis
  proof (cases cs)
    case Nil
    show ?thesis
      by (rule event_ok_frame [OF assms(3)])
        (use assms(1) VNext Nil in \<open>auto simp: serve_step_def setting_def in_flight_def\<close>)
  next
    case (Cons c cs')
    note nx = server_next [OF assms(2) VNext [unfolded Cons]]
    have b': "b' = (touch c b)\<lparr>served := served b @ [c], server := VSet SLock c cs'\<rparr>"
      using assms(1) VNext Cons by (simp add: serve_step_def)
    show ?thesis
    proof (cases "d = c")
      case True
      have w: "waiting (caller b' c)" using nx(1) b' by (simp add: touch_def)
      have "in_flight b' c \<and> in_flight b c" using VNext Cons b' by (simp add: in_flight_def)
      moreover have "setting b' c r \<longleftrightarrow> r = SLock" for r
        using nx(2) [of r] VNext Cons b' by (auto simp: setting_def touch_def)
      ultimately show ?thesis
        using assms(3) [of c] nx(2) unfolding True event_ok_waiting [OF w] event_ok_waiting [OF nx(1)]
        by (simp add: b' touch_def)
    next
      case False
      show ?thesis
        by (rule event_ok_frame [OF assms(3)])
          (use False VNext Cons in \<open>auto simp: b' touch_def setting_def in_flight_def\<close>)
    qed
  qed
qed (rule event_ok_frame [OF assms(3)];
     use assms(1) in \<open>auto simp: serve_step_def setting_def in_flight_def split: if_splits\<close>)+

lemma event_drop:
  assumes "drop_step b = Some b'" "closures_ok b" "\<And>c. event_ok b c"
  shows "event_ok b' d"
proof (cases "dropper b")
  case (DSet p c cs)
  then obtain b1 q where b1: "set_step p c b = Some (b1, q)"
    "b' = b1\<lparr>dropper := case q of None \<Rightarrow> DNext cs | Some q \<Rightarrow> DSet q c cs\<rparr>"
    by (rule drop_set_step [OF assms(1)])
  note fr = set_step_frame [OF b1(1)] and st = dropper_setting [OF assms(2) DSet]
  show ?thesis
  proof (cases "d = c")
    case True
    have "caller b c \<noteq> CRefused r" "server_cur (server b) \<noteq> Some (c, r)" for r
      using st(2) st(6) server_cur_all [of "server b" c r] by auto
    then have "setting b' c r \<longleftrightarrow> q = Some r" for r
      using fr unfolding b1(2) by (cases q) (auto simp: setting_def)
    moreover have "in_flight b' c \<longleftrightarrow> q \<noteq> None"
      using st fr unfolding b1(2) by (cases q) (auto simp: in_flight_def)
    ultimately show ?thesis
      unfolding True using set_step_event [OF b1(1) assms(3) st(2,3,1), of b'] by (simp add: b1(2))
  next
    case False
    show ?thesis
      by (rule event_ok_frame [OF assms(3)])
        (use False DSet fr set_step_other [OF b1(1) False] in \<open>cases q; auto simp: b1(2) setting_def in_flight_def\<close>)+
  qed
next
  case (DNext cs)
  show ?thesis
  proof (cases cs)
    case Nil
    show ?thesis
      by (rule event_ok_frame [OF assms(3)])
        (use assms(1) DNext Nil in \<open>auto simp: drop_step_def setting_def in_flight_def\<close>)
  next
    case (Cons c cs')
    note nx = dropper_next [OF assms(2) DNext [unfolded Cons]]
    have b': "b' = b\<lparr>dropper := DSet SLock c cs'\<rparr>"
      using assms(1) DNext Cons by (simp add: drop_step_def)
    show ?thesis
    proof (cases "d = c")
      case True
      have w: "waiting (caller b' c)" using nx(1) b' by simp
      have "in_flight b' c \<and> in_flight b c" using DNext Cons b' by (simp add: in_flight_def)
      moreover have "setting b' c r \<longleftrightarrow> r = SLock" for r
        using nx(2) [of r] DNext Cons b' by (auto simp: setting_def)
      ultimately show ?thesis
        using assms(3) [of c] nx(2) unfolding True event_ok_waiting [OF w] event_ok_waiting [OF nx(1)]
        by (simp add: b')
    next
      case False
      show ?thesis
        by (rule event_ok_frame [OF assms(3)])
          (use False DNext Cons in \<open>auto simp: b' setting_def in_flight_def\<close>)
    qed
  qed
qed (rule event_ok_frame [OF assms(3)];
     use assms(1) in \<open>auto simp: drop_step_def setting_def in_flight_def\<close>)+

lemma set_step_alive:
  assumes "set_step p c b = Some (b', q)" "frame_alive (caller b c)"
  shows "touched_dead b' = touched_dead b"
  using assms by (cases p) (auto simp: touch_def split: if_splits)

lemma waiting_alive: "waiting p \<Longrightarrow> frame_alive p"
  by (cases p) auto

lemma wake_ok_frame:
  assumes "wake_ok b" "call_queue b' = call_queue b" "loop_woken b' = loop_woken b" "server b' = server b"
    "loop_running b' = loop_running b" "\<And>c. caller b c = CWake \<Longrightarrow> caller b' c = CWake"
  shows "wake_ok b'"
  using assms unfolding wake_ok_def by (metis assms(6))

lemma unquit_ok_frame:
  assumes "unquit_ok b" "dropper b' = dropper b" "call_queue b' = call_queue b" "served b' = served b" "server b' = server b"
    "loop_running b' = loop_running b"
    and "\<And>c. loop_running b \<Longrightarrow> waiting (caller b' c) \<or> caller b' c = CReturned \<Longrightarrow> waiting (caller b c) \<or> caller b c = CReturned"
    and "\<And>c p. loop_running b \<Longrightarrow> caller b' c = CRefused p \<Longrightarrow> caller b c = CRefused p"
  shows "unquit_ok b'"
  using assms unfolding unquit_ok_def by metis

lemma call_rest:
  assumes "call_step i b = Some b'" "wake_ok b" "unquit_ok b" "closures_ok b" "\<not> touched_dead b"
  shows "wake_ok b' \<and> unquit_ok b' \<and> active b' \<subseteq> active b \<and> \<not> touched_dead b'"
proof (cases "caller b i")
  case (CRefused p)
  then obtain b1 q where b1: "set_step p i b = Some (b1, q)"
    "b' = b1\<lparr>caller := (caller b1)(i := case q of None \<Rightarrow> CWait | Some q \<Rightarrow> CRefused q)\<rparr>"
    by (rule call_refused_step [OF assms(1)])
  note fr = set_step_frame [OF b1(1)]
  have "touched_dead b' = touched_dead b"
    using set_step_alive [OF b1(1)] CRefused by (simp add: b1(2))
  moreover have "wake_ok b'"
    by (rule wake_ok_frame [OF assms(2)]) (use fr CRefused in \<open>auto simp: b1(2)\<close>)
  moreover have "unquit_ok b'"
    using assms(3) fr(3) CRefused unfolding unquit_ok_def b1(2) by auto
  moreover have "active b' \<subseteq> active b"
    using fr(9,10) CRefused unfolding b1(2) active_def by (auto split: option.splits)
  ultimately show ?thesis using assms by simp
next
  case CPush
  then have b': "b' = b\<lparr>call_queue := call_queue b @ [i], caller := (caller b)(i := CWake)\<rparr>"
    using assms(1) by (simp add: call_step_def Let_def)
  then have "caller b' i = CWake" by simp
  then have "wake_ok b'" using assms(2) by (auto simp: b' wake_ok_def)
  moreover have "unquit_ok b'" using assms(3) CPush by (simp add: b' unquit_ok_def)
  moreover have "active b' \<subseteq> active b" using CPush by (auto simp: b' active_def)
  ultimately show ?thesis using assms(5) by (simp add: b')
next
  case CWake
  then have b': "b' = b\<lparr>loop_woken := True, caller := (caller b)(i := CWait)\<rparr>"
    using assms(1) by (simp add: call_step_def Let_def)
  have "wake_ok b'" using assms(2) by (simp add: b' wake_ok_def)
  moreover have "unquit_ok b'" using assms(3) CWake by (simp add: b' unquit_ok_def)
  moreover have "active b' \<subseteq> active b" using CWake by (auto simp: b' active_def)
  ultimately show ?thesis using assms(5) by (simp add: b')
next
  case CWait
  have "wake_ok b'"
    by (rule wake_ok_frame [OF assms(2)])
      (use assms(1) CWait in \<open>auto simp: call_step_def Let_def split: if_splits\<close>)
  moreover have "unquit_ok b'"
    by (rule unquit_ok_frame [OF assms(3)])
      (use assms(1) CWait in \<open>auto simp: call_step_def Let_def split: if_splits\<close>)
  moreover have "active b' \<subseteq> active b \<and> \<not> touched_dead b'"
    using assms(1,5) CWait by (auto simp: call_step_def Let_def active_def split: if_splits)
  ultimately show ?thesis by blast
next
  case CCheck
  have "wake_ok b'"
    by (rule wake_ok_frame [OF assms(2)])
      (use assms(1) CCheck in \<open>auto simp: call_step_def Let_def split: if_splits\<close>)
  moreover have "unquit_ok b'"
    by (rule unquit_ok_frame [OF assms(3)])
      (use assms(1) CCheck in \<open>auto simp: call_step_def Let_def split: if_splits\<close>)
  moreover have "active b' \<subseteq> active b \<and> \<not> touched_dead b'"
    using assms(1,5) CCheck by (auto simp: call_step_def Let_def active_def split: if_splits)
  ultimately show ?thesis by blast
next
  case CPostCheck
  have "wake_ok b'"
    by (rule wake_ok_frame [OF assms(2)])
      (use assms(1) CPostCheck in \<open>auto simp: call_step_def Let_def split: if_splits\<close>)
  moreover have "unquit_ok b'"
    by (rule unquit_ok_frame [OF assms(3)])
      (use assms(1) CPostCheck in \<open>auto simp: call_step_def Let_def split: if_splits\<close>)
  moreover have "active b' \<subseteq> active b \<and> \<not> touched_dead b'"
    using assms(1,5) CPostCheck by (auto simp: call_step_def Let_def active_def split: if_splits)
  ultimately show ?thesis by blast
qed (use assms in \<open>auto simp: call_step_def Let_def\<close>)

lemma serve_rest:
  assumes "serve_step b = Some b'" "wake_ok b" "unquit_ok b" "closures_ok b" "\<not> touched_dead b"
  shows "wake_ok b' \<and> unquit_ok b' \<and> active b' \<subseteq> active b \<and> \<not> touched_dead b'"
proof (cases "server b")
  case (VSet p c cs)
  then obtain b1 q where b1: "set_step p c b = Some (b1, q)"
    "b' = b1\<lparr>server := case q of None \<Rightarrow> VNext cs | Some q \<Rightarrow> VSet q c cs\<rparr>"
    by (rule serve_set_step [OF assms(1)])
  note fr = set_step_frame [OF b1(1)]
  have "touched_dead b' = touched_dead b"
    using set_step_alive [OF b1(1)] waiting_alive server_setting(2) [OF assms(4) VSet] by (simp add: b1(2))
  moreover have "wake_ok b'"
    using assms(2) fr(1-6) fr(11) VSet unfolding wake_ok_def b1(2) by (auto split: option.splits)
  moreover have "unquit_ok b'"
    using assms(3) fr VSet unfolding unquit_ok_def b1(2) by (auto split: option.splits)
  moreover have "active b' \<subseteq> active b"
    using fr(9,10) unfolding b1(2) active_def by auto
  ultimately show ?thesis using assms by simp
next
  case (VNext cs)
  show ?thesis
  proof (cases cs)
    case Nil
    then show ?thesis using assms VNext
      by (auto simp: serve_step_def wake_ok_def unquit_ok_def active_def)
  next
    case (Cons c cs')
    have "frame_alive (caller b c)" using server_next(1) [OF assms(4) VNext [unfolded Cons]] waiting_alive by blast
    then show ?thesis using assms VNext Cons
      by (auto simp: serve_step_def wake_ok_def unquit_ok_def active_def touch_def)
  qed
qed (use assms in \<open>auto simp: serve_step_def wake_ok_def unquit_ok_def active_def split: if_splits\<close>)

lemma drop_rest:
  assumes "drop_step b = Some b'" "wake_ok b" "unquit_ok b" "closures_ok b" "\<not> touched_dead b"
  shows "wake_ok b' \<and> unquit_ok b' \<and> active b' \<subseteq> active b \<and> \<not> touched_dead b'"
proof (cases "dropper b")
  case (DSet p c cs)
  then obtain b1 q where b1: "set_step p c b = Some (b1, q)"
    "b' = b1\<lparr>dropper := case q of None \<Rightarrow> DNext cs | Some q \<Rightarrow> DSet q c cs\<rparr>"
    by (rule drop_set_step [OF assms(1)])
  note fr = set_step_frame [OF b1(1)]
  have "touched_dead b' = touched_dead b"
    using set_step_alive [OF b1(1)] waiting_alive dropper_setting(2) [OF assms(4) DSet] by (simp add: b1(2))
  moreover have "wake_ok b'"
    using assms(2) fr(1-6) fr(11) unfolding wake_ok_def b1(2) by (auto split: option.splits)
  moreover have "unquit_ok b'"
    unfolding unquit_ok_def b1(2) by (auto split: option.splits)
  moreover have "active b' \<subseteq> active b"
    using fr(9,10) unfolding b1(2) active_def by auto
  ultimately show ?thesis using assms by simp
next
  case (DNext cs)
  then show ?thesis using assms
    by (cases cs) (auto simp: drop_step_def wake_ok_def unquit_ok_def active_def)
qed (use assms in \<open>auto simp: drop_step_def wake_ok_def unquit_ok_def active_def\<close>)

lemma own_step_inv:
  assumes "own_step b b'" "calls_inv b"
  shows "calls_inv b'"
  using assms
proof cases
  case (os_call c)
  then show ?thesis using assms(2) closures_call [OF os_call] event_call [OF os_call] call_rest [OF os_call]
    by (auto simp: calls_inv_def active_def intro: finite_subset)
next
  case os_serve
  then show ?thesis using assms(2) closures_serve [OF os_serve] event_serve [OF os_serve] serve_rest [OF os_serve]
    by (auto simp: calls_inv_def active_def intro: finite_subset)
next
  case os_drop
  then show ?thesis using assms(2) closures_drop [OF os_drop] event_drop [OF os_drop] drop_rest [OF os_drop]
    by (auto simp: calls_inv_def active_def intro: finite_subset)
qed

lemma env_frame:
  assumes "calls_inv b" "caller b' = (caller b)(c := p)" "b' = b\<lparr>caller := caller b'\<rparr>"
    and "caller b c = CNew \<and> p = CCheck \<or> caller b c = CBlocked \<and> p = CWait"
  shows "calls_inv b'"
proof -
  have same: "call_queue b' = call_queue b" "server b' = server b" "dropper b' = dropper b" "served b' = served b"
    "loop_running b' = loop_running b" "loop_woken b' = loop_woken b" "done_ev b' = done_ev b" "done_locked b' = done_locked b"
    "touched_dead b' = touched_dead b"
    by (subst assms(3), simp)+
  have ok: "closures_ok b" "wake_ok b" "unquit_ok b" using assms(1) by (simp_all add: calls_inv_def)
  have "closures_ok b'"
    by (rule closures_frame [OF ok(1)]) (use assms(2,4) same in auto)
  moreover have "wake_ok b'"
    by (rule wake_ok_frame [OF ok(2)]) (use assms(2,4) same in auto)
  moreover have "unquit_ok b'"
    by (rule unquit_ok_frame [OF ok(3)]) (use assms(2,4) same in \<open>auto split: if_splits\<close>)
  moreover have "active b' \<subseteq> insert c (active b)" using assms(2) by (auto simp: active_def)
  moreover have "event_ok b' d" for d
  proof (cases "d = c")
    case False
    have "event_ok b d" using assms(1) by (simp add: calls_inv_def)
    then show ?thesis
      by (rule event_ok_frame) (use False assms(2) same in \<open>simp_all add: setting_def in_flight_def\<close>)
  next
    case True
    have "setting b' c r \<longleftrightarrow> setting b c r" "in_flight b' c \<longleftrightarrow> in_flight b c" for r
      using assms(2,4) same by (auto simp: setting_def in_flight_def)
    moreover have e: "event_ok b c" using assms(1) by (simp add: calls_inv_def)
    ultimately show ?thesis
      using assms(4)
    proof (elim disjE conjE)
      assume p: "caller b c = CNew" "p = CCheck"
      with e assms(2) same True show ?thesis by (simp add: event_ok_def)
    next
      assume p: "caller b c = CBlocked" "p = CWait"
      then have "waiting (caller b c)" "waiting (caller b' c)" by (simp_all add: assms(2))
      with p e assms(2) same True \<open>\<And>r. setting b' c r \<longleftrightarrow> setting b c r\<close> \<open>in_flight b' c \<longleftrightarrow> in_flight b c\<close>
      show ?thesis by (simp add: event_ok_waiting)
    qed
  qed
  ultimately show ?thesis
    using assms(1) same finite_subset [of "active b'" "insert c (active b)"]
    by (simp add: calls_inv_def active_def)
qed

lemma calls_step_inv: "calls_step b b' \<Longrightarrow> calls_inv b \<Longrightarrow> calls_inv b'"
proof (induction rule: calls_step.induct)
  case (cs_own b b')
  then show ?case using own_step_inv by blast
next
  case (cs_new b c)
  show ?case by (rule env_frame [OF cs_new.prems, of _ c CCheck]) (use cs_new.hyps in auto)
next
  case (cs_spurious b c)
  show ?case by (rule env_frame [OF cs_spurious.prems, of _ c CWait]) (use cs_spurious.hyps in auto)
next
  case (cs_quit b)
  have "event_ok (b\<lparr>dropper := DSwap\<rparr>) c" for c
    by (rule event_ok_frame [of b]) (use cs_quit in \<open>auto simp: calls_inv_def setting_def in_flight_def\<close>)
  then show ?case using cs_quit
    by (simp add: calls_inv_def closures_ok_def in_flight_def wake_ok_def unquit_ok_def active_def) auto
next
  case (cs_leave b)
  have "event_ok (b\<lparr>server := VLeft\<rparr>) c" for c
    by (rule event_ok_frame [of b]) (use cs_leave in \<open>auto simp: calls_inv_def setting_def in_flight_def\<close>)
  then show ?case using cs_leave
    by (simp add: calls_inv_def closures_ok_def in_flight_def wake_ok_def unquit_ok_def active_def)
qed

lemma calls_new_inv: "calls_inv calls_new"
  by (simp add: calls_inv_def calls_new_def closures_ok_def event_ok_def wake_ok_def unquit_ok_def in_flight_def setting_def
      active_def)

interpretation blocking: step_invariant calls_step calls_new calls_inv
  by unfold_locales (rule calls_new_inv, rule calls_step_inv)

end
