(* ===== verification/BlockingCalls.thy ===== *)
theory BlockingCalls
  imports BlockingThreads
begin

text \<open>
  What the interleaved model of blocking calls (\<open>BlockingThreads\<close>) promises to a caller: memory safety, and that every call returns.
  \<open>work\<close> counts the steps the program can still take; a state in which it can take none has no call under way.
\<close>

section \<open>Work\<close>

fun set_work :: "set_pc \<Rightarrow> nat" where
  "set_work SLock = 5" | "set_work SStore = 4" | "set_work SBroadcast = 3" | "set_work SUnlock = 1"

fun call_work :: "call_pc \<Rightarrow> nat" where
  "call_work CNew = 0" | "call_work CCheck = 17" | "call_work CPostCheck = 16" | "call_work (CRefused p) = 2 + set_work p"
| "call_work CPush = 15" | "call_work CWake = 7" | "call_work CWait = 2" | "call_work CBlocked = 1" | "call_work CReturned = 0"

fun serve_work :: "serve_pc \<Rightarrow> nat" where
  "serve_work VIdle = 2" | "serve_work VReset = 1" | "serve_work VTake = 4" | "serve_work (VNext cs) = 3 + 7 * length cs"
| "serve_work (VSet p c cs) = 3 + set_work p + 7 * length cs" | "serve_work VLeft = 0"

fun drop_work :: "drop_pc \<Rightarrow> nat" where
  "drop_work DIdle = 0" | "drop_work DSwap = 3" | "drop_work (DNext cs) = 2 + 7 * length cs"
| "drop_work (DSet p c cs) = 2 + set_work p + 7 * length cs" | "drop_work DStore = 1" | "drop_work DDone = 0"

definition callers_work :: "calls \<Rightarrow> nat" where
  "callers_work b = (\<Sum>c\<in>active b. call_work (caller b c))"

definition work :: "calls \<Rightarrow> nat" where
  "work b = callers_work b + 7 * length (call_queue b) + (if loop_woken b then 4 else 0) + serve_work (server b) + drop_work (dropper b)"

lemma callers_work_upd:
  assumes "finite (active b)" "c \<in> active b" "caller b' = (caller b)(c := p)"
  shows "callers_work b' + call_work (caller b c) = callers_work b + call_work p"
proof -
  have "callers_work b' = (\<Sum>d\<in>active b. call_work (caller b' d))"
    unfolding callers_work_def by (rule sum.mono_neutral_left) (use assms in \<open>auto simp: active_def\<close>)
  also have "\<dots> = (\<Sum>d\<in>active b - {c}. call_work (caller b d)) + call_work p"
    using assms by (simp add: sum.remove [of _ c])
  finally show ?thesis
    using assms(1,2) by (simp add: callers_work_def sum.remove [of _ c])
qed

lemma callers_work_same: "caller b' = caller b \<Longrightarrow> callers_work b' = callers_work b"
  by (simp add: callers_work_def active_def)

text \<open>The broadcast can send a blocked caller round the wait loop once more.\<close>

lemma set_step_work:
  assumes "set_step p c b = Some (b', q)" "finite (active b)"
  shows "callers_work b' + (case q of None \<Rightarrow> 0 | Some q \<Rightarrow> set_work q) < callers_work b + set_work p"
proof (cases "p = SBroadcast \<and> caller b c = CBlocked")
  case True
  then have "caller b' = (caller b)(c := CWait)" "q = Some SUnlock" "c \<in> active b"
    using assms(1) by (auto simp: active_def)
  then show ?thesis using callers_work_upd [OF assms(2), of c b' CWait] True by simp
next
  case False
  then have "caller b' = caller b" using assms(1) by (cases p) (auto simp: touch_def split: if_splits)
  then show ?thesis
    using assms(1) callers_work_same [of b' b] by (cases p) (auto split: if_splits)
qed

lemma own_step_work:
  assumes "own_step b b'" "calls_inv b"
  shows "work b' < work b"
  using assms(1)
proof cases
  case (os_call c)
  have fin: "finite (active b)" using assms(2) by (simp add: calls_inv_def active_def)
  show ?thesis
  proof (cases "caller b c")
    case (CRefused p)
    then obtain b1 q where b1: "set_step p c b = Some (b1, q)"
      "b' = b1\<lparr>caller := (caller b1)(c := case q of None \<Rightarrow> CWait | Some q \<Rightarrow> CRefused q)\<rparr>"
      by (rule call_refused_step [OF os_call])
    have "caller b1 = caller b" using b1(1) CRefused by (cases p) (auto simp: touch_def split: if_splits)
    then have "callers_work b' + call_work (CRefused p) = callers_work b + call_work (case q of None \<Rightarrow> CWait | Some q \<Rightarrow> CRefused q)"
      using callers_work_upd [OF fin, of c b'] CRefused by (simp add: b1(2) active_def)
    moreover have "call_work (case q of None \<Rightarrow> CWait | Some q \<Rightarrow> CRefused q) < call_work (CRefused p)"
      using b1(1) by (cases p) (auto split: if_splits)
    ultimately show ?thesis using set_step_frame [OF b1(1)] by (simp add: work_def b1(2))
  next
    case CNew
    then show ?thesis using os_call by (simp add: call_step_def)
  next
    case CReturned
    then show ?thesis using os_call by (simp add: call_step_def)
  qed (use os_call callers_work_upd [OF fin, of c b' "caller b' c"] in
      \<open>auto simp: call_step_def Let_def work_def active_def split: if_splits\<close>)
next
  case os_serve
  have fin: "finite (active b)" using assms(2) by (simp add: calls_inv_def active_def)
  show ?thesis
  proof (cases "server b")
    case (VSet p c cs)
    then obtain b1 q where b1: "set_step p c b = Some (b1, q)"
      "b' = b1\<lparr>server := case q of None \<Rightarrow> VNext cs | Some q \<Rightarrow> VSet q c cs\<rparr>"
      by (rule serve_set_step [OF os_serve])
    show ?thesis
      using set_step_work [OF b1(1) fin] set_step_frame [OF b1(1)] VSet callers_work_same [of b' b1]
      by (cases q) (auto simp: work_def b1(2))
  next
    case (VNext cs)
    then show ?thesis using os_serve callers_work_same [of b' b]
      by (cases cs) (auto simp: serve_step_def work_def touch_def)
  qed (use os_serve callers_work_same [of b' b] assms(2) in
      \<open>auto simp: serve_step_def work_def calls_inv_def wake_ok_def split: if_splits\<close>)
next
  case os_drop
  have fin: "finite (active b)" using assms(2) by (simp add: calls_inv_def active_def)
  show ?thesis
  proof (cases "dropper b")
    case (DSet p c cs)
    then obtain b1 q where b1: "set_step p c b = Some (b1, q)"
      "b' = b1\<lparr>dropper := case q of None \<Rightarrow> DNext cs | Some q \<Rightarrow> DSet q c cs\<rparr>"
      by (rule drop_set_step [OF os_drop])
    show ?thesis
      using set_step_work [OF b1(1) fin] set_step_frame [OF b1(1)] DSet callers_work_same [of b' b1]
      by (cases q) (auto simp: work_def b1(2))
  next
    case (DNext cs)
    then show ?thesis using os_drop callers_work_same [of b' b]
      by (cases cs) (auto simp: drop_step_def work_def)
  qed (use os_drop callers_work_same [of b' b] in \<open>auto simp: drop_step_def work_def\<close>)
qed

interpretation working: bounded_work own_step calls_inv work
  by unfold_locales (erule own_step_inv, assumption, erule own_step_work, assumption)

section \<open>States at rest\<close>

lemma rest_unset:
  assumes rest: "\<nexists>b'. own_step b b'" and "calls_inv b" "frame_alive (caller b c)"
  shows "\<not> setting b c p" "\<not> done_locked b c"
proof -
  have e: "event_ok b c" using assms(2) by (simp add: calls_inv_def)
  have blocked: "p = SLock \<and> done_locked b c" if "setting b c p" for p
  proof (rule ccontr)
    assume "\<not> (p = SLock \<and> done_locked b c)"
    then have "set_step p c b \<noteq> None" by (cases p) auto
    with that have "call_step c b \<noteq> None \<or> serve_step b \<noteq> None \<or> drop_step b \<noteq> None"
      unfolding setting_def
      by (cases "server b"; cases "dropper b") (auto simp: call_step_def serve_step_def drop_step_def Let_def)
    with rest show False using own_step.intros by blast
  qed
  with e assms(3) show "\<not> done_locked b c" by (auto simp: event_ok_def)
  with blocked show "\<not> setting b c p" by blast
qed

lemma rest_idle:
  assumes rest: "\<nexists>b'. own_step b b'" and inv: "calls_inv b"
  shows "(server b = VIdle \<and> \<not> loop_woken b) \<or> server b = VLeft" "dropper_all (dropper b) = []" "dropper b = DIdle \<or> dropper b = DDone"
proof -
  have s: "serve_step b = None" "drop_step b = None" using rest own_step.intros by (metis option.exhaust)+
  have cl: "closures_ok b" using inv by (simp add: calls_inv_def)
  show "(server b = VIdle \<and> \<not> loop_woken b) \<or> server b = VLeft"
  proof (cases "server b")
    case (VSet p c cs)
    then have "frame_alive (caller b c)" using server_setting(2) [OF cl VSet] waiting_alive by blast
    with VSet rest_unset(1) [OF rest inv, of c p] show ?thesis by (simp add: setting_def)
  next
    case (VNext cs)
    with s(1) show ?thesis by (cases cs) (simp_all add: serve_step_def)
  qed (use s(1) in \<open>auto simp: serve_step_def split: if_splits\<close>)
  show "dropper b = DIdle \<or> dropper b = DDone"
  proof (cases "dropper b")
    case (DSet p c cs)
    then have "frame_alive (caller b c)" using dropper_setting(2) [OF cl DSet] waiting_alive by blast
    with DSet rest_unset(1) [OF rest inv, of c p] show ?thesis by (simp add: setting_def)
  next
    case (DNext cs)
    with s(2) show ?thesis by (cases cs) (simp_all add: drop_step_def)
  qed (use s(2) in \<open>auto simp: drop_step_def\<close>)
  then show "dropper_all (dropper b) = []" by auto
qed

lemma rest_calls:
  assumes rest: "\<nexists>b'. own_step b b'" and inv: "calls_inv b"
  shows "caller b c = CNew \<or> caller b c = CReturned \<or> caller b c = CBlocked \<and> server b = VLeft \<and> c \<in> set (call_queue b)"
proof -
  have e: "event_ok b d" and w: "wake_ok b" for d using inv by (simp_all add: calls_inv_def)
  have s: "call_step d b = None" for d using rest own_step.intros by (metis option.exhaust)
  have quiet: "caller b d = CNew \<or> caller b d = CReturned \<or> caller b d = CBlocked" for d
  proof (cases "caller b d")
    case (CRefused p)
    with rest_unset(1) [OF rest inv, of d p] show ?thesis by (simp add: setting_def)
  next
    case CWait
    with rest_unset(2) [OF rest inv, of d] s [of d] show ?thesis by (auto simp: call_step_def Let_def split: if_splits)
  qed (use s [of d] in \<open>simp_all add: call_step_def Let_def\<close>)
  show ?thesis
  proof (cases "caller b c = CBlocked")
    case True
    then have "in_flight b c"
      using e [of c] rest_unset(1) [OF rest inv, of c] event_ok_waiting [of b c] by auto
    moreover have "server_all (server b) = []" using rest_idle(1) [OF rest inv] by auto
    ultimately have q: "c \<in> set (call_queue b)" using rest_idle(2) [OF rest inv] by (simp add: in_flight_def)
    then have "call_queue b \<noteq> []" by auto
    then have "loop_woken b \<or> server b = VReset \<or> server b = VTake"
      using w quiet unfolding wake_ok_def by (metis call_pc.distinct)
    with rest_idle(1) [OF rest inv] q True show ?thesis by auto
  qed (use quiet [of c] in blast)
qed

lemma own_step_keeps:
  assumes "own_step b b'"
  shows "server b' = VLeft \<longleftrightarrow> server b = VLeft" "caller b' c = CNew \<longleftrightarrow> caller b c = CNew"
proof -
  have "(server b' = VLeft \<longleftrightarrow> server b = VLeft) \<and> (caller b' c = CNew \<longleftrightarrow> caller b c = CNew)"
    using assms
  proof cases
    case (os_call d)
    show ?thesis
    proof (cases "caller b d")
      case (CRefused p)
      then obtain b1 q where b1: "set_step p d b = Some (b1, q)"
        "b' = b1\<lparr>caller := (caller b1)(d := case q of None \<Rightarrow> CWait | Some q \<Rightarrow> CRefused q)\<rparr>"
        by (rule call_refused_step [OF os_call])
      show ?thesis using set_step_frame [OF b1(1)] CRefused by (auto simp: b1(2) split: option.splits)
    qed (use os_call in \<open>auto simp: call_step_def Let_def split: if_splits\<close>)
  next
    case os_serve
    then show ?thesis
    proof (cases "server b")
      case (VNext cs)
      with os_serve show ?thesis by (cases cs) (auto simp: serve_step_def touch_def)
    qed (auto simp: serve_step_def set_step_frame split: if_splits option.splits)
  next
    case os_drop
    then show ?thesis
    proof (cases "dropper b")
      case (DNext cs)
      with os_drop show ?thesis by (cases cs) (auto simp: drop_step_def)
    qed (auto simp: drop_step_def set_step_frame)
  qed
  then show "server b' = VLeft \<longleftrightarrow> server b = VLeft" "caller b' c = CNew \<longleftrightarrow> caller b c = CNew" by blast+
qed

section \<open>Schedules\<close>

datatype calls_action = NewCall nat | CallerMoves nat | ServerMoves | DropperMoves | SpuriousWake nat | StartQuit | LeaveLoop

fun calls_act :: "calls_action \<Rightarrow> calls \<Rightarrow> calls option" where
  "calls_act (NewCall c) b = (if caller b c = CNew then Some (b\<lparr>caller := (caller b)(c := CCheck)\<rparr>) else None)"
| "calls_act (CallerMoves c) b = call_step c b"
| "calls_act ServerMoves b = serve_step b"
| "calls_act DropperMoves b = drop_step b"
| "calls_act (SpuriousWake c) b = (if caller b c = CBlocked then Some (b\<lparr>caller := (caller b)(c := CWait)\<rparr>) else None)"
| "calls_act StartQuit b = (if dropper b = DIdle \<or> dropper b = DDone then Some (b\<lparr>dropper := DSwap\<rparr>) else None)"
| "calls_act LeaveLoop b = (if server b = VIdle \<and> \<not> loop_running b then Some (b\<lparr>server := VLeft\<rparr>) else None)"

lemma calls_act_step: "calls_act a b = Some b' \<Longrightarrow> calls_step b b'"
  by (cases a) (auto intro: calls_step.intros own_step.intros split: if_splits)

interpretation call_schedule: schedule calls_step calls_act
  by unfold_locales (rule calls_act_step)

text \<open>A call that is blocked before the loop serves it.\<close>

definition one_call :: "calls_action list" where
  "one_call = NewCall 0 # replicate 5 (CallerMoves 0) @ replicate 9 ServerMoves @ [CallerMoves 0]"

section \<open>Properties\<close>

text \<open>C5. A blocking call touches no dead frame: in every interleaving of callers, the loop's thread, spurious wake-ups and \<^verbatim>\<open>Quit\<close>, the
  loop's thread runs the functor, and whoever sets the \<^verbatim>\<open>done\<close> event accesses it, only while the caller's frame is
  alive; no functor runs twice, and before the first \<^verbatim>\<open>Quit\<close> every call that returned has been served.\<close>

theorem blocking_calls_safe:
  assumes "calls_step\<^sup>*\<^sup>* calls_new b"
  shows "\<not> touched_dead b \<and> distinct (served b) \<and> (dropper b = DIdle \<longrightarrow> (\<forall>c. caller b c = CReturned \<longrightarrow> c \<in> set (served b)))"
proof -
  have inv: "calls_inv b" by (rule blocking.reachable [OF assms])
  then have cl: "closures_ok b" by (simp add: calls_inv_def)
  have "c \<in> set (served b)" if "dropper b = DIdle" "caller b c = CReturned" for c
  proof -
    have "\<not> in_flight b c" using cl that(2) by (fastforce simp: closures_ok_def)
    with that inv show ?thesis using server_rest_all [of c "server b"] by (auto simp: calls_inv_def unquit_ok_def in_flight_def)
  qed
  with inv show ?thesis by (auto simp: calls_inv_def closures_ok_def)
qed

theorem blocking_calls_safe_witness:
  "\<exists>b. run_acts calls_act one_call calls_new = Some b \<and> caller b 0 = CReturned \<and> served b = [0] \<and> \<not> touched_dead b"
proof -
  have r: "case run_acts calls_act one_call calls_new of None \<Rightarrow> False
    | Some b \<Rightarrow> caller b 0 = CReturned \<and> served b = [0]" by code_simp
  then obtain b where b: "run_acts calls_act one_call calls_new = Some b" by (auto split: option.splits)
  with r blocking_calls_safe [OF call_schedule.run_reachable [OF b]] show ?thesis by simp
qed

text \<open>C4. Every blocking call returns: from any reachable state the program can take no more own steps than \<open>work\<close>
  counts, whatever the scheduling, and when it can take none, every call made by then has returned, unless the loop's
  thread had stopped serving and the call is stuck in its queue.\<close>

theorem blocking_calls_return:
  assumes "calls_step\<^sup>*\<^sup>* calls_new b"
  shows "((own_step ^^ n) b b' \<longrightarrow> n \<le> work b) \<and>
    (own_step\<^sup>*\<^sup>* b b' \<and> (\<nexists>b''. own_step b' b'') \<and> caller b c \<noteq> CNew \<longrightarrow>
      caller b' c = CReturned \<or> caller b' c = CBlocked \<and> server b = VLeft \<and> c \<in> set (call_queue b'))"
proof -
  have inv: "calls_inv b" by (rule blocking.reachable [OF assms])
  have "calls_inv b' \<and> (server b' = VLeft \<longleftrightarrow> server b = VLeft) \<and> (caller b' c = CNew \<longleftrightarrow> caller b c = CNew)"
    if "own_step\<^sup>*\<^sup>* b b'"
    using that inv by induction (auto simp: own_step_keeps intro: own_step_inv)
  with working.steps_bounded [OF _ inv, of n b'] rest_calls [of b' c] show ?thesis by auto
qed

theorem blocking_calls_return_witness:
  "\<exists>b b'. run_acts calls_act [NewCall 0] calls_new = Some b \<and> own_step\<^sup>*\<^sup>* b b' \<and> caller b' 0 = CReturned"
proof -
  let ?b = "calls_new\<lparr>caller := (caller calls_new)(0 := CCheck)\<rparr>"
  have r: "run_acts calls_act [NewCall 0] calls_new = Some ?b" by (simp add: calls_new_def)
  note reach = call_schedule.run_reachable [OF r]
  obtain b' where "own_step\<^sup>*\<^sup>* ?b b'" "\<nexists>b''. own_step b' b''"
    using working.comes_to_rest [OF blocking.reachable [OF reach]] by blast
  with blocking_calls_return [OF reach, of 0 b' 0] r show ?thesis by (auto simp: calls_new_def)
qed

text \<open>The exception happens: a caller that saw the loop running appends after \<^verbatim>\<open>Quit\<close> emptied the queue, the loop's thread
  leaves, and the caller is blocked for ever.\<close>

lemma quit_strands_caller:
  "\<exists>b. calls_step\<^sup>*\<^sup>* calls_new b \<and> caller b 0 = CBlocked \<and> \<not> loop_running b \<and> dropper b = DDone \<and> (\<nexists>b'. own_step b b')"
proof -
  let ?as = "[NewCall 0, CallerMoves 0, CallerMoves 0, StartQuit, DropperMoves, CallerMoves 0, CallerMoves 0, CallerMoves 0,
    DropperMoves, DropperMoves, LeaveLoop]"
  let ?b = "calls_new\<lparr>call_queue := [0], loop_running := False, loop_woken := True, caller := (caller calls_new)(0 := CBlocked),
    server := VLeft, dropper := DDone\<rparr>"
  have "run_acts calls_act ?as calls_new = Some ?b"
    by (simp add: call_step_def drop_step_def calls_new_def fun_upd_idem Let_def)
  moreover have "\<nexists>b'. own_step ?b b'"
    by (auto simp: calls_new_def call_step_def serve_step_def drop_step_def Let_def elim!: own_step.cases split: if_splits)
  ultimately show ?thesis using call_schedule.run_reachable [of ?as calls_new ?b] by (intro exI [of _ ?b]) simp
qed

end
