(* ===== verification/BuildConfig.thy ===== *)
theory BuildConfig
  imports IO_Prelude
begin

text \<open>
  \<^verbatim>\<open>src/build_macros.h\<close> and the variants that the other files select with it.

  A preprocessing state is the map of the macros defined so far; \<^verbatim>\<open>#define\<close> updates it, \<^verbatim>\<open>#error\<close> ends it.  The headers of
  the system that are included on the way (\<^verbatim>\<open>TargetConditionals.h\<close>, \<^verbatim>\<open>assert.h\<close>) are arguments.  Each file that chooses among
  variants of the code is a function from the macros it sees to the name of the variant; the other theories model the variants
  themselves.
\<close>

section \<open>Macros\<close>

datatype macro =
  native_client | ANDROID | APPLE | TARGET_OS_IPHONE | TARGET_OS_MACCATALYST | linux | M_OS_CHROMEOS
| GLIBC | UCLIBC | WIN32 | Fuchsia | FreeBSD | NetBSD | OpenBSD | sun | QNXNTO | AIX | asmjs | wasm | MVS
| ANDROID_compiler | ANDROID_API | EMSCRIPTEN | ABSL_HAVE_THREAD_LOCAL | BASE_DCHECK_IS_ON
| OS_NACL | OS_ANDROID | OS_IOS | OS_IOS_MACCATALYST | OS_MAC | OS_LINUX | OS_CHROMEOS | OS_WIN | OS_FUCHSIA
| OS_FREEBSD | OS_NETBSD | OS_OPENBSD | OS_SOLARIS | OS_QNX | OS_AIX | OS_ASMJS | OS_ZOS
| OS_APPLE | OS_BSD | OS_POSIX | LIBC_GLIBC
| USE_EPOLL | USE_POLL | USE_NATIVE_MUTEX_ON_MAC | USE_CLOCK_GETTIME | USE_PTHREAD_COND_TIMEDWAIT_MONOTONIC_NP

text \<open>The body of a macro is empty or a number; an undefined macro counts as 0 in a condition.\<close>

datatype body = Empty | Num int

type_synonym macros = "macro \<rightharpoonup> body"

definition defd :: "macros \<Rightarrow> macro \<Rightarrow> bool" where
  "defd m x \<longleftrightarrow> m x \<noteq> None"

definition val :: "macros \<Rightarrow> macro \<Rightarrow> int" where
  "val m x = (case m x of Some (Num n) \<Rightarrow> n | _ \<Rightarrow> 0)"

section \<open>The header\<close>

datatype preprocessing_error = Add_support_for_your_platform | Must_define_WIN_or_POSIX | Unsupported_platform

text \<open>The chain that names the operating system.\<close>

definition os_chain :: "(macros \<Rightarrow> macros) \<Rightarrow> (macros \<Rightarrow> macros) \<Rightarrow> macros \<Rightarrow> preprocessing_error + macros" where
  "os_chain target_conditionals assert_h m =
     (if defd m native_client then Inr (m(OS_NACL \<mapsto> Num 1))
      else if defd m ANDROID then Inr (m(OS_ANDROID \<mapsto> Num 1))
      else if defd m APPLE then
        (let m = target_conditionals m in
         if defd m TARGET_OS_IPHONE \<and> val m TARGET_OS_IPHONE \<noteq> 0 then
           (let m = m(OS_IOS \<mapsto> Num 1) in
            Inr (if defd m TARGET_OS_MACCATALYST \<and> val m TARGET_OS_MACCATALYST \<noteq> 0
                 then m(OS_IOS_MACCATALYST \<mapsto> Empty) else m))
         else Inr (m(OS_MAC \<mapsto> Num 1)))
      else if defd m linux then
        (let m = (if \<not> defd m M_OS_CHROMEOS then m(OS_LINUX \<mapsto> Num 1) else m);
             m = assert_h m in
         Inr (if defd m GLIBC \<and> \<not> defd m UCLIBC then m(LIBC_GLIBC \<mapsto> Num 1) else m))
      else if defd m WIN32 then Inr (m(OS_WIN \<mapsto> Num 1))
      else if defd m Fuchsia then Inr (m(OS_FUCHSIA \<mapsto> Num 1))
      else if defd m FreeBSD then Inr (m(OS_FREEBSD \<mapsto> Num 1))
      else if defd m NetBSD then Inr (m(OS_NETBSD \<mapsto> Num 1))
      else if defd m OpenBSD then Inr (m(OS_OPENBSD \<mapsto> Num 1))
      else if defd m sun then Inr (m(OS_SOLARIS \<mapsto> Num 1))
      else if defd m QNXNTO then Inr (m(OS_QNX \<mapsto> Num 1))
      else if defd m AIX then Inr (m(OS_AIX \<mapsto> Num 1))
      else if defd m asmjs \<or> defd m wasm then Inr (m(OS_ASMJS \<mapsto> Num 1))
      else if defd m MVS then Inr (m(OS_ZOS \<mapsto> Num 1))
      else Inl Add_support_for_your_platform)"

definition families :: "macros \<Rightarrow> macros" where
  "families m =
     (let m = (if defd m OS_MAC \<or> defd m OS_IOS then m(OS_APPLE \<mapsto> Num 1) else m);
          m = (if defd m OS_FREEBSD \<or> defd m OS_NETBSD \<or> defd m OS_OPENBSD then m(OS_BSD \<mapsto> Num 1) else m)
      in if defd m OS_AIX \<or> defd m OS_ANDROID \<or> defd m OS_ASMJS \<or> defd m OS_FREEBSD \<or> defd m OS_IOS \<or> defd m OS_LINUX \<or>
            defd m OS_CHROMEOS \<or> defd m OS_MAC \<or> defd m OS_NACL \<or> defd m OS_NETBSD \<or> defd m OS_OPENBSD \<or>
            defd m OS_QNX \<or> defd m OS_SOLARIS \<or> defd m OS_ZOS
         then m(OS_POSIX \<mapsto> Num 1) else m)"

definition build_macros :: "(macros \<Rightarrow> macros) \<Rightarrow> (macros \<Rightarrow> macros) \<Rightarrow> macros \<Rightarrow> preprocessing_error + macros" where
  "build_macros target_conditionals assert_h m = map_sum id families (os_chain target_conditionals assert_h m)"

section \<open>Variants\<close>

datatype family = Windows | Posix

text \<open>\<^verbatim>\<open>event.h\<close> and \<^verbatim>\<open>event.cc\<close> include the system's headers, and refuse to compile elsewhere.\<close>

definition event_family :: "macros \<Rightarrow> preprocessing_error + family" where
  "event_family m =
     (if defd m OS_WIN then Inr Windows else if defd m OS_POSIX then Inr Posix else Inl Must_define_WIN_or_POSIX)"

text \<open>The clock of the POSIX event: the macros, then what they select.\<close>

datatype clock = Realtime | Monotonic

definition event_clock_macros :: "macros \<Rightarrow> macros" where
  "event_clock_macros m =
     (if defd m APPLE
      then m(USE_CLOCK_GETTIME \<mapsto> Num 0, USE_PTHREAD_COND_TIMEDWAIT_MONOTONIC_NP \<mapsto> Num 0)
      else if defd m ANDROID_compiler \<and> val m ANDROID_API < 21
      then m(USE_CLOCK_GETTIME \<mapsto> Num 1, USE_PTHREAD_COND_TIMEDWAIT_MONOTONIC_NP \<mapsto> Num 1)
      else m(USE_CLOCK_GETTIME \<mapsto> Num 1, USE_PTHREAD_COND_TIMEDWAIT_MONOTONIC_NP \<mapsto> Num 0))"

text \<open>The clock a condition variable measures with: the default of POSIX is the real-time clock, the
  constructor may set another in the attribute.\<close>

definition cond_clock :: "macros \<Rightarrow> clock" where
  "cond_clock m =
     (if val m USE_CLOCK_GETTIME \<noteq> 0 \<and> \<not> val m USE_PTHREAD_COND_TIMEDWAIT_MONOTONIC_NP \<noteq> 0 then Monotonic else Realtime)"

definition deadline_clock :: "macros \<Rightarrow> clock" where
  "deadline_clock m = (if val m USE_CLOCK_GETTIME \<noteq> 0 then Monotonic else Realtime)"

definition timed_wait_clock :: "macros \<Rightarrow> clock" where
  "timed_wait_clock m = (if val m USE_PTHREAD_COND_TIMEDWAIT_MONOTONIC_NP \<noteq> 0 then Monotonic else cond_clock m)"

text \<open>\<^verbatim>\<open>recursive_critical_section.h\<close> and its source file.\<close>

datatype lock_kind = CriticalSection | SpinLock | RecursiveMutex

definition lock_macros :: "macros \<Rightarrow> macros" where
  "lock_macros m = m(USE_NATIVE_MUTEX_ON_MAC \<mapsto> Num 1)"

definition lock_variant :: "macros \<Rightarrow> preprocessing_error + lock_kind" where
  "lock_variant m =
     (if defd m OS_WIN then Inr CriticalSection
      else if defd m OS_POSIX then
        (if defd m OS_MAC \<and> \<not> val m USE_NATIVE_MUTEX_ON_MAC \<noteq> 0 then Inr SpinLock else Inr RecursiveMutex)
      else Inl Unsupported_platform)"

text \<open>\<^verbatim>\<open>event_loop_temp.h\<close>, and the function that \<^verbatim>\<open>Wait\<close> calls for a wait with I/O.\<close>

datatype backend = Epoll | Poll | Select | Events

definition loop_macros :: "macros \<Rightarrow> macros" where
  "loop_macros m =
     (if defd m OS_POSIX
      then (if defd m OS_LINUX then m(USE_EPOLL \<mapsto> Num 1)
            else if defd m OS_FUCHSIA \<or> defd m OS_MAC then m(USE_POLL \<mapsto> Num 1) else m)
      else m)"

definition loop_backend :: "macros \<Rightarrow> backend option" where
  "loop_backend m =
     (if defd m OS_POSIX
      then Some (if defd m USE_POLL then Poll else if defd m USE_EPOLL then Epoll else Select)
      else if defd m OS_WIN then Some Events else None)"

definition poll_error_events :: "macros \<Rightarrow> 'e \<Rightarrow> 'e \<Rightarrow> 'e \<Rightarrow> 'e list" where
  "poll_error_events m POLLRDHUP POLLERR POLLHUP =
     (if defd m OS_LINUX \<or> defd m OS_FUCHSIA then [POLLRDHUP, POLLERR, POLLHUP] else [POLLERR, POLLHUP])"

datatype error_source = GetLastError | Zero | Errno

definition last_system_error :: "macros \<Rightarrow> error_source option" where
  "last_system_error m =
     (if defd m OS_WIN then Some GetLastError
      else if defd m native_client \<and> val m native_client \<noteq> 0 then Some Zero
      else if defd m OS_POSIX then Some Errno else None)"

text \<open>\<^verbatim>\<open>platform_thread_types.h\<close> declares the types by \<^verbatim>\<open>_WIN32\<close>, its source file chooses the functions by \<^verbatim>\<open>__OS_WIN__\<close>.
  A function without a return statement is \<open>None\<close>.\<close>

datatype thread_api = ApiWin32 | ApiZircon | ApiPthread

definition thread_types :: "macros \<Rightarrow> thread_api option" where
  "thread_types m =
     (if defd m WIN32 then Some ApiWin32 else if defd m Fuchsia then Some ApiZircon
      else if defd m OS_POSIX then Some ApiPthread else None)"

definition thread_ref_api :: "macros \<Rightarrow> thread_api option" where
  "thread_ref_api m =
     (if defd m OS_WIN then Some ApiWin32 else if defd m Fuchsia then Some ApiZircon
      else if defd m OS_POSIX then Some ApiPthread else None)"

definition thread_equal_api :: "macros \<Rightarrow> thread_api option" where
  "thread_equal_api m =
     (if defd m OS_WIN \<or> defd m Fuchsia then Some (if defd m OS_WIN then ApiWin32 else ApiZircon)
      else if defd m OS_POSIX then Some ApiPthread else None)"

datatype thread_id_call = GetCurrentThreadId | pthread_mach_thread_np | gettid | zx_thread_self | syscall_gettid
| static_cast_pthread_self | reinterpret_cast_pthread_self

definition thread_id_variant :: "macros \<Rightarrow> thread_id_call option" where
  "thread_id_variant m =
     (if defd m OS_WIN then Some GetCurrentThreadId
      else if defd m OS_POSIX then
        Some (if defd m OS_MAC \<or> defd m OS_IOS then pthread_mach_thread_np
              else if defd m OS_ANDROID then gettid
              else if defd m Fuchsia then zx_thread_self
              else if defd m OS_LINUX then syscall_gettid
              else if defd m EMSCRIPTEN then static_cast_pthread_self
              else reinterpret_cast_pthread_self)
      else None)"

text \<open>\<^verbatim>\<open>time_utils.cc\<close> and \<^verbatim>\<open>yield_policy.cc\<close>.\<close>

definition time_family :: "macros \<Rightarrow> family" where
  "time_family m = (if defd m WIN32 then Windows else Posix)"

datatype policy_storage = ThreadLocal | PthreadKey

definition yield_policy_storage :: "macros \<Rightarrow> preprocessing_error + policy_storage" where
  "yield_policy_storage m =
     (if defd m ABSL_HAVE_THREAD_LOCAL then Inr ThreadLocal
      else if defd m OS_POSIX then Inr PthreadKey else Inl Unsupported_platform)"

text \<open>\<^verbatim>\<open>yield.cc\<close>: the system calls are an argument.\<close>

record 's yield_api =
  Sleep :: "nat \<Rightarrow> 's \<Rightarrow> 's"
  sched_yield :: "'s \<Rightarrow> 's"
  nanosleep :: "nat \<Rightarrow> 's \<Rightarrow> 's"

definition YieldCurrentThread :: "'s yield_api \<Rightarrow> macros \<Rightarrow> 's \<Rightarrow> 's" where
  "YieldCurrentThread Y m =
     (if defd m OS_WIN then Sleep Y 0
      else if defd m OS_MAC \<and> defd m USE_NATIVE_MUTEX_ON_MAC \<and> \<not> val m USE_NATIVE_MUTEX_ON_MAC \<noteq> 0 then sched_yield Y
      else nanosleep Y 0)"


section \<open>Lemmas\<close>

text \<open>The macros that the header introduces, and those of them that a state defines.  A compiler defines none of them, and the
  system's headers leave them alone.\<close>

definition introduced :: "macro set" where
  "introduced = {OS_NACL, OS_ANDROID, OS_IOS, OS_IOS_MACCATALYST, OS_MAC, OS_LINUX, OS_CHROMEOS, OS_WIN, OS_FUCHSIA, OS_FREEBSD,
     OS_NETBSD, OS_OPENBSD, OS_SOLARIS, OS_QNX, OS_AIX, OS_ASMJS, OS_ZOS, OS_APPLE, OS_BSD, OS_POSIX, USE_EPOLL, USE_POLL}"

definition defined_names :: "macros \<Rightarrow> macro set" where
  "defined_names m = {x \<in> introduced. defd m x}"

definition system_header :: "(macros \<Rightarrow> macros) \<Rightarrow> bool" where
  "system_header h \<longleftrightarrow> (\<forall>m x. x \<in> introduced \<union> {native_client, WIN32, Fuchsia} \<longrightarrow> h m x = m x)"

lemma introduced_simps [simp]:
  "OS_NACL \<in> introduced" "OS_ANDROID \<in> introduced" "OS_IOS \<in> introduced"
    "OS_IOS_MACCATALYST \<in> introduced" "OS_MAC \<in> introduced" "OS_LINUX \<in> introduced"
    "OS_CHROMEOS \<in> introduced" "OS_WIN \<in> introduced" "OS_FUCHSIA \<in> introduced"
    "OS_FREEBSD \<in> introduced" "OS_NETBSD \<in> introduced" "OS_OPENBSD \<in> introduced"
    "OS_SOLARIS \<in> introduced" "OS_QNX \<in> introduced" "OS_AIX \<in> introduced" "OS_ASMJS \<in> introduced"
    "OS_ZOS \<in> introduced" "OS_APPLE \<in> introduced" "OS_BSD \<in> introduced" "OS_POSIX \<in> introduced"
    "LIBC_GLIBC \<notin> introduced" "USE_EPOLL \<in> introduced" "USE_POLL \<in> introduced" "USE_NATIVE_MUTEX_ON_MAC \<notin> introduced"
  by (simp_all add: introduced_def)

lemma defd_upd [simp]: "defd (m(x \<mapsto> b)) y \<longleftrightarrow> x = y \<or> defd m y"
  by (simp add: defd_def)

lemma val_upd [simp]: "val (m(x \<mapsto> Num n)) y = (if x = y then n else val m y)"
  by (simp add: val_def)

lemma defined_names_upd [simp]:
  "defined_names (m(x \<mapsto> b)) = (if x \<in> introduced then insert x (defined_names m) else defined_names m)"
  by (auto simp: defined_names_def)

lemma header_defd [simp]:
  "system_header h \<Longrightarrow> x \<in> introduced \<union> {native_client, WIN32, Fuchsia} \<Longrightarrow> defd (h m) x = defd m x"
  unfolding system_header_def defd_def by metis

lemma header_names [simp]: "system_header h \<Longrightarrow> defined_names (h m) = defined_names m"
  unfolding defined_names_def by (rule Collect_cong) auto

lemma defd_introduced: "x \<in> introduced \<Longrightarrow> defd m x \<longleftrightarrow> x \<in> defined_names m"
  by (simp add: defined_names_def)

text \<open>The possible outcomes of the chain; the empty one is a build for Chrome OS.\<close>

definition outcomes :: "macro set set" where
  "outcomes = {{OS_NACL}, {OS_ANDROID}, {OS_IOS}, {OS_IOS, OS_IOS_MACCATALYST}, {OS_MAC}, {OS_LINUX}, {}, {OS_WIN}, {OS_FUCHSIA},
     {OS_FREEBSD}, {OS_NETBSD}, {OS_OPENBSD}, {OS_SOLARIS}, {OS_QNX}, {OS_AIX}, {OS_ASMJS}, {OS_ZOS}}"

lemma outcomes_intros [simp]:
  "{OS_NACL} \<in> outcomes" "{OS_ANDROID} \<in> outcomes" "{OS_IOS} \<in> outcomes"
    "{OS_IOS, OS_IOS_MACCATALYST} \<in> outcomes" "{OS_IOS_MACCATALYST, OS_IOS} \<in> outcomes"
    "{OS_MAC} \<in> outcomes" "{OS_LINUX} \<in> outcomes" "{} \<in> outcomes" "{OS_WIN} \<in> outcomes"
    "{OS_FUCHSIA} \<in> outcomes" "{OS_FREEBSD} \<in> outcomes" "{OS_NETBSD} \<in> outcomes"
    "{OS_OPENBSD} \<in> outcomes" "{OS_SOLARIS} \<in> outcomes" "{OS_QNX} \<in> outcomes" "{OS_AIX} \<in> outcomes"
    "{OS_ASMJS} \<in> outcomes" "{OS_ZOS} \<in> outcomes"
  by (simp_all add: outcomes_def insert_commute)

lemma os_chain_outcome:
  assumes "defined_names m = {}" "system_header tc" "system_header ah" "os_chain tc ah m = Inr m'"
  shows "defined_names m' \<in> outcomes"
  using assms unfolding os_chain_def Let_def
  by (simp split: if_split_asm; use assms in auto)

lemma os_chain_keeps:
  assumes "system_header tc" "system_header ah" "os_chain tc ah m = Inr m'"
  shows "defd m' WIN32 = defd m WIN32" "defd m' Fuchsia = defd m Fuchsia" "defd m' native_client = defd m native_client"
  using assms unfolding os_chain_def Let_def by (auto split: if_splits)

lemma os_chain_win:
  assumes "defined_names m = {}" "system_header tc" "system_header ah" "os_chain tc ah m = Inr m'"
  shows "defd m' OS_WIN \<longleftrightarrow> defd m WIN32 \<and> \<not> defd m native_client \<and> \<not> defd m ANDROID \<and> \<not> defd m APPLE \<and> \<not> defd m linux"
    and "defd m' OS_FUCHSIA \<longleftrightarrow> defd m Fuchsia \<and> \<not> defd m native_client \<and> \<not> defd m ANDROID \<and> \<not> defd m APPLE \<and> \<not> defd m linux \<and>
      \<not> defd m WIN32"
    and "defined_names m' = {} \<Longrightarrow> defd m linux \<and> defd m M_OS_CHROMEOS"
proof -
  have n: "\<not> defd m OS_WIN" "\<not> defd m OS_FUCHSIA" using assms(1) by (simp_all add: defd_introduced)
  with assms show "defd m' OS_WIN \<longleftrightarrow> defd m WIN32 \<and> \<not> defd m native_client \<and> \<not> defd m ANDROID \<and> \<not> defd m APPLE \<and> \<not> defd m linux"
    unfolding os_chain_def Let_def by (auto split: if_splits)
  from assms n show "defd m' OS_FUCHSIA \<longleftrightarrow> defd m Fuchsia \<and> \<not> defd m native_client \<and> \<not> defd m ANDROID \<and> \<not> defd m APPLE \<and> \<not> defd m linux \<and>
      \<not> defd m WIN32"
    unfolding os_chain_def Let_def by (auto split: if_splits)
  assume "defined_names m' = {}"
  with assms show "defd m linux \<and> defd m M_OS_CHROMEOS"
    unfolding os_chain_def Let_def by (auto split: if_splits)
qed

definition with_families :: "macro set \<Rightarrow> macro set" where
  "with_families s = s \<union> (if OS_MAC \<in> s \<or> OS_IOS \<in> s then {OS_APPLE} else {}) \<union>
     (if OS_FREEBSD \<in> s \<or> OS_NETBSD \<in> s \<or> OS_OPENBSD \<in> s then {OS_BSD} else {}) \<union>
     (if s = {} \<or> s = {OS_WIN} \<or> s = {OS_FUCHSIA} then {} else {OS_POSIX})"

lemma defined_names_families:
  "defined_names m \<in> outcomes \<Longrightarrow> defined_names (families m) = with_families (defined_names m)"
  unfolding outcomes_def
  by (elim insertE emptyE) (simp_all add: families_def with_families_def Let_def defd_introduced doubleton_eq_iff insert_commute)

lemma families_other [simp]: "x \<notin> introduced \<Longrightarrow> defd (families m) x = defd m x"
  unfolding families_def Let_def by auto

text \<open>The header's result, as one of a few sets of names.\<close>

lemma build_macros_names:
  assumes "defined_names m = {}" "system_header tc" "system_header ah" "build_macros tc ah m = Inr m'"
  obtains s where "s \<in> outcomes" "defined_names m' = with_families s" "defd m' WIN32 = defd m WIN32"
    "defd m' Fuchsia = defd m Fuchsia" "defd m' native_client = defd m native_client"
    "OS_WIN \<in> s \<longleftrightarrow> defd m WIN32 \<and> \<not> defd m native_client \<and> \<not> defd m ANDROID \<and> \<not> defd m APPLE \<and> \<not> defd m linux"
    "OS_FUCHSIA \<in> s \<longleftrightarrow> defd m Fuchsia \<and> \<not> defd m native_client \<and> \<not> defd m ANDROID \<and> \<not> defd m APPLE \<and> \<not> defd m linux \<and>
      \<not> defd m WIN32"
    "s = {} \<Longrightarrow> defd m linux \<and> defd m M_OS_CHROMEOS"
proof -
  obtain m1 where m1: "os_chain tc ah m = Inr m1" "m' = families m1"
    using assms(4) by (cases "os_chain tc ah m") (auto simp: build_macros_def)
  have "WIN32 \<notin> introduced" "Fuchsia \<notin> introduced" "native_client \<notin> introduced" by (simp_all add: introduced_def)
  with that [OF os_chain_outcome [OF assms(1-3) m1(1)]] os_chain_keeps [OF assms(2,3) m1(1)] os_chain_win [OF assms(1-3) m1(1)]
  show ?thesis by (simp add: m1(2) defined_names_families [OF os_chain_outcome [OF assms(1-3) m1(1)]] defd_introduced)
qed

section \<open>Properties\<close>



text \<open>The clock that fixes the deadline of a wait is the clock by which the condition variable measures it, on every platform.\<close>

lemma event_clocks_agree:
  "deadline_clock (event_clock_macros m) = timed_wait_clock (event_clock_macros m)"
  by (simp add: event_clock_macros_def deadline_clock_def timed_wait_clock_def cond_clock_def)

text \<open>Fuchsia is named by the header and belongs to neither family, although other files have code for it.\<close>

lemma fuchsia_refused:
  assumes "build_macros id id [Fuchsia \<mapsto> Num 1] = Inr m"
  shows "defd m OS_FUCHSIA \<and> event_family m = Inl Must_define_WIN_or_POSIX \<and> loop_backend (loop_macros m) = None \<and>
    thread_id_variant m = None \<and> thread_ref_api m = Some ApiZircon"
  using assms
  by (auto simp: build_macros_def os_chain_def families_def event_family_def loop_backend_def loop_macros_def
      thread_id_variant_def thread_ref_api_def defd_def)

text \<open>The flag that asks for the spinning lock is not visible to \<^verbatim>\<open>yield.cc\<close>, whose headers do not define it: whatever
  its value, that file yields by \<^verbatim>\<open>nanosleep\<close>.\<close>

lemma yield_ignores_flag:
  assumes "\<not> defd m USE_NATIVE_MUTEX_ON_MAC" "\<not> defd m OS_WIN"
  shows "YieldCurrentThread Y m = nanosleep Y 0"
  using assms by (simp add: YieldCurrentThread_def)

end
