(* ===== verification/LockVariants.thy ===== *)
theory LockVariants
  imports RecursiveLock
begin

text \<open>
  The variants of \<^verbatim>\<open>src/recursive_critical_section.cc\<close> besides the debug build on a pthread mutex and the spinning lock: the release build,
  and Windows, where the operations forward to a \<^verbatim>\<open>CRITICAL_SECTION\<close>.  The locale \<open>reentrant_lock\<close> is the contract of
  the class; a client sees the same answers from every variant that satisfies it.
\<close>

section \<open>The release build\<close>

text \<open>Without \<^verbatim>\<open>BASE_DCHECK_IS_ON\<close> only the mutex is left, and every thread passes for the owner.\<close>

definition CurrentThreadIsOwner_release :: "nat \<Rightarrow> mutex \<Rightarrow> bool" where
  "CurrentThreadIsOwner_release self mtx = True"

definition Enter_release :: "nat \<Rightarrow> mutex \<Rightarrow> mutex option" where
  "Enter_release self mtx = pthread_mutex_trylock self mtx"

definition TryEnter_release :: "nat \<Rightarrow> mutex \<Rightarrow> bool \<times> mutex" where
  "TryEnter_release self mtx =
     (case pthread_mutex_trylock self mtx of None \<Rightarrow> (False, mtx) | Some mtx' \<Rightarrow> (True, mtx'))"

definition Leave_release :: "nat \<Rightarrow> mutex \<Rightarrow> mutex" where
  "Leave_release self mtx = pthread_mutex_unlock self mtx"

text \<open>The destructor; destroying a locked mutex is undefined.\<close>

definition RecursiveCriticalSection_delete :: "RecursiveCriticalSection \<Rightarrow> fault + unit" where
  "RecursiveCriticalSection_delete cs = (if mutex_m cs \<noteq> None then Inl UB else Inr ())"

section \<open>Windows\<close>

text \<open>The system's critical sections, of type \<open>'c\<close>; a call of \<^verbatim>\<open>EnterCriticalSection\<close> that does not return is \<open>None\<close>.\<close>

record 'c critical_section_api =
  InitializeCriticalSection :: 'c
  DeleteCriticalSection :: "'c \<Rightarrow> 'c"
  EnterCriticalSection :: "nat \<Rightarrow> 'c \<Rightarrow> 'c option"
  TryEnterCriticalSection :: "nat \<Rightarrow> 'c \<Rightarrow> int \<times> 'c"
  LeaveCriticalSection :: "nat \<Rightarrow> 'c \<Rightarrow> 'c"
  OwningThread :: "'c \<Rightarrow> nat"

record 'c lock_win =
  crit_m :: 'c
  win_dcheck_failed :: bool

definition RecursiveCriticalSection_win_new :: "'c critical_section_api \<Rightarrow> 'c lock_win" where
  "RecursiveCriticalSection_win_new K = \<lparr>crit_m = InitializeCriticalSection K, win_dcheck_failed = False\<rparr>"

definition RecursiveCriticalSection_win_delete :: "'c critical_section_api \<Rightarrow> 'c lock_win \<Rightarrow> 'c lock_win" where
  "RecursiveCriticalSection_win_delete K l = l\<lparr>crit_m := DeleteCriticalSection K (crit_m l)\<rparr>"

definition CurrentThreadIsOwner_win :: "'c critical_section_api \<Rightarrow> nat \<Rightarrow> 'c lock_win \<Rightarrow> bool" where
  "CurrentThreadIsOwner_win K self l \<longleftrightarrow> OwningThread K (crit_m l) = self"

definition Enter_win :: "'c critical_section_api \<Rightarrow> nat \<Rightarrow> 'c lock_win \<Rightarrow> 'c lock_win option" where
  "Enter_win K self l = map_option (\<lambda>c. l\<lparr>crit_m := c\<rparr>) (EnterCriticalSection K self (crit_m l))"

definition TryEnter_win :: "'c critical_section_api \<Rightarrow> nat \<Rightarrow> 'c lock_win \<Rightarrow> bool \<times> 'c lock_win" where
  "TryEnter_win K self l =
     (let (r, c) = TryEnterCriticalSection K self (crit_m l) in (r \<noteq> 0, l\<lparr>crit_m := c\<rparr>))"

definition Leave_win :: "'c critical_section_api \<Rightarrow> nat \<Rightarrow> 'c lock_win \<Rightarrow> 'c lock_win" where
  "Leave_win K self l =
     (let l = (if CurrentThreadIsOwner_win K self l then l else l\<lparr>win_dcheck_failed := True\<rparr>)
      in l\<lparr>crit_m := LeaveCriticalSection K self (crit_m l)\<rparr>)"

section \<open>The contract\<close>

text \<open>Who holds a lock and how often; what a client does with it, and what it is told: whether it got in.\<close>

datatype lock_use = LEnter nat | LTryEnter nat | LLeave nat

fun lock_call ::
  "(nat \<Rightarrow> 'l \<Rightarrow> 'l option) \<Rightarrow> (nat \<Rightarrow> 'l \<Rightarrow> bool \<times> 'l) \<Rightarrow> (nat \<Rightarrow> 'l \<Rightarrow> 'l) \<Rightarrow> lock_use \<Rightarrow> 'l \<Rightarrow> bool \<times> 'l" where
  "lock_call enter try_enter leave (LEnter t) l = (case enter t l of None \<Rightarrow> (False, l) | Some l' \<Rightarrow> (True, l'))"
| "lock_call enter try_enter leave (LTryEnter t) l = try_enter t l"
| "lock_call enter try_enter leave (LLeave t) l = (True, leave t l)"

fun lock_calls ::
  "(nat \<Rightarrow> 'l \<Rightarrow> 'l option) \<Rightarrow> (nat \<Rightarrow> 'l \<Rightarrow> bool \<times> 'l) \<Rightarrow> (nat \<Rightarrow> 'l \<Rightarrow> 'l) \<Rightarrow> lock_use list \<Rightarrow> 'l \<Rightarrow> bool list \<times> 'l" where
  "lock_calls enter try_enter leave [] l = ([], l)"
| "lock_calls enter try_enter leave (c # cs) l =
     (let (b, l) = lock_call enter try_enter leave c l; (bs, l) = lock_calls enter try_enter leave cs l in (b # bs, l))"

text \<open>The abstract lock.  Only the holder may leave; \<open>legal\<close> histories respect that.\<close>

fun admit :: "nat \<Rightarrow> mutex \<Rightarrow> bool \<times> mutex" where
  "admit t None = (True, Some (t, 1))"
| "admit t (Some (u, n)) = (if u = t then (True, Some (t, Suc n)) else (False, Some (u, n)))"

fun release :: "mutex \<Rightarrow> mutex" where
  "release (Some (t, Suc (Suc n))) = Some (t, Suc n)"
| "release _ = None"

fun abstract_call :: "lock_use \<Rightarrow> mutex \<Rightarrow> bool \<times> mutex" where
  "abstract_call (LEnter t) h = admit t h"
| "abstract_call (LTryEnter t) h = admit t h"
| "abstract_call (LLeave t) h = (True, release h)"

fun abstract_calls :: "lock_use list \<Rightarrow> mutex \<Rightarrow> bool list" where
  "abstract_calls [] h = []"
| "abstract_calls (c # cs) h = fst (abstract_call c h) # abstract_calls cs (snd (abstract_call c h))"

definition abstract_holder :: "lock_use list \<Rightarrow> mutex \<Rightarrow> mutex" where
  "abstract_holder cs h = fold (\<lambda>c h. snd (abstract_call c h)) cs h"

fun legal :: "lock_use list \<Rightarrow> mutex \<Rightarrow> bool" where
  "legal [] h = True"
| "legal (LLeave t # cs) h = ((\<exists>n. h = Some (t, n)) \<and> legal cs (release h))"
| "legal (c # cs) h = (c \<noteq> LEnter 0 \<and> c \<noteq> LTryEnter 0 \<and> legal cs (snd (abstract_call c h)))"

locale reentrant_lock =
  fixes enter :: "nat \<Rightarrow> 'l \<Rightarrow> 'l option" and try_enter :: "nat \<Rightarrow> 'l \<Rightarrow> bool \<times> 'l" and leave :: "nat \<Rightarrow> 'l \<Rightarrow> 'l"
    and holder :: "'l \<Rightarrow> mutex" and ok :: "'l \<Rightarrow> bool"
  assumes enter: "ok l \<Longrightarrow> t \<noteq> 0 \<Longrightarrow>
      (case enter t l of None \<Rightarrow> \<not> fst (admit t (holder l)) | Some l' \<Rightarrow> ok l' \<and> admit t (holder l) = (True, holder l'))"
    and try_enter: "ok l \<Longrightarrow> t \<noteq> 0 \<Longrightarrow> try_enter t l = (case enter t l of None \<Rightarrow> (False, l) | Some l' \<Rightarrow> (True, l'))"
    and leave: "ok l \<Longrightarrow> holder l = Some (t, n) \<Longrightarrow> ok (leave t l) \<and> holder (leave t l) = release (holder l)"
begin

lemma refused: "\<not> fst (admit t h) \<Longrightarrow> admit t h = (False, h)"
  by (cases "(t, h)" rule: admit.cases) (auto split: if_splits)

lemma call_entering:
  assumes "ok l" "t \<noteq> 0"
  shows "fst (lock_call enter try_enter leave (LEnter t) l) = fst (admit t (holder l)) \<and>
    holder (snd (lock_call enter try_enter leave (LEnter t) l)) = snd (admit t (holder l)) \<and>
    ok (snd (lock_call enter try_enter leave (LEnter t) l)) \<and>
    lock_call enter try_enter leave (LTryEnter t) l = lock_call enter try_enter leave (LEnter t) l"
  using enter [OF assms] try_enter [OF assms] refused [of t "holder l"] assms by (auto split: option.splits)

lemma calls_abstract:
  assumes "ok l" "legal cs (holder l)"
  shows "fst (lock_calls enter try_enter leave cs l) = abstract_calls cs (holder l) \<and>
    ok (snd (lock_calls enter try_enter leave cs l)) \<and>
    holder (snd (lock_calls enter try_enter leave cs l)) = abstract_holder cs (holder l)"
  using assms
proof (induction cs arbitrary: l)
  case (Cons c cs)
  show ?case
  proof (cases c)
    case (LEnter t)
    with Cons.prems have "t \<noteq> 0" by auto
    with LEnter Cons.prems Cons.IH [of "snd (lock_call enter try_enter leave c l)"] call_entering [OF Cons.prems(1), of t]
    show ?thesis by (simp add: case_prod_beta abstract_holder_def)
  next
    case (LTryEnter t)
    with Cons.prems have "t \<noteq> 0" by auto
    with LTryEnter Cons.prems Cons.IH [of "snd (lock_call enter try_enter leave c l)"] call_entering [OF Cons.prems(1), of t]
    show ?thesis by (simp add: case_prod_beta abstract_holder_def)
  next
    case (LLeave t)
    with Cons.prems obtain n where "holder l = Some (t, n)" by auto
    with LLeave Cons.prems Cons.IH [of "leave t l"] leave [OF Cons.prems(1)] show ?thesis
      by (simp add: case_prod_beta abstract_holder_def)
  qed
qed (simp add: abstract_holder_def)

end

section \<open>The variants satisfy the contract\<close>

definition lock_held :: "mutex \<Rightarrow> bool" where
  "lock_held h \<longleftrightarrow> (case h of None \<Rightarrow> True | Some (t, n) \<Rightarrow> t \<noteq> 0 \<and> 0 < n)"

lemma release_eq: "release (Some (t, n)) = (if n \<le> 1 then None else Some (t, n - 1))"
  by (cases "Some (t, n)" rule: release.cases) auto

interpretation debug_lock: reentrant_lock Enter TryEnter Leave mutex_m cs_ok
proof
  fix cs t n assume ok: "cs_ok cs"
  show "TryEnter t cs = (case Enter t cs of None \<Rightarrow> (False, cs) | Some cs' \<Rightarrow> (True, cs'))"
    by (simp add: TryEnter_def Enter_def split: option.splits)
  assume "t \<noteq> 0"
  with ok show "case Enter t cs of None \<Rightarrow> \<not> fst (admit t (mutex_m cs))
      | Some cs' \<Rightarrow> cs_ok cs' \<and> admit t (mutex_m cs) = (True, mutex_m cs')"
    by (elim cs_ok_cases) (auto simp: Enter_def cs_defs cs_ok_def split: option.splits)
next
  fix cs t n assume ok: "cs_ok cs" and h: "mutex_m cs = Some (t, n)"
  have "mutex_m (Leave t cs) = release (mutex_m cs)"
    using ok h by (elim cs_ok_cases) (auto simp: Leave_def cs_defs release_eq)
  with Leave_ok [OF ok h] show "cs_ok (Leave t cs) \<and> mutex_m (Leave t cs) = release (mutex_m cs)" by blast
qed

interpretation release_lock: reentrant_lock Enter_release TryEnter_release Leave_release id lock_held
  by unfold_locales
    (auto simp: Enter_release_def TryEnter_release_def Leave_release_def pthread_mutex_trylock_def pthread_mutex_unlock_def
      lock_held_def release_eq split: option.splits)

text \<open>The documented behaviour of critical sections: owned by one thread, re-entered by it, and open to others when it has
  left as often as it entered; \<open>holder\<close> reads owner and count off one.\<close>

definition critical_section_ok :: "'c critical_section_api \<Rightarrow> ('c \<Rightarrow> mutex) \<Rightarrow> bool" where
  "critical_section_ok K holder \<longleftrightarrow>
     holder (InitializeCriticalSection K) = None \<and>
     (\<forall>c t. t \<noteq> 0 \<longrightarrow>
        map_option holder (EnterCriticalSection K t c) =
          (if fst (admit t (holder c)) then Some (snd (admit t (holder c))) else None) \<and>
        (case EnterCriticalSection K t c of
           None \<Rightarrow> TryEnterCriticalSection K t c = (0, c)
         | Some c' \<Rightarrow> fst (TryEnterCriticalSection K t c) \<noteq> 0 \<and> snd (TryEnterCriticalSection K t c) = c')) \<and>
     (\<forall>c t n. holder c = Some (t, n) \<longrightarrow> OwningThread K c = t \<and> holder (LeaveCriticalSection K t c) = release (holder c))"

lemma win_reentrant:
  assumes "critical_section_ok K holder"
  shows "reentrant_lock (Enter_win K) (TryEnter_win K) (Leave_win K) (\<lambda>l. holder (crit_m l)) (\<lambda>l. \<not> win_dcheck_failed l)"
proof
  fix l :: "'a lock_win" and t n
  assume ok: "\<not> win_dcheck_failed l"
  show "\<not> win_dcheck_failed (Leave_win K t l) \<and> holder (crit_m (Leave_win K t l)) = release (holder (crit_m l))"
    if "holder (crit_m l) = Some (t, n)"
    using that ok assms by (auto simp: critical_section_ok_def Leave_win_def CurrentThreadIsOwner_win_def)
  assume t: "t \<noteq> 0"
  then have e: "map_option holder (EnterCriticalSection K t (crit_m l)) =
      (if fst (admit t (holder (crit_m l))) then Some (snd (admit t (holder (crit_m l)))) else None)"
    and y: "case EnterCriticalSection K t (crit_m l) of
           None \<Rightarrow> TryEnterCriticalSection K t (crit_m l) = (0, crit_m l)
         | Some c' \<Rightarrow> fst (TryEnterCriticalSection K t (crit_m l)) \<noteq> 0 \<and> snd (TryEnterCriticalSection K t (crit_m l)) = c'"
    using assms by (simp_all add: critical_section_ok_def)
  from e ok show "case Enter_win K t l of None \<Rightarrow> \<not> fst (admit t (holder (crit_m l)))
      | Some l' \<Rightarrow> \<not> win_dcheck_failed l' \<and> admit t (holder (crit_m l)) = (True, holder (crit_m l'))"
    by (auto simp: Enter_win_def prod_eq_iff split: option.splits if_splits)
  from y show "TryEnter_win K t l = (case Enter_win K t l of None \<Rightarrow> (False, l) | Some l' \<Rightarrow> (True, l'))"
    by (auto simp: TryEnter_win_def Enter_win_def case_prod_beta split: option.splits)
qed

text \<open>A critical section as owner and count.\<close>

definition counted_sections :: "mutex critical_section_api" where
  "counted_sections = \<lparr>InitializeCriticalSection = None, DeleteCriticalSection = id,
     EnterCriticalSection = (\<lambda>t h. if fst (admit t h) then Some (snd (admit t h)) else None),
     TryEnterCriticalSection = (\<lambda>t h. if fst (admit t h) then (1, snd (admit t h)) else (0, h)),
     LeaveCriticalSection = (\<lambda>t. release), OwningThread = (\<lambda>h. case h of None \<Rightarrow> 0 | Some (t, n) \<Rightarrow> t)\<rparr>"

lemma counted_sections_ok: "critical_section_ok counted_sections id"
  by (simp add: critical_section_ok_def counted_sections_def)

interpretation win_lock: reentrant_lock "Enter_win counted_sections" "TryEnter_win counted_sections" "Leave_win counted_sections" crit_m
    "\<lambda>l. \<not> win_dcheck_failed l"
  using win_reentrant [OF counted_sections_ok] by simp

section \<open>Properties\<close>

text \<open>C26. All variants of the lock are the same lock: any history of entering, trying and leaving by any threads, in which only the
  holder leaves, gets the same answers from the debug build, the release build and Windows, namely those of a lock that is
  a holder and a count; no debug check fails, and the lock may be destroyed exactly when everyone has left.\<close>

theorem lock_variants_agree:
  assumes "critical_section_ok K holder" and "legal cs None"
  shows "(let (bs, l) = lock_calls Enter TryEnter Leave cs RecursiveCriticalSection_new
     in bs = abstract_calls cs None \<and> \<not> cs_dcheck_failed l \<and>
        (RecursiveCriticalSection_delete l = Inr () \<longleftrightarrow> abstract_holder cs None = None)) \<and>
   fst (lock_calls Enter_release TryEnter_release Leave_release cs None) = abstract_calls cs None \<and>
   (let (bs, l) = lock_calls (Enter_win K) (TryEnter_win K) (Leave_win K) cs (RecursiveCriticalSection_win_new K)
     in bs = abstract_calls cs None \<and> \<not> win_dcheck_failed l)"
proof -
  note w = reentrant_lock.calls_abstract [OF win_reentrant [OF assms(1)], of "RecursiveCriticalSection_win_new K" cs]
  have d: "RecursiveCriticalSection_delete l = Inr () \<longleftrightarrow> mutex_m l = None" for l
    by (cases "mutex_m l") (simp_all add: RecursiveCriticalSection_delete_def)
  have c: "cs_ok l \<Longrightarrow> \<not> cs_dcheck_failed l" for l by (simp add: cs_ok_def)
  have new: "mutex_m RecursiveCriticalSection_new = None" by (simp add: RecursiveCriticalSection_new_def)
  have "holder (InitializeCriticalSection K) = None" using assms(1) by (simp add: critical_section_ok_def)
  then show ?thesis
    using debug_lock.calls_abstract [OF new_ok, of cs] release_lock.calls_abstract [of None cs] w assms(2)
    by (simp add: RecursiveCriticalSection_win_new_def lock_held_def case_prod_beta d c new)
qed

theorem lock_variants_agree_witness:
  "fst (lock_calls (Enter_win counted_sections) (TryEnter_win counted_sections) (Leave_win counted_sections)
     [LEnter 1, LTryEnter 2, LEnter 1, LLeave 1, LTryEnter 2, LLeave 1, LTryEnter 2] (RecursiveCriticalSection_win_new counted_sections)) =
   [True, False, True, True, False, True, True]"
  using lock_variants_agree [OF counted_sections_ok, of "[LEnter 1, LTryEnter 2, LEnter 1, LLeave 1, LTryEnter 2, LLeave 1, LTryEnter 2]"]
  by (simp add: case_prod_beta)

end
