(* ===== verification/SocketInterface.thy ===== *)
theory SocketInterface
  imports WinSockets
begin

text \<open>
  The socket interface of \<^verbatim>\<open>EventLoop\<close> (\<^verbatim>\<open>src/event_loop.h\<close>) as its comments promise it, and the proof that
  \<^verbatim>\<open>EventLoopWin\<close> keeps the promise.  The locale \<open>socket_registry\<close> is the contract; a client's lemmas are proved from it alone.
\<close>

section \<open>What the class declares\<close>

definition SupportsEdgeTriggered :: bool where
  "SupportsEdgeTriggered = False"

text \<open>The listener that does not override \<^verbatim>\<open>OnSocketEvent\<close>; such listeners have one object, \<open>()\<close>.\<close>

definition OnSocketEvent :: "unit \<Rightarrow> u64 \<Rightarrow> u8 \<Rightarrow> 's \<Rightarrow> 's" where
  "OnSocketEvent lst fd evs s = s"

datatype 'l socket_op = DoRegister u64 u8 'l | DoUnregister u64 | DoRearm u64 u8 | DoNotify u64 u8

fun socket_of :: "'l socket_op \<Rightarrow> u64" where
  "socket_of (DoRegister fd evs lst) = fd" | "socket_of (DoUnregister fd) = fd" | "socket_of (DoRearm fd evs) = fd"
| "socket_of (DoNotify fd evs) = fd"

text \<open>
  The abstract registry: the sockets in the order of their registration, and what is registered for each.  \<open>accept\<close> is the answer of the
  system, which may refuse to watch a socket.
\<close>

type_synonym 'l registry = "u64 list \<times> (u64 \<rightharpoonup> 'l Registration)"

fun registry_op :: "bool \<Rightarrow> 'l socket_op \<Rightarrow> 'l registry \<Rightarrow> bool \<times> 'l registry" where
  "registry_op accept (DoRegister fd evs lst) (fds, m) =
     (if m fd = None \<and> accept
      then (True, fds @ [fd], m(fd \<mapsto> \<lparr>events = evs, listener = lst, artificially_notify_at_next_iteration = 0\<rparr>))
      else (False, fds, m))"
| "registry_op accept (DoUnregister fd) (fds, m) = (m fd \<noteq> None, filter (\<lambda>k. k \<noteq> fd) fds, m(fd := None))"
| "registry_op accept (DoRearm fd evs) (fds, m) =
     (case m fd of None \<Rightarrow> (False, fds, m) | Some r \<Rightarrow> (accept, fds, m(fd \<mapsto> r\<lparr>events := events r OR evs\<rparr>)))"
| "registry_op accept (DoNotify fd evs) (fds, m) =
     (case m fd of
        None \<Rightarrow> (False, fds, m)
      | Some r \<Rightarrow> (True, fds, m(fd \<mapsto> r\<lparr>artificially_notify_at_next_iteration :=
                                      artificially_notify_at_next_iteration r OR evs\<rparr>)))"

fun registry_ops :: "bool list \<Rightarrow> 'l socket_op list \<Rightarrow> 'l registry \<Rightarrow> bool list \<times> 'l registry" where
  "registry_ops (a # as) (c # cs) g =
     (let (b, g) = registry_op a c g; (bs, g) = registry_ops as cs g in (b # bs, g))"
| "registry_ops _ _ g = ([], g)"

text \<open>The operations of a loop, and a history of them.\<close>

fun socket_ops :: "('l socket_op \<Rightarrow> 's \<Rightarrow> bool \<times> 's) \<Rightarrow> 'l socket_op list \<Rightarrow> 's \<Rightarrow> bool list \<times> 's" where
  "socket_ops f [] s = ([], s)"
| "socket_ops f (c # cs) s = (let (b, s) = f c s; (bs, s) = socket_ops f cs s in (b # bs, s))"

fun answers :: "('l socket_op \<Rightarrow> 's \<Rightarrow> bool \<times> 's) \<Rightarrow> ('l socket_op \<Rightarrow> 's \<Rightarrow> bool) \<Rightarrow> 'l socket_op list \<Rightarrow> 's \<Rightarrow> bool list" where
  "answers f accepts [] s = []" | "answers f accepts (c # cs) s = accepts c s # answers f accepts cs (snd (f c s))"

fun win_socket_op ::
  "('a) win_api_scheme \<Rightarrow> 'l socket_op \<Rightarrow> ('u, 'd, 'l, 'z) EventLoopWin_scheme \<Rightarrow> bool \<times> ('u, 'd, 'l, 'z) EventLoopWin_scheme" where
  "win_socket_op W (DoRegister fd evs lst) s = RegisterSocket W fd evs lst s"
| "win_socket_op W (DoUnregister fd) s = UnregisterSocket W fd s"
| "win_socket_op W (DoRearm fd evs) s = RearmSocket W fd evs s"
| "win_socket_op W (DoNotify fd evs) s = ArtificiallyNotifyEvent fd evs s"

section \<open>The contract\<close>

text \<open>\<open>ok\<close>: the loop is running and its own data are consistent; \<open>accepts\<close>: what the system answers to an operation.\<close>

locale socket_registry =
  fixes op :: "'l socket_op \<Rightarrow> 's \<Rightarrow> bool \<times> 's" and registry :: "'s \<Rightarrow> 'l registry" and ok :: "'s \<Rightarrow> bool"
    and accepts :: "'l socket_op \<Rightarrow> 's \<Rightarrow> bool"
  assumes op_ok: "ok s \<Longrightarrow> ok (snd (op c s))"
    and op_registry: "ok s \<Longrightarrow> (fst (op c s), registry (snd (op c s))) = registry_op (accepts c s) c (registry s)"
begin

lemma history_ok: "ok s \<Longrightarrow> ok (snd (socket_ops op cs s))"
  by (induction cs arbitrary: s) (simp_all add: op_ok case_prod_beta)

lemma history_refines:
  "ok s \<Longrightarrow> (fst (socket_ops op cs s), registry (snd (socket_ops op cs s))) = registry_ops (answers op accepts cs s) cs (registry s)"
proof (induction cs arbitrary: s)
  case (Cons c cs)
  from op_registry [OF Cons.prems, of c] Cons.IH [OF op_ok [OF Cons.prems, of c]]
  show ?case by (simp add: case_prod_beta) (metis fst_conv snd_conv)
qed simp

text \<open>Calls for other sockets do not touch a client's registration.\<close>

lemma others_keep:
  "ok s \<Longrightarrow> list_all (\<lambda>c. socket_of c \<noteq> fd) cs \<Longrightarrow> snd (registry (snd (socket_ops op cs s))) fd = snd (registry s) fd"
proof (induction cs arbitrary: s)
  case (Cons c cs)
  have "snd (registry (snd (op c s))) fd = snd (registry s) fd"
    using op_registry [OF Cons.prems(1), of c] Cons.prems(2)
    by (cases "registry s"; cases c) (auto split: if_splits option.splits)
  with Cons op_ok [OF Cons.prems(1), of c] show ?case by (simp add: case_prod_beta)
qed simp

text \<open>So a client that registered a socket can unregister it, whatever happened to other sockets meanwhile.\<close>

lemma register_then_unregister:
  assumes "ok s" "fst (op (DoRegister fd evs lst) s)" "list_all (\<lambda>c. socket_of c \<noteq> fd) cs"
  shows "fst (op (DoUnregister fd) (snd (socket_ops op cs (snd (op (DoRegister fd evs lst) s)))))"
proof -
  let ?s = "snd (op (DoRegister fd evs lst) s)"
  have ok: "ok ?s" by (rule op_ok [OF assms(1)])
  have "snd (registry ?s) fd \<noteq> None"
    using op_registry [OF assms(1), of "DoRegister fd evs lst"] assms(2) by (cases "registry s") (auto split: if_splits)
  then have "snd (registry (snd (socket_ops op cs ?s))) fd \<noteq> None" using others_keep [OF ok assms(3)] by simp
  then show ?thesis
    using op_registry [OF history_ok [OF ok, of cs], of "DoUnregister fd"] by (cases "registry (snd (socket_ops op cs ?s))") auto
qed

end

section \<open>The Windows loop satisfies it\<close>

definition win_registry :: "('u, 'd, 'l, 'z) EventLoopWin_scheme \<Rightarrow> 'l registry" where
  "win_registry s = (map fst (entries (registrations_m s)), registration_of s)"

definition win_registry_ok :: "('u, 'd, 'l, 'z) EventLoopWin_scheme \<Rightarrow> bool" where
  "win_registry_ok s \<longleftrightarrow> reg_inv s \<and> running_m s"

fun win_accepts :: "('a) win_api_scheme \<Rightarrow> 'l socket_op \<Rightarrow> ('u, 'd, 'l, 'z) EventLoopWin_scheme \<Rightarrow> bool" where
  "win_accepts W (DoRegister fd evs lst) s \<longleftrightarrow> WSAEventSelect W (env_calls s) fd (GetPollMask W evs) = 0"
| "win_accepts W (DoRearm fd evs) s \<longleftrightarrow>
     (case registration_of s fd of None \<Rightarrow> True | Some r \<Rightarrow> WSAEventSelect W (env_calls s) fd (GetPollMask W (events r OR evs)) = 0)"
| "win_accepts W _ s \<longleftrightarrow> True"


lemma erase_registration_running [simp]: "running_m (snd (erase_registration fd s)) = running_m s"
  by (simp add: erase_registration_def split: sum.split)

lemma win_socket_op_running:
  "running_m (snd (win_socket_op W c s)) = running_m s"
  by (cases c)
    (auto simp: RegisterSocket_def UnregisterSocket_def RearmSocket_def ArtificiallyNotifyEvent_def Let_def
      case_prod_beta split: option.splits)

lemma find_registration:
  assumes "reg_inv s" "registration_of s fd = Some r"
  obtains rid where "find_value (registrations_m s) fd = Some rid" "reg_heap s rid = Some r"
  using assms by (auto simp: registration_of_def bind_eq_Some_conv)

lemma win_rearm:
  assumes "reg_inv s" "running_m s"
  shows "(fst (RearmSocket W fd evs s), win_registry (snd (RearmSocket W fd evs s))) =
    registry_op (win_accepts W (DoRearm fd evs) s) (DoRearm fd evs) (win_registry s)"
proof (cases "registration_of s fd")
  case None
  then have "find_value (registrations_m s) fd = None" by (simp add: registration_of_None_iff [OF assms(1)])
  with None show ?thesis
    using assms by (simp add: RearmSocket_def loop_defs win_registry_def)
next
  case (Some r)
  then obtain rid where rid: "find_value (registrations_m s) fd = Some rid" "reg_heap s rid = Some r"
    using find_registration [OF assms(1)] by blast
  have "registration_of (snd (RearmSocket W fd evs s)) =
      registration_of (upd_reg rid (\<lambda>r. r\<lparr>events := events r OR evs\<rparr>) s)"
    by (rule registration_of_same_fields) (use assms(2) in \<open>simp_all add: RearmSocket_def loop_defs rid Let_def\<close>)
  then have "registration_of (snd (RearmSocket W fd evs s)) = (registration_of s)(fd \<mapsto> r\<lparr>events := events r OR evs\<rparr>)"
    using Some by (simp add: registration_of_upd_reg [OF assms(1) rid(1)] fun_eq_iff)
  with Some rid assms(2) show ?thesis
    by (simp add: RearmSocket_def loop_defs win_registry_def Let_def)
qed

lemma win_notify:
  assumes "reg_inv s" "running_m s"
  shows "(fst (ArtificiallyNotifyEvent fd evs s), win_registry (snd (ArtificiallyNotifyEvent fd evs s))) =
    registry_op True (DoNotify fd evs) (win_registry s)"
proof (cases "registration_of s fd")
  case None
  then have "find_value (registrations_m s) fd = None" by (simp add: registration_of_None_iff [OF assms(1)])
  with None show ?thesis
    using assms by (simp add: ArtificiallyNotifyEvent_def loop_defs win_registry_def)
next
  case (Some r)
  then obtain rid where rid: "find_value (registrations_m s) fd = Some rid" "reg_heap s rid = Some r"
    using find_registration [OF assms(1)] by blast
  let ?f = "\<lambda>r. r\<lparr>artificially_notify_at_next_iteration := artificially_notify_at_next_iteration r OR evs\<rparr>"
  have "registration_of (snd (ArtificiallyNotifyEvent fd evs s)) = registration_of (upd_reg rid ?f s)"
    by (rule registration_of_same_fields)
      (use assms(2) in \<open>simp_all add: ArtificiallyNotifyEvent_def loop_defs rid Let_def upd_reg_def\<close>)
  then have "registration_of (snd (ArtificiallyNotifyEvent fd evs s)) = (registration_of s)(fd \<mapsto> ?f r)"
    using Some by (simp add: registration_of_upd_reg [OF assms(1) rid(1)] fun_eq_iff)
  with Some rid assms(2) show ?thesis
    by (simp add: ArtificiallyNotifyEvent_def loop_defs win_registry_def Let_def)
qed

lemma win_unregister:
  assumes "reg_inv s" "running_m s"
  shows "(fst (UnregisterSocket W fd s), win_registry (snd (UnregisterSocket W fd s))) =
    registry_op True (DoUnregister fd) (win_registry s)"
proof -
  have c: "registration_of (count_call s) = registration_of s"
    by (rule registration_of_same_fields) simp_all
  have k: "filter (\<lambda>k. k \<noteq> fd) (map fst (entries (registrations_m s))) = map fst (entries (registrations_m s))"
    if "registration_of s fd = None"
    using that unfolding registration_of_None_iff [OF assms(1)]
    by (intro filter_True) (auto simp: lhm.look_seq [OF reg_invD(1) [OF assms(1)]] map_of_eq_None_iff)
  show ?thesis
    using erase_registration_spec [OF reg_inv_count_call [OF assms(1)], of fd] assms k
    by (auto simp: UnregisterSocket_cases [OF assms(1)] win_registry_def loop_defs c filter_map o_def fun_eq_iff)
qed

lemma win_register:
  assumes "reg_inv s" "running_m s"
  shows "(fst (RegisterSocket W fd evs lst s), win_registry (snd (RegisterSocket W fd evs lst s))) =
    registry_op (win_accepts W (DoRegister fd evs lst) s) (DoRegister fd evs lst) (win_registry s)"
  using RegisterSocket_all_or_nothing [OF assms(1), where W = W and fd = fd and evs = evs and lst = lst] assms(2)
  by (auto simp: win_registry_def loop_defs case_prod_beta)

lemma win_socket_op_registry:
  assumes "win_registry_ok s"
  shows "win_registry_ok (snd (win_socket_op W c s))"
    and "(fst (win_socket_op W c s), win_registry (snd (win_socket_op W c s))) = registry_op (win_accepts W c s) c (win_registry s)"
proof -
  show "win_registry_ok (snd (win_socket_op W c s))"
    using assms win_socket_op_running [of W c s] by (cases c) (auto simp: win_registry_ok_def reg_inv_ops)
  from assms show "(fst (win_socket_op W c s), win_registry (snd (win_socket_op W c s))) =
      registry_op (win_accepts W c s) c (win_registry s)"
    by (cases c) (simp_all add: win_registry_ok_def win_register win_unregister win_rearm win_notify
        del: registry_op.simps win_accepts.simps(1,2))
qed

interpretation win_sockets: socket_registry "win_socket_op W" win_registry win_registry_ok "win_accepts W"
  for W :: "('a) win_api_scheme"
  by unfold_locales (rule win_socket_op_registry, assumption)+

text \<open>A system that accepts every socket.\<close>

lemma accepting_answers:
  assumes "\<And>n fd msk. WSAEventSelect W n fd msk = 0"
  shows "answers (win_socket_op W) (win_accepts W) cs s = replicate (length cs) True"
proof (induction cs arbitrary: s)
  case (Cons c cs)
  have "win_accepts W c s" by (cases c) (simp_all add: assms split: option.split)
  with Cons show ?case by simp
qed simp

section \<open>Properties\<close>

text \<open>C18. The Windows loop is the registry its interface promises: any history of registering, unregistering,
  rearming and notifying on a running loop returns the answers of the abstract registry and leaves its sockets, in their
  order, with their events and listeners, for some answers of the system; if the system accepts every socket these are all
  yes.  The loop's own data stay consistent.\<close>

theorem socket_history_refines:
  assumes "reg_inv s" "running_m s"
  shows "\<exists>answers. length answers = length cs \<and>
    (case socket_ops (win_socket_op W) cs s of (results, s') \<Rightarrow>
       (results, win_registry s') = registry_ops answers cs (win_registry s) \<and> reg_inv s' \<and> running_m s') \<and>
    ((\<forall>n fd msk. WSAEventSelect W n fd msk = 0) \<longrightarrow> answers = replicate (length cs) True)"
proof -
  have ok: "win_registry_ok s" using assms by (simp add: win_registry_ok_def)
  have "length (answers (win_socket_op W) (win_accepts W) cs s) = length cs" by (induction cs arbitrary: s) simp_all
  with win_sockets.history_refines [OF ok, of W cs] win_sockets.history_ok [OF ok, of W cs] show ?thesis
    by (intro exI [of _ "answers (win_socket_op W) (win_accepts W) cs s"]) (auto simp: win_registry_ok_def case_prod_beta accepting_answers)
qed

definition two_listeners :: "nat socket_op list" where
  "two_listeners = [DoRegister 5 1 9, DoRegister 5 1 8, DoRearm 5 2, DoNotify 6 1, DoUnregister 5, DoUnregister 5]"

theorem socket_history_refines_witness:
  "fst (socket_ops (win_socket_op windows_headers) two_listeners idle_loop) = [True, False, True, False, True, False]"
proof -
  let ?cs = two_listeners
  have new: "win_registry idle_loop = ([], Map.empty)"
    using idle_loop_registration by (simp add: win_registry_def fun_eq_iff) (simp add: idle_loop_eq lhm_new_def entries_def)
  have "running_m idle_loop" by (simp add: idle_loop_eq)
  from socket_history_refines [OF idle_loop_inv this, of ?cs windows_headers]
  obtain as where "(case socket_ops (win_socket_op windows_headers) ?cs idle_loop of (results, s') \<Rightarrow>
       (results, win_registry s') = registry_ops as ?cs (win_registry idle_loop) \<and> reg_inv s' \<and> running_m s')"
    and "as = replicate (length ?cs) True" by (elim exE conjE impE) (rule allI windows_headers_simps)+
  then have "fst (socket_ops (win_socket_op windows_headers) ?cs idle_loop) =
      fst (registry_ops (replicate (length ?cs) True) ?cs ([], Map.empty))"
    unfolding new case_prod_beta by (metis fst_conv)
  also have "\<dots> = [True, False, True, False, True, False]" by code_simp
  finally show ?thesis .
qed

text \<open>A listener that registered a socket can unregister it, whatever calls others made for their own sockets meanwhile.\<close>

lemma own_socket_unregisters:
  assumes "reg_inv s" "running_m s" "fst (RegisterSocket W fd evs lst s)" "list_all (\<lambda>c. socket_of c \<noteq> fd) cs"
  shows "fst (UnregisterSocket W fd (snd (socket_ops (win_socket_op W) cs (snd (RegisterSocket W fd evs lst s)))))"
  using win_sockets.register_then_unregister [of s W fd evs lst cs] assms by (simp add: win_registry_ok_def)

end
