(* ===== verification/TimerIteration.thy ===== *)
theory TimerIteration
  imports LoopIntegration
begin

text \<open>
  Whole iterations of the Windows loop that the multimedia timer wakes, and the time-outs it is armed with:
  \<^verbatim>\<open>RunEventLoopOnce\<close>, \<^verbatim>\<open>ProcessTimerTasksUpTo\<close>, \<^verbatim>\<open>RunDueTasks\<close> and \<^verbatim>\<open>ScheduleNextTimer\<close> of \<^verbatim>\<open>src/event_loop_win.cc\<close> together.
\<close>

section \<open>Lemmas\<close>

lemma timer_woken_iteration:
  assumes "prompt_wait W" and "\<not> wakeup_ev_m s" and "event_m (timer_m s)"
  shows "RunEventLoopOnce W A exec on_event d s =
    ProcessTimerTasksUpTo W A exec (CurrentTimeMicros (steady_clock W (Suc (env_calls s))))
      (s\<lparr>env_calls := Suc (Suc (env_calls s))\<rparr>)"
proof -
  let ?evs = "[wakeup_ev_m s, event_m (timer_m s), socket_ev_m s]"
  let ?r = "WSAWaitForMultipleEvents W (env_calls s) ?evs (to_uint32 (ToCmsWait A (INFINITE W) d))"
  have r: "?r \<noteq> WSA_WAIT_FAILED W" "?r \<noteq> WSA_WAIT_TIMEOUT W"
    using assms(1) [unfolded prompt_wait_def, THEN conjunct2, rule_format, of ?evs "env_calls s"
        "to_uint32 (ToCmsWait A (INFINITE W) d)"] assms(3) by simp_all
  then obtain i where i: "?r = WSA_WAIT_EVENT_0 W + of_nat i" "\<forall>j < i. \<not> ?evs ! j" "i < length ?evs" "?evs ! i"
    using assms(1) unfolding prompt_wait_def wait_ok_def Let_def by metis
  have "i = 1"
  proof (cases i)
    case 0
    with i(4) assms(2) show ?thesis by simp
  next
    case (Suc j)
    with i(2) assms(3) show ?thesis by (cases j) auto
  qed
  with i(1) have "?r = WSA_WAIT_EVENT_0 W + 1" by simp
  with r show ?thesis
    by (simp add: RunEventLoopOnce_def Let_def read_micros_def count_call_def)
qed

text \<open>The time-out of the next timer.\<close>

lemma ScheduleNextTimer_timeout:
  fixes W :: "'a win_api_scheme" and s :: "('u, 'd, 'l, 'z) EventLoopWin_scheme"
  assumes "absl_duration_ok A" and "timer_tasks_m s \<noteq> []"
  defines "left \<equiv> max 0 (due_time_micros_m (pq_top (timer_tasks_m s)) - micros_at W (env_calls s))"
  shows "mm_timer_id_m (timer_m (ScheduleNextTimer W A s)) = timeSetEvent W (Suc (env_calls s)) (to_uint32 (left div 1000))"
proof -
  have "dur_max A (ZeroDuration A) (Microseconds A n) = Microseconds A (max 0 n)" for n
    using absl_duration_okD(5) [OF assms(1)] dur_max_Microseconds [OF assms(1), of 0 n] by simp
  moreover have "max 0 n sdiv 1000 = max 0 n div 1000" for n :: int
    by (cases "0 < n") (auto simp: signed_divide_int_def max_def sgn_if)
  ultimately show ?thesis
    using assms(2) unfolding left_def
    by (simp add: ScheduleNextTimer_def StartOneShotTimer_def dcheck_def count_call_def read_micros_eq Let_def
        absl_duration_okD(2) [OF assms(1)])
qed

section \<open>Properties\<close>


definition timer_fired :: "(nat, micros, nat, nat list) EventLoopWin_scheme" where
  "timer_fired = due_loop\<lparr>timer_m := \<lparr>event_m = True, mm_timer_id_m = 1\<rparr>\<rparr>"


text \<open>C27. The time-out a timer is armed with is the time left until the first task is due, rounded down to milliseconds, as
  long as it fits the 32 bits it is passed in: the timer fires no later than the task is due, and less than a
  millisecond before.\<close>

theorem timer_armed_for_next_task:
  assumes "absl_duration_ok A" and "timer_tasks_m s \<noteq> []"
    and "due_time_micros_m (pq_top (timer_tasks_m s)) - CurrentTimeMicros (steady_clock W (env_calls s)) < 2 ^ 32 * 1000"
  shows "\<exists>ms. mm_timer_id_m (timer_m (ScheduleNextTimer W A s)) = timeSetEvent W (Suc (env_calls s)) ms \<and>
    (let left = due_time_micros_m (pq_top (timer_tasks_m s)) - CurrentTimeMicros (steady_clock W (env_calls s))
     in if left \<le> 0 then ms = 0 else uint ms * 1000 \<le> left \<and> left < (uint ms + 1) * 1000)"
proof -
  let ?left = "due_time_micros_m (pq_top (timer_tasks_m s)) - CurrentTimeMicros (steady_clock W (env_calls s))"
  have "uint (to_uint32 (max 0 ?left div 1000)) = max 0 ?left div 1000"
    using assms(3) by (simp add: to_uint32_def uint_word_of_int)
  then show ?thesis
    using ScheduleNextTimer_timeout [OF assms(1,2), of W] unfolding micros_at_def
    by (intro exI [of _ "to_uint32 (max 0 ?left div 1000)"]) (auto simp: Let_def to_uint32_def max_def)
qed

theorem timer_armed_for_next_task_witness:
  "\<exists>ms. mm_timer_id_m (timer_m (ScheduleNextTimer windows_headers micros_duration
     (idle_loop\<lparr>timer_tasks_m := [\<lparr>due_time_micros_m = 1500, task_m = 7\<rparr>]\<rparr>))) = timeSetEvent windows_headers 1 ms \<and>
     uint ms * 1000 \<le> 1500 \<and> 1500 < (uint ms + 1) * 1000"
proof -
  let ?s = "idle_loop\<lparr>timer_tasks_m := [\<lparr>due_time_micros_m = 1500, task_m = 7\<rparr>]\<rparr>"
  have "env_calls ?s = 0" "timer_tasks_m ?s \<noteq> []" "pq_top (timer_tasks_m ?s) = \<lparr>due_time_micros_m = 1500, task_m = 7\<rparr>"
    by (simp_all add: idle_loop_eq pq_top_def)
  with timer_armed_for_next_task [OF micros_duration_ok, of ?s windows_headers] show ?thesis
    by (simp add: time_defs Let_def)
qed

text \<open>The documentation of \<^verbatim>\<open>timeSetEvent\<close> lets it refuse time-outs below the timer's minimum, in practice one millisecond.
  Then a timer that fires in the last millisecond before its task is due, as rounding down allows, is the last: the iteration
  runs nothing, arming a timer for 0 ms fails, and the fall-back is one the loop does not serve.\<close>

lemma early_wake_up_stalls:
  assumes A: "absl_duration_ok A" and W: "prompt_wait W" "\<And>n. timeSetEvent W n 0 = 0"
    and s: "timer_tasks_m s \<noteq> []" "\<not> wakeup_ev_m s" "event_m (timer_m s)"
    and early: "CurrentTimeMicros (steady_clock W (env_calls s + 2)) < due_time_micros_m (pq_top (timer_tasks_m s))"
      "due_time_micros_m (pq_top (timer_tasks_m s)) < CurrentTimeMicros (steady_clock W (env_calls s + 3)) + 1000"
  shows "\<exists>t. RunEventLoopOnce W A exec on_event d s = Some t \<and> timer_tasks_m t = timer_tasks_m s \<and> no_mm t"
proof -
  let ?s = "s\<lparr>env_calls := Suc (Suc (env_calls s)), timer_m := Cancel (timer_m s)\<rparr>"
  let ?t = "?s\<lparr>env_calls := Suc (Suc (Suc (env_calls s)))\<rparr>"
  have "RunDueTasks W exec ?s = Some ?t"
    using s(1) early(1)
    by (simp add: RunDueTasks_def run_due.simps [of exec "CurrentTimeMicros (steady_clock W (Suc (Suc (env_calls s))))"]
        read_micros_def dcheck_def Let_def)
  then have "RunEventLoopOnce W A exec on_event d s = Some (ScheduleNextTimer W A ?t)"
    using s by (simp add: timer_woken_iteration [OF W(1) s(2,3)] ProcessTimerTasksUpTo_def)
  moreover have "mm_timer_id_m (timer_m (ScheduleNextTimer W A ?t)) = 0"
  proof -
    have "max 0 (due_time_micros_m (pq_top (timer_tasks_m s)) - micros_at W (Suc (Suc (Suc (env_calls s))))) div 1000 = 0"
      using early(2) by (simp add: micros_at_def numeral_3_eq_3 max_def)
    then show ?thesis using ScheduleNextTimer_timeout [OF A, of ?t W] s(1) W(2) by (simp add: to_uint32_def)
  qed
  ultimately show ?thesis by (simp add: no_mm_def Cancel_def)
qed

end
