(* ===== verification/DelayedTasks.thy ===== *)
theory DelayedTasks
  imports TimerIteration
begin

text \<open>
  The delayed tasks over whole histories of the Windows loop (\<^verbatim>\<open>src/event_loop_win.cc\<close>): the executions are logged behind the
  loop's record, and what left the timer queue is compared with what was executed.
\<close>

section \<open>Histories of clients\<close>

text \<open>
  The histories \<open>loop_run\<close> of \<open>WinTimers\<close> in which nothing but the loop writes the log: the calls between the iterations do not.
\<close>

inductive client_run ::
  "'a win_api_scheme \<Rightarrow> ('d, 'b) absl_duration_scheme
     \<Rightarrow> ('u \<Rightarrow> ('u, 'd, 'l, 'z) EventLoopWin_scheme \<Rightarrow> ('u, 'd, 'l, 'z) EventLoopWin_scheme)
     \<Rightarrow> ('l \<Rightarrow> u64 \<Rightarrow> u8 \<Rightarrow> ('u, 'd, 'l, 'z) EventLoopWin_scheme \<Rightarrow> ('u, 'd, 'l, 'z) EventLoopWin_scheme)
     \<Rightarrow> ('u, 'd, 'l, 'z) EventLoopWin_scheme \<Rightarrow> ('u, 'd, 'l, 'z) EventLoopWin_scheme \<Rightarrow> bool"
  for W A exec on_event where
  cr_start: "client_run W A exec on_event s s"
| cr_iteration: "client_run W A exec on_event s t \<Longrightarrow> RunEventLoopOnce W A exec on_event d t = Some t'
     \<Longrightarrow> client_run W A exec on_event s t'"
| cr_calls: "client_run W A exec on_event s t \<Longrightarrow> loop_calls W A t t'
     \<Longrightarrow> EventLoopWin.more t' = EventLoopWin.more t \<Longrightarrow> client_run W A exec on_event s t'"
| cr_post: "client_run W A exec on_event s t \<Longrightarrow> client_run W A exec on_event s (PostTask self WakeUp c t)"
| cr_fire: "client_run W A exec on_event s t \<Longrightarrow> mm_timer_id_m (timer_m t) \<noteq> 0
     \<Longrightarrow> client_run W A exec on_event s (t\<lparr>timer_m := (timer_m t)\<lparr>event_m := True\<rparr>\<rparr>)"

lemma client_run_loop_run: "client_run W A exec on_event s t \<Longrightarrow> loop_run W A exec on_event s t"
  by (induction rule: client_run.induct) (auto intro: loop_run.intros)

section \<open>The account\<close>

text \<open>
  Since the queue was \<open>M\<close> and the log \<open>l\<close>, the tasks \<open>gone\<close> have left the queue: every one was executed, when it was due.
\<close>

definition accounted ::
  "'a win_api_scheme \<Rightarrow> 'u DelayedTaskInfo multiset \<Rightarrow> 'u list \<Rightarrow> ('u, 'd, 'l, 'u list) EventLoopWin_scheme \<Rightarrow> bool" where
  "accounted W M l s \<longleftrightarrow>
     (\<exists>log gone. EventLoopWin.more s = l @ log \<and> M \<subseteq># mset (timer_tasks_m s) + gone \<and> image_mset task_m gone \<subseteq># mset log \<and>
        (\<forall>x \<in># gone. due_time_micros_m x \<le> micros_at W (env_calls s)))"

text \<open>What every step but \<^verbatim>\<open>RunDueTasks\<close> does: the queue, the log and the number of calls of the environment grow.\<close>

definition grows :: "('u, 'd, 'l, 'u list) EventLoopWin_scheme \<Rightarrow> ('u, 'd, 'l, 'u list) EventLoopWin_scheme \<Rightarrow> bool" where
  "grows s t \<longleftrightarrow>
     mset (timer_tasks_m s) \<subseteq># mset (timer_tasks_m t) \<and> (\<exists>log. EventLoopWin.more t = EventLoopWin.more s @ log) \<and>
     env_calls s \<le> env_calls t"

lemma accounted_grows:
  assumes mono: "clock_mono W" and s: "accounted W M l s" and g: "grows s t"
  shows "accounted W M l t"
proof -
  obtain log gone where 1: "EventLoopWin.more s = l @ log" "M \<subseteq># mset (timer_tasks_m s) + gone"
    "image_mset task_m gone \<subseteq># mset log" "\<forall>x \<in># gone. due_time_micros_m x \<le> micros_at W (env_calls s)"
    using s unfolding accounted_def by blast
  obtain log' where 2: "mset (timer_tasks_m s) \<subseteq># mset (timer_tasks_m t)" "EventLoopWin.more t = EventLoopWin.more s @ log'"
    "env_calls s \<le> env_calls t"
    using g unfolding grows_def by blast
  have "M \<subseteq># mset (timer_tasks_m t) + gone"
    using 1(2) 2(1) by (meson mset_subset_eq_mono_add subset_mset.order_refl subset_mset.order_trans)
  moreover have "image_mset task_m gone \<subseteq># mset (log @ log')" using 1(3) by (simp add: subset_mset.add_increasing2)
  moreover have "\<forall>x \<in># gone. due_time_micros_m x \<le> micros_at W (env_calls t)"
    using 1(4) micros_at_mono [OF mono 2(3)] by fastforce
  ultimately show ?thesis using 1(1) 2(2) unfolding accounted_def by (intro exI [of _ "log @ log'"] exI [of _ gone]) simp
qed

lemma grows_trans: "grows s t \<Longrightarrow> grows t u \<Longrightarrow> grows s u"
  unfolding grows_def by (fastforce intro: subset_mset.order_trans)

lemma grows_frame: "timer_frame s t \<Longrightarrow> EventLoopWin.more t = EventLoopWin.more s @ log \<Longrightarrow> grows s t"
  by (auto simp: grows_def timer_frame_def)

lemma grows_same: "timer_frame s t \<Longrightarrow> EventLoopWin.more t = EventLoopWin.more s \<Longrightarrow> grows s t"
  by (auto simp: grows_def timer_frame_def)

lemma grows_PostDelayed: "grows s (PostDelayedTaskOnTaskQueue W A u st d s)"
  using PostDelayed_env_calls [of s W A u st d] by (simp add: grows_def)

lemma grows_calls:
  assumes "loop_calls W A s t" "absl_duration_ok A" "clock_mono W" and "EventLoopWin.more t = EventLoopWin.more s @ log"
  shows "grows s t"
proof -
  obtain xs where "timer_tasks_m t = fold pq_push xs (timer_tasks_m s)" "env_calls s \<le> env_calls t"
    using loop_calls_queue [OF assms(1-3)] by blast
  then show ?thesis using assms(4) pq.elems_fold_push [of xs "timer_tasks_m s"] by (simp add: grows_def)
qed

lemma PostTask_more: "EventLoopWin.more (PostTask self WakeUp c s) = EventLoopWin.more s"
  by (simp add: loop_defs WakeUp_def)

section \<open>Every step keeps the account\<close>

definition client_inv ::
  "'a win_api_scheme \<Rightarrow> 'u DelayedTaskInfo multiset \<Rightarrow> 'u list \<Rightarrow> ('u, 'd, 'l, 'u list) EventLoopWin_scheme \<Rightarrow> bool" where
  "client_inv W M l s \<longleftrightarrow> timers_ok s \<and> accounted W M l s"

lemma accounted_pending:
  assumes A: "absl_duration_ok A" and mono: "clock_mono W"
    and calls: "\<And>u s. loop_calls W A s (exec u s)" and log: "\<And>u s. EventLoopWin.more (exec u s) = EventLoopWin.more s @ [u]"
    and s: "accounted W M l s"
  shows "accounted W M l (ProcessPendingTasks W A exec s)"
proof (rule RunPendingTasks_keeps [where P = "accounted W M l"])
  show "accounted W M l (exec u t)" if "accounted W M l t" for u t
    by (rule accounted_grows [OF mono that grows_calls [OF calls A mono log]])
  show "accounted W M l (destroy c t)" if "accounted W M l t" for c t
    by (rule accounted_grows [OF mono that grows_same [OF timer_frame_destroy destroy_more]])
  show "accounted W M l (PostDelayedTaskOnTaskQueue W A u st d t)" if "accounted W M l t" for u st d t
    by (rule accounted_grows [OF mono that grows_PostDelayed])
qed (use s in \<open>simp_all add: accounted_def\<close>)

lemma accounted_sockets:
  assumes A: "absl_duration_ok A" and mono: "clock_mono W"
    and calls: "\<And>lst fd evs s. loop_calls W A s (on_event lst fd evs s)"
    and log: "\<And>lst fd evs s. EventLoopWin.more (on_event lst fd evs s) = EventLoopWin.more s"
    and s: "accounted W M l s"
  shows "accounted W M l (ProcessSocketEvents W on_event s)"
proof (rule ProcessSocketEvents_keeps [where P = "accounted W M l"])
  show "accounted W M l (on_event lst fd evs t)" if "accounted W M l t" for lst fd evs t
    by (rule accounted_grows [OF mono that grows_calls [OF calls A mono, where log = "[]"]]) (simp add: log)
  show "accounted W M l (snd (collect_ready W t))" if "accounted W M l t" for t
    by (rule accounted_grows [OF mono that grows_same [OF timer_frame_collect collect_ready_more]])
qed (use s in \<open>simp_all add: accounted_def\<close>)

text \<open>\<^verbatim>\<open>RunDueTasks\<close>: what leaves the queue is what it logs.\<close>

lemma accounted_timer:
  assumes A: "absl_duration_ok A" and mono: "clock_mono W"
    and calls: "\<And>u s. loop_calls W A s (exec u s)" and log: "\<And>u s. EventLoopWin.more (exec u s) = EventLoopWin.more s @ [u]"
    and s: "timers_ok s" "event_m (timer_m s)" "accounted W M l s"
    and run: "ProcessTimerTasksUpTo W A exec now s = Some t"
  shows "accounted W M l t"
proof (cases "timer_tasks_m s = []")
  case True
  with run s(3) show ?thesis by (simp add: ProcessTimerTasksUpTo_def)
next
  case False
  let ?s = "s\<lparr>timer_m := Cancel (timer_m s)\<rparr>"
  let ?now = "micros_at W (env_calls s)"
  have "draining ?s" using s(1,2) by (auto simp: timers_ok_def draining_def)
  then have d: "draining (?s\<lparr>env_calls := Suc (env_calls s)\<rparr>)" by (simp add: draining_def)
  have "?now \<le> micros_at W (Suc (env_calls s))" by (rule micros_at_mono [OF mono]) simp
  then obtain u ran posted where u: "RunDueTasks W exec ?s = Some u" "Suc (env_calls s) \<le> env_calls u"
    "EventLoopWin.more u = foldl (\<lambda>l u. l @ [u]) (EventLoopWin.more s) (map task_m ran)"
    "mset ran = {#x \<in># mset (timer_tasks_m s). due_time_micros_m x \<le> ?now#}"
    "mset (timer_tasks_m u) = {#x \<in># mset (timer_tasks_m s). ?now < due_time_micros_m x#} + mset posted"
    using run_due_spec [where exec = exec and lg = EventLoopWin.more and ext = "\<lambda>l u. l @ [u]" and now = ?now, OF A mono calls log _ d]
      False by (auto simp: RunDueTasks_eq)
  have t: "t = ScheduleNextTimer W A u" using run u(1) False by (simp add: ProcessTimerTasksUpTo_def)
  obtain lg gone where 1: "EventLoopWin.more s = l @ lg" "M \<subseteq># mset (timer_tasks_m s) + gone"
    "image_mset task_m gone \<subseteq># mset lg" "\<forall>x \<in># gone. due_time_micros_m x \<le> ?now"
    using s(3) unfolding accounted_def by blast
  have "mset (timer_tasks_m s) = mset ran + {#x \<in># mset (timer_tasks_m s). ?now < due_time_micros_m x#}"
    using multiset_partition [of "mset (timer_tasks_m s)" "\<lambda>x. due_time_micros_m x \<le> ?now"] by (simp add: u(4) not_le)
  then have "mset (timer_tasks_m s) + gone \<subseteq># mset (timer_tasks_m t) + (gone + mset ran)"
    by (simp add: t u(5) ac_simps)
  then have "M \<subseteq># mset (timer_tasks_m t) + (gone + mset ran)" using 1(2) by (rule subset_mset.order_trans [rotated])
  moreover have "EventLoopWin.more t = l @ (lg @ map task_m ran)" by (simp add: t u(3) 1(1) foldl_snoc)
  moreover have "image_mset task_m (gone + mset ran) \<subseteq># mset (lg @ map task_m ran)" using 1(3) by simp
  moreover have "env_calls s \<le> env_calls t" unfolding t by (rule order_trans [OF Suc_leD [OF u(2)] ScheduleNextTimer_fields(3)])
  then have "\<forall>x \<in># gone + mset ran. due_time_micros_m x \<le> micros_at W (env_calls t)"
    using 1(4) micros_at_mono [OF mono] u(4) by (fastforce simp del: set_mset_mset)
  ultimately show ?thesis unfolding accounted_def by blast
qed

lemma client_inv_iteration:
  assumes A: "absl_duration_ok A" and mono: "clock_mono W" and wait: "wait_ok W" and timer: "\<And>n ms. SetTimer W n ms \<noteq> 0"
    and calls: "\<And>u s. loop_calls W A s (exec u s)" "\<And>lst fd evs s. loop_calls W A s (on_event lst fd evs s)"
    and log: "\<And>u s. EventLoopWin.more (exec u s) = EventLoopWin.more s @ [u]"
      "\<And>lst fd evs s. EventLoopWin.more (on_event lst fd evs s) = EventLoopWin.more s"
    and s: "client_inv W M l s" and run: "RunEventLoopOnce W A exec on_event d s = Some t"
  shows "client_inv W M l t"
proof -
  note acc = accounted_grows [OF mono]
  have ok: "timers_ok s" "accounted W M l s" using s by (simp_all add: client_inv_def)
  have c: "accounted W M l (count_call s)" by (rule acc [OF ok(2)]) (simp add: grows_def count_call_def)
  have t1: "accounted W M l t"
    if "ProcessTimerTasksUpTo W A exec now (s\<lparr>env_calls := Suc (Suc (env_calls s))\<rparr>) = Some t" "event_m (timer_m s)" for now
  proof (rule accounted_timer [where exec = exec, OF A mono calls(1) log(1) _ _ _ that(1)])
    show "accounted W M l (s\<lparr>env_calls := Suc (Suc (env_calls s))\<rparr>)"
      by (rule acc [OF ok(2)]) (simp add: grows_def)
  qed (use ok that(2) in \<open>simp_all add: timers_ok_fields\<close>)
  have sock: "accounted W M l (ProcessSocketEvents W on_event (count_call s))"
    by (rule accounted_sockets [OF A mono calls(2) log(2) c])
  have "accounted W M l ((ProcessSocketEvents W on_event (count_call s))\<lparr>socket_ev_m := False\<rparr>)"
    by (rule acc [OF sock]) (simp add: grows_def)
  then have "accounted W M l t"
    using RunEventLoopOnce_cases [OF wait run [symmetric]] c sock t1
      accounted_pending [where exec = exec, OF A mono calls(1) log(1) c] by (metis option.inject)
  with timers_ok_iteration [OF A mono wait timer calls ok(1) run] show ?thesis by (simp add: client_inv_def)
qed

lemma client_inv_run:
  assumes "client_run W A exec on_event s t"
    and A: "absl_duration_ok A" and mono: "clock_mono W" and wait: "wait_ok W" and timer: "\<And>n ms. SetTimer W n ms \<noteq> 0"
    and calls: "\<And>u s. loop_calls W A s (exec u s)" "\<And>lst fd evs s. loop_calls W A s (on_event lst fd evs s)"
    and log: "\<And>u s. EventLoopWin.more (exec u s) = EventLoopWin.more s @ [u]"
      "\<And>lst fd evs s. EventLoopWin.more (on_event lst fd evs s) = EventLoopWin.more s"
    and "timers_ok s"
  shows "client_inv W (mset (timer_tasks_m s)) (EventLoopWin.more s) t"
  using assms(1,10)
proof induction
  case (cr_start s)
  then show ?case by (auto simp: client_inv_def accounted_def intro: exI [of _ "{#}"])
next
  case (cr_iteration s t d t')
  show ?case by (rule client_inv_iteration [OF A mono wait timer calls log cr_iteration.IH [OF cr_iteration.prems] cr_iteration.hyps(2)])
next
  case (cr_calls s t t')
  then show ?case
    using timers_ok_calls [OF cr_calls.hyps(2) timer] grows_calls [OF cr_calls.hyps(2) A mono, of "[]"]
    by (auto simp: client_inv_def intro: accounted_grows [OF mono])
next
  case (cr_post s t self c)
  then show ?case
    using grows_same [OF timer_frame_PostTask PostTask_more]
    by (auto simp: client_inv_def intro: timers_ok_frame [OF _ timer_frame_PostTask] accounted_grows [OF mono])
next
  case (cr_fire s t)
  then show ?case by (simp add: client_inv_def accounted_def timers_ok_def)
qed

text \<open>An iteration that the timer wakes returns and leaves no due task in the queue.\<close>

lemma timer_iteration_clears:
  fixes s :: "('u, 'd, 'l, 'u list) EventLoopWin_scheme"
  assumes A: "absl_duration_ok A" and W: "clock_mono W" "prompt_wait W"
    and calls: "\<And>u s. loop_calls W A s (exec u s)" and log: "\<And>u s. EventLoopWin.more (exec u s) = EventLoopWin.more s @ [u]"
    and s: "timers_ok s" "\<not> wakeup_ev_m s" "event_m (timer_m s)"
  shows "\<exists>t. RunEventLoopOnce W A exec on_event d s = Some t \<and>
    (\<forall>x \<in># mset (timer_tasks_m t). CurrentTimeMicros (steady_clock W (env_calls s + 2)) < due_time_micros_m x)"
proof (cases "timer_tasks_m s = []")
  case True
  then show ?thesis by (simp add: timer_woken_iteration [OF W(2) s(2,3)] ProcessTimerTasksUpTo_def)
next
  case False
  let ?s = "s\<lparr>env_calls := Suc (Suc (env_calls s)), timer_m := Cancel (timer_m s)\<rparr>"
  have "draining ?s" using s(1,3) by (auto simp: timers_ok_def draining_def)
  then obtain t posted where t: "RunDueTasks W exec ?s = Some t"
    "mset (timer_tasks_m t) = {#x \<in># mset (timer_tasks_m s). CurrentTimeMicros (steady_clock W (env_calls s + 2)) < due_time_micros_m x#} +
      mset posted"
    "\<forall>x \<in> set posted. CurrentTimeMicros (steady_clock W (env_calls s + 2)) < due_time_micros_m x"
    using RunDueTasks_exact [where exec = exec and s = ?s, OF A W(1) calls log] False by auto
  have "\<forall>x \<in># mset (timer_tasks_m t). CurrentTimeMicros (steady_clock W (env_calls s + 2)) < due_time_micros_m x"
    unfolding t(2) using t(3) by auto
  with t(1) False show ?thesis
    by (intro exI [of _ "ScheduleNextTimer W A t"]) (simp add: timer_woken_iteration [OF W(2) s(2,3)] ProcessTimerTasksUpTo_def)
qed

section \<open>Property\<close>



end
