(* ===== verification/TasksOnce.thy ===== *)
theory TasksOnce
  imports DelayedTasks
begin

text \<open>
  How often the Windows loop (\<^verbatim>\<open>src/event_loop_win.cc\<close> on \<^verbatim>\<open>src/event_loop.cc\<close>) executes a task over a whole history: the
  executions are counted against the copies that wait in the queue of posted tasks and in the timer queue.
\<close>

section \<open>Waiting copies\<close>

fun body_of :: "('u, 'd) closure \<Rightarrow> 'u" where
  "body_of (UserTask u) = u"
| "body_of (PostDelayedClosure u start_micros delay) = u"
| "body_of (BlockingClosure f e) = f"

definition waiting :: "'u \<Rightarrow> ('u, 'd, 'l, 'z) EventLoopWin_scheme \<Rightarrow> nat" where
  "waiting u s = count_list (map body_of (pending_m s)) u + count_list (map task_m (timer_tasks_m s)) u"

text \<open>
  Histories in which nobody posts \<open>u\<close>: the calls between the iterations do not make it wait once more, and other threads post other
  tasks.  \<open>client_run\<close> is the history without these conditions.
\<close>

inductive run_without ::
  "'u \<Rightarrow> 'a win_api_scheme \<Rightarrow> ('d, 'b) absl_duration_scheme
     \<Rightarrow> ('u \<Rightarrow> ('u, 'd, 'l, 'z) EventLoopWin_scheme \<Rightarrow> ('u, 'd, 'l, 'z) EventLoopWin_scheme)
     \<Rightarrow> ('l \<Rightarrow> u64 \<Rightarrow> u8 \<Rightarrow> ('u, 'd, 'l, 'z) EventLoopWin_scheme \<Rightarrow> ('u, 'd, 'l, 'z) EventLoopWin_scheme)
     \<Rightarrow> ('u, 'd, 'l, 'z) EventLoopWin_scheme \<Rightarrow> ('u, 'd, 'l, 'z) EventLoopWin_scheme \<Rightarrow> bool"
  for u W A exec on_event where
  rw_start: "run_without u W A exec on_event s s"
| rw_iteration: "run_without u W A exec on_event s t \<Longrightarrow> RunEventLoopOnce W A exec on_event d t = Some t'
     \<Longrightarrow> run_without u W A exec on_event s t'"
| rw_calls: "run_without u W A exec on_event s t \<Longrightarrow> loop_calls W A t t' \<Longrightarrow> EventLoopWin.more t' = EventLoopWin.more t
     \<Longrightarrow> waiting u t' \<le> waiting u t \<Longrightarrow> run_without u W A exec on_event s t'"
| rw_post: "run_without u W A exec on_event s t \<Longrightarrow> body_of c \<noteq> u
     \<Longrightarrow> run_without u W A exec on_event s (PostTask self WakeUp c t)"
| rw_fire: "run_without u W A exec on_event s t \<Longrightarrow> mm_timer_id_m (timer_m t) \<noteq> 0
     \<Longrightarrow> run_without u W A exec on_event s (t\<lparr>timer_m := (timer_m t)\<lparr>event_m := True\<rparr>\<rparr>)"

lemma run_without_client_run: "run_without u W A exec on_event s t \<Longrightarrow> client_run W A exec on_event s t"
  by (induction rule: run_without.induct) (auto intro: client_run.intros)

section \<open>Counting\<close>

text \<open>What has been executed and what still waits.\<close>

definition tally :: "'u \<Rightarrow> ('u, 'd, 'l, 'u list) EventLoopWin_scheme \<Rightarrow> nat" where
  "tally u s = count_list (EventLoopWin.more s) u + waiting u s"

lemma tally_same:
  "timer_frame s t \<Longrightarrow> pending_m t = pending_m s \<Longrightarrow> EventLoopWin.more t = EventLoopWin.more s \<Longrightarrow> tally u t = tally u s"
  by (simp add: tally_def waiting_def timer_frame_def)

lemma count_list_mset: "count_list xs u = count (mset xs) u"
  by (induction xs) auto

lemma tally_exec:
  assumes "EventLoopWin.more (exec v s) = EventLoopWin.more s @ [v]" and "waiting u (exec v s) \<le> waiting u s"
  shows "tally u (exec v s) \<le> tally u s + (if v = u then 1 else 0)"
  using assms by (auto simp: tally_def)

lemma tally_PostDelayed:
  "tally u (PostDelayedTaskOnTaskQueue W A v st d s) = tally u s + (if v = u then 1 else 0)"
proof -
  have "task_m (posted_info W A n v st d) = v" for n by (simp add: posted_info_def DelayedTaskInfo_new_def)
  then show ?thesis by (auto simp: tally_def waiting_def count_list_mset)
qed

lemma destroy_pending [simp]: "pending_m (destroy c s) = pending_m s"
  by (simp add: destroy_def split: closure.split)

lemma tally_destroy [simp]: "tally u (destroy c s) = tally u s"
  for s :: "('u, 'd, 'l, 'u list) EventLoopWin_scheme"
  by (rule tally_same [OF timer_frame_destroy destroy_pending destroy_more])

lemma tally_PostTask: "body_of c \<noteq> u \<Longrightarrow> tally u (PostTask self WakeUp c s) \<le> tally u s"
  for s :: "('u, 'd, 'l, 'u list) EventLoopWin_scheme"
  by (simp add: loop_defs PostTask_def PostTaskImpl_def WakeUp_def) (simp add: tally_def waiting_def)

text \<open>One closure, then the whole queue of posted tasks.\<close>

lemma tally_closure:
  assumes "\<And>v s. EventLoopWin.more (exec v s) = EventLoopWin.more s @ [v]" and "\<And>v s. waiting u (exec v s) \<le> waiting u s"
  shows "tally u (run_closure W A exec c s) \<le> tally u s + (if body_of c = u then 1 else 0)"
  using tally_exec [of exec, OF assms] by (cases c) (simp_all add: run_closure_def tally_PostDelayed)

lemma tally_closures:
  assumes "\<And>v s. EventLoopWin.more (exec v s) = EventLoopWin.more s @ [v]" and "\<And>v s. waiting u (exec v s) \<le> waiting u s"
  shows "tally u (fold (\<lambda>c s. destroy c (run_closure W A exec c s)) cs s) \<le> tally u s + count_list (map body_of cs) u"
proof (induction cs arbitrary: s)
  case (Cons c cs)
  have "tally u (run_closure W A exec c s) \<le> tally u s + (if body_of c = u then 1 else 0)"
    by (rule tally_closure [OF assms])
  with Cons [of "destroy c (run_closure W A exec c s)"] show ?case by (auto split: if_splits)
qed simp

lemma tally_pending:
  assumes "\<And>v s. EventLoopWin.more (exec v s) = EventLoopWin.more s @ [v]" and "\<And>v s. waiting u (exec v s) \<le> waiting u s"
  shows "tally u (ProcessPendingTasks W A exec s) \<le> tally u s"
proof -
  let ?s = "s\<lparr>wakeup_ev_m := False\<rparr>"
  have "tally u (?s\<lparr>pending_m := []\<rparr>) + count_list (map body_of (pending_m s)) u = tally u s"
    by (simp add: tally_def waiting_def)
  moreover have "tally u ?s = tally u s" by (simp add: tally_def waiting_def)
  ultimately show ?thesis
    using tally_closures [of exec u W A "pending_m s" "?s\<lparr>pending_m := []\<rparr>", OF assms]
    by (simp add: ProcessPendingTasks_def RunPendingTasks_def)
qed

text \<open>Due tasks: the one that ran is the one that is popped.\<close>

lemma run_due_pops:
  assumes A: "absl_duration_ok A" and mono: "clock_mono W" and calls: "\<And>u s. loop_calls W A s (exec u s)"
    and s: "draining s" "timer_tasks_m s \<noteq> []" "now \<le> micros_at W (env_calls s)" "due_time_micros_m (pq_top (timer_tasks_m s)) \<le> now"
  defines "s1 \<equiv> exec (task_m (pq_top (timer_tasks_m s))) s"
  shows "add_mset (pq_top (timer_tasks_m s)) (mset (pq_pop (timer_tasks_m s1))) = mset (timer_tasks_m s1)"
proof -
  let ?q = "timer_tasks_m s"
  obtain xs where q1: "timer_tasks_m s1 = fold pq_push xs ?q" and later: "\<And>x. x \<in> set xs \<Longrightarrow> now < due_time_micros_m x"
    using loop_calls_queue [OF calls A mono, of s "task_m (pq_top ?q)"] s(3) unfolding s1_def by fastforce
  have wf: "pq_wf ?q" and ne: "mset ?q \<noteq> {#}" using s(1,2) by (simp_all add: draining_def)
  have "mset (pq_pop (fold pq_push xs ?q)) = (mset ?q - {#pq_top ?q#}) + mset xs"
    by (rule pq.run_then_pop [OF wf ne]) (use later s(4) in fastforce)
  then show ?thesis using pq.top_in [OF wf ne] pq.elems_fold_push [of xs ?q] by (simp add: q1)
qed

lemma tally_run_due:
  assumes A: "absl_duration_ok A" and mono: "clock_mono W" and calls: "\<And>u s. loop_calls W A s (exec u s)"
    and log: "\<And>v s. EventLoopWin.more (exec v s) = EventLoopWin.more s @ [v]" and none: "\<And>v s. waiting u (exec v s) \<le> waiting u s"
  shows "draining s \<Longrightarrow> timer_tasks_m s \<noteq> [] \<Longrightarrow> now \<le> micros_at W (env_calls s) \<Longrightarrow> run_due exec now s = Some t
    \<Longrightarrow> tally u t \<le> tally u s"
proof (induction "size {#x \<in># mset (timer_tasks_m s). due_time_micros_m x \<le> now#}" arbitrary: s rule: less_induct)
  case (less s)
  let ?x = "pq_top (timer_tasks_m s)"
  let ?s1 = "exec (task_m ?x) s"
  let ?s2 = "?s1\<lparr>timer_tasks_m := pq_pop (timer_tasks_m ?s1)\<rparr>"
  show ?case
  proof (cases "due_time_micros_m ?x \<le> now")
    case False
    with less.prems(4) show ?thesis by (simp add: run_due.simps [of exec now s] Let_def)
  next
    case True
    obtain d2: "draining ?s2" and e2: "env_calls s \<le> env_calls ?s2"
      and due2: "{#x \<in># mset (timer_tasks_m s). due_time_micros_m x \<le> now#} =
        add_mset ?x {#x \<in># mset (timer_tasks_m ?s2). due_time_micros_m x \<le> now#}"
      and run: "run_due exec now s = (if timer_tasks_m ?s2 \<noteq> [] then run_due exec now ?s2 else Some ?s2)"
      by (rule run_due_step [where exec = exec, OF A mono calls less.prems(1-3) True])
    have "tally u ?s2 + (if task_m ?x = u then 1 else 0) = tally u ?s1"
      using arg_cong [OF run_due_pops [where exec = exec, OF A mono calls less.prems(1-3) True],
          where f = "\<lambda>M. count (image_mset task_m M) u"]
      by (auto simp: tally_def waiting_def count_list_mset split: if_splits)
    with tally_exec [of exec, OF log none, of "task_m ?x" s] have s2: "tally u ?s2 \<le> tally u s" by simp
    have "tally u t \<le> tally u ?s2" if "timer_tasks_m ?s2 \<noteq> []"
    proof (rule less.hyps [OF _ d2 that])
      show "now \<le> micros_at W (env_calls ?s2)" using less.prems(3) micros_at_mono [OF mono e2] by (rule order_trans)
    qed (use that less.prems(4) run due2 in simp_all)
    with s2 run less.prems(4) show ?thesis by (cases "timer_tasks_m ?s2 = []") auto
  qed
qed

lemma process_registration_pending: "pending_m (snd (process_registration W p rs)) = pending_m (snd rs)"
  unfolding process_registration_def DispatchSocketEvent_def
  by (auto simp: Let_def upd_reg_def count_call_def split: prod.split option.split)

lemma fold_process_pending: "pending_m (snd (fold (process_registration W) es rs)) = pending_m (snd rs)"
  by (induction es arbitrary: rs) (simp_all add: process_registration_pending)

lemma tally_collect: "tally u (snd (collect_ready W s)) = tally u s"
  by (rule tally_same [OF timer_frame_collect _ collect_ready_more]) (simp add: collect_ready_def fold_process_pending)

lemma tally_sockets:
  assumes "\<And>lst fd evs s. EventLoopWin.more (on_event lst fd evs s) = EventLoopWin.more s"
    and "\<And>lst fd evs s. waiting u (on_event lst fd evs s) \<le> waiting u s"
  shows "tally u (ProcessSocketEvents W on_event s) \<le> tally u s"
proof (rule ProcessSocketEvents_keeps [where P = "\<lambda>t. tally u t \<le> tally u s"])
  show "tally u (on_event lst fd evs t) \<le> tally u s" if "tally u t \<le> tally u s" for lst fd evs t
    using that assms(2) [of lst fd evs t] by (simp add: tally_def assms(1))
qed (simp_all add: tally_collect, simp add: tally_def waiting_def)

lemma tally_fields: "tally u (count_call s) = tally u s" "tally u (s\<lparr>socket_ev_m := b\<rparr>) = tally u s"
  for s :: "('u, 'd, 'l, 'u list) EventLoopWin_scheme"
  by (simp_all add: tally_def waiting_def count_call_def)

lemma tally_ScheduleNextTimer: "tally u (ScheduleNextTimer W A s) = tally u s"
  by (auto simp: tally_def waiting_def ScheduleNextTimer_def StartOneShotTimer_def dcheck_def count_call_def read_micros_eq Let_def)

lemma tally_timer:
  assumes A: "absl_duration_ok A" and mono: "clock_mono W" and calls: "\<And>u s. loop_calls W A s (exec u s)"
    and log: "\<And>v s. EventLoopWin.more (exec v s) = EventLoopWin.more s @ [v]" and none: "\<And>v s. waiting u (exec v s) \<le> waiting u s"
    and s: "timers_ok s" "event_m (timer_m s)" and run: "ProcessTimerTasksUpTo W A exec now s = Some t"
  shows "tally u t \<le> tally u s"
proof (cases "timer_tasks_m s = []")
  case True
  with run show ?thesis by (simp add: ProcessTimerTasksUpTo_def)
next
  case False
  let ?s = "s\<lparr>timer_m := Cancel (timer_m s), env_calls := Suc (env_calls s)\<rparr>"
  obtain v where v: "run_due exec (micros_at W (env_calls s)) ?s = Some v" and t: "t = ScheduleNextTimer W A v"
    using run False by (auto simp: ProcessTimerTasksUpTo_def RunDueTasks_eq)
  have "draining ?s" using s by (auto simp: timers_ok_def draining_def)
  from tally_run_due [where exec = exec, OF A mono calls log none this _ _ v] False micros_at_mono [OF mono, of "env_calls s" "Suc (env_calls s)"]
  have "tally u v \<le> tally u ?s" by simp
  then show ?thesis by (simp add: t tally_ScheduleNextTimer) (simp add: tally_def waiting_def)
qed

lemma tally_iteration:
  assumes A: "absl_duration_ok A" and mono: "clock_mono W" and wait: "wait_ok W" and calls: "\<And>u s. loop_calls W A s (exec u s)"
    and log: "\<And>v s. EventLoopWin.more (exec v s) = EventLoopWin.more s @ [v]"
      "\<And>lst fd evs s. EventLoopWin.more (on_event lst fd evs s) = EventLoopWin.more s"
    and none: "\<And>v s. waiting u (exec v s) \<le> waiting u s" "\<And>lst fd evs s. waiting u (on_event lst fd evs s) \<le> waiting u s"
    and ok: "timers_ok s" and run: "RunEventLoopOnce W A exec on_event d s = Some t"
  shows "tally u t \<le> tally u s"
proof -
  have timer: "tally u t \<le> tally u s"
    if "ProcessTimerTasksUpTo W A exec now (s\<lparr>env_calls := Suc (Suc (env_calls s))\<rparr>) = Some t" "event_m (timer_m s)" for now
    using tally_timer [where exec = exec, OF A mono calls log(1) none(1) _ _ that(1)] ok that(2)
    by (simp add: timers_ok_fields tally_def waiting_def)
  have sock: "tally u (ProcessSocketEvents W on_event (count_call s)) \<le> tally u s"
    using tally_sockets [of on_event u W "count_call s", OF log(2) none(2)] by (simp add: tally_fields)
  have pend: "tally u (ProcessPendingTasks W A exec (count_call s)) \<le> tally u s"
    using tally_pending [of exec u W A "count_call s", OF log(1) none(1)] by (simp add: tally_fields)
  from wait run [symmetric] show ?thesis
    by (rule RunEventLoopOnce_cases) (use timer sock pend in \<open>auto simp: tally_fields\<close>)
qed

lemma tally_run:
  assumes "run_without u W A exec on_event s t"
    and A: "absl_duration_ok A" and mono: "clock_mono W" and wait: "wait_ok W" and timer: "\<And>n ms. SetTimer W n ms \<noteq> 0"
    and calls: "\<And>u s. loop_calls W A s (exec u s)" "\<And>lst fd evs s. loop_calls W A s (on_event lst fd evs s)"
    and log: "\<And>v s. EventLoopWin.more (exec v s) = EventLoopWin.more s @ [v]"
      "\<And>lst fd evs s. EventLoopWin.more (on_event lst fd evs s) = EventLoopWin.more s"
    and none: "\<And>v s. waiting u (exec v s) \<le> waiting u s" "\<And>lst fd evs s. waiting u (on_event lst fd evs s) \<le> waiting u s"
    and "timers_ok s"
  shows "tally u t \<le> tally u s"
  using assms(1,12)
proof induction
  case (rw_iteration s t d t')
  have "timers_ok t"
    using client_inv_run [OF run_without_client_run [OF rw_iteration.hyps(1)] A mono wait timer calls log rw_iteration.prems]
    by (simp add: client_inv_def)
  from tally_iteration [OF A mono wait calls(1) log none this rw_iteration.hyps(2)] rw_iteration.IH [OF rw_iteration.prems]
  show ?case by (rule order_trans)
next
  case (rw_calls s t t')
  then show ?case by (simp add: tally_def)
next
  case (rw_post s t c self)
  from tally_PostTask [OF rw_post.hyps(2)] rw_post.IH [OF rw_post.prems] show ?case by (rule order_trans)
next
  case (rw_fire s t)
  then show ?case by (simp add: tally_def waiting_def)
qed simp

section \<open>Property\<close>



end
