(* ===== verification/SocketIteration.thy ===== *)
theory SocketIteration
  imports LoopIntegration
begin

text \<open>
  Whole iterations of the Windows loop (\<^verbatim>\<open>src/event_loop_win.cc\<close>) that the sockets wake: \<^verbatim>\<open>RunEventLoopOnce\<close>,
  \<^verbatim>\<open>ProcessSocketEvents\<close>, \<^verbatim>\<open>DispatchSocketEvent\<close> and \<^verbatim>\<open>RunReadyCallbacks\<close> together, from the network events the system reports
  to the calls of the listeners; and which of the loop's three events is served when several are signalled.
\<close>

section \<open>What listeners leave of registrations\<close>

text \<open>Registrations go away or keep their listeners, and addresses are not used again.\<close>

definition kept :: "('u, 'd, 'l, 'z) EventLoopWin_scheme \<Rightarrow> ('u, 'd, 'l, 'z) EventLoopWin_scheme \<Rightarrow> bool" where
  "kept s t \<longleftrightarrow> next_reg s \<le> next_reg t \<and>
     (\<forall>rid < next_reg s. \<forall>r'. reg_heap t rid = Some r' \<longrightarrow>
        (\<exists>r. reg_heap s rid = Some r \<and> listener r' = listener r))"

lemma kept_refl [simp, intro]: "kept s s"
  by (simp add: kept_def)

lemma kept_trans:
  assumes "kept s t" and "kept t u"
  shows "kept s u"
  unfolding kept_def
proof (intro conjI allI impI)
  show "next_reg s \<le> next_reg u" using assms by (simp add: kept_def)
  fix rid r'' assume "rid < next_reg s" and u: "reg_heap u rid = Some r''"
  with assms(1) have "rid < next_reg t" by (simp add: kept_def)
  with assms(2) u obtain r' where "reg_heap t rid = Some r'" "listener r'' = listener r'" by (auto simp: kept_def)
  with assms(1) \<open>rid < next_reg s\<close> show "\<exists>r. reg_heap s rid = Some r \<and> listener r'' = listener r"
    by (fastforce simp: kept_def)
qed

lemma kept_same: "next_reg t = next_reg s \<Longrightarrow> reg_heap t = reg_heap s \<Longrightarrow> kept s t"
  by (simp add: kept_def)

lemma kept_freed: "kept s t \<Longrightarrow> freed rid s \<Longrightarrow> freed rid t"
  by (fastforce simp: kept_def freed_def)

lemma kept_upd_reg: "(\<And>r. listener (f r) = listener r) \<Longrightarrow> kept s (upd_reg rid f s)"
  by (auto simp: kept_def upd_reg_def split: option.splits if_splits)

lemma kept_erase: "kept s (snd (erase_registration fd s))"
  by (auto simp: kept_def erase_registration_def split: sum.split option.split if_splits)

lemma kept_count_call [simp]: "kept s (count_call s)"
  by (rule kept_same) simp_all

text \<open>As far as the registrations are concerned, code on the loop's thread only makes socket calls.\<close>

lemma PostDelayed_own_thread_regs:
  "reg_frame t (PostDelayedTaskWithPrecision prec A (steady_clock W) (thread_id_m t) WakeUp
     (PostDelayedTaskOnTaskQueue W A) u delay t)"
  using reg_frame_PostDelayed [of "t\<lparr>env_calls := Suc (env_calls t)\<rparr>" W A u "micros_at W (env_calls t)" delay]
    reg_frame_PostTask [of "t\<lparr>env_calls := Suc (env_calls t)\<rparr>" "thread_id_m t" "UserTask u"]
  unfolding PostDelayed_own_thread_eq by (auto simp: reg_frame_def)

lemma loop_calls_reg_induct [consumes 1, case_names start frame register unregister rearm artificial]:
  assumes "loop_calls W A s t" and "P s" and "\<And>t r. P t \<Longrightarrow> reg_frame t r \<Longrightarrow> P r"
    and "\<And>t fd evs lst. P t \<Longrightarrow> P (snd (RegisterSocket W fd evs lst t))" and "\<And>t fd. P t \<Longrightarrow> P (snd (UnregisterSocket W fd t))"
    and "\<And>t fd evs. P t \<Longrightarrow> P (snd (RearmSocket W fd evs t))" and "\<And>t fd evs. P t \<Longrightarrow> P (snd (ArtificiallyNotifyEvent fd evs t))"
  shows "P t"
  using assms(1,2)
proof induction
  case (lc_data s t f)
  then show ?case using assms(3) [of t] by (simp add: reg_frame_def)
qed (auto intro: assms(3) [OF _ reg_frame_PostTask] assms(3) [OF _ reg_frame_Quit] assms(3) [OF _ PostDelayed_own_thread_regs] assms(4-7))

lemma kept_socket_ops:
  "kept s (snd (RegisterSocket W fd evs lst s))" "kept s (snd (UnregisterSocket W fd s))"
  "kept s (snd (RearmSocket W fd evs s))" "kept s (snd (ArtificiallyNotifyEvent fd evs s))"
proof -
  have new: "kept s (s\<lparr>next_reg := Suc (next_reg s), registrations_m := m, reg_heap := (reg_heap s)(next_reg s \<mapsto> r)\<rparr>)" for m r
    by (auto simp: kept_def)
  have "kept s (s\<lparr>next_reg := Suc (next_reg s)\<rparr>)" by (auto simp: kept_def)
  then show "kept s (snd (RegisterSocket W fd evs lst s))"
    using kept_trans [OF kept_trans [OF new kept_count_call] kept_erase] kept_trans [OF new kept_count_call]
    by (auto simp: RegisterSocket_def Let_def split: prod.split)
  show "kept s (snd (UnregisterSocket W fd s))"
    using kept_trans [OF kept_count_call kept_erase, of s fd] by (auto simp: UnregisterSocket_def split: prod.split)
  have "kept s (count_call (upd_reg rid (\<lambda>r. r\<lparr>events := events r OR evs\<rparr>) s))" for rid
    by (rule kept_trans [OF kept_upd_reg kept_count_call]) simp
  then show "kept s (snd (RearmSocket W fd evs s))" by (simp add: RearmSocket_def Let_def split: option.split)
  have "kept s ((upd_reg rid f (s\<lparr>has_artificial_events_pending_m := True\<rparr>))\<lparr>socket_ev_m := True\<rparr>)"
    if "\<And>r. listener (f r) = listener r" for rid f
    using kept_upd_reg [OF that, where s = s and rid = rid] by (simp add: kept_def upd_reg_def)
  then show "kept s (snd (ArtificiallyNotifyEvent fd evs s))"
    by (simp add: ArtificiallyNotifyEvent_def Let_def split: option.split)
qed

lemma kept_calls: "loop_calls W A s t \<Longrightarrow> kept s t"
proof (induction rule: loop_calls_reg_induct)
  case (frame t r)
  then show ?case by (auto intro: kept_trans kept_same simp: reg_frame_def)
qed (auto intro: kept_trans kept_socket_ops)

section \<open>The callbacks of one iteration\<close>

text \<open>The calls of listeners are logged behind the loop's record: listener, socket, events.\<close>

definition delivery :: "('u, 'd, 'l, 'z) EventLoopWin_scheme \<Rightarrow> ReadyListEntry \<Rightarrow> 'l \<times> u64 \<times> u8" where
  "delivery s e = (listener (the (reg_heap s (entry_registration e))), entry_fd e, entry_events e)"

lemma run_ready_entry_log:
  assumes calls: "\<And>l fd evs s. loop_calls W A s (on_event l fd evs s)"
    and log: "\<And>l fd evs s. EventLoopWin.more (on_event l fd evs s) = EventLoopWin.more s @ [(l, fd, evs)]"
    and s: "kept s0 s" and e: "entry_registration e < next_reg s0"
  defines "t \<equiv> run_ready_entry on_event e s"
  shows "kept s t" and "EventLoopWin.more t = EventLoopWin.more s @ [delivery s0 e] \<or>
    freed (entry_registration e) t \<and> EventLoopWin.more t = EventLoopWin.more s"
proof -
  show "kept s t"
    unfolding t_def run_ready_entry_def using kept_calls [OF calls] by (auto split: option.split)
  show "EventLoopWin.more t = EventLoopWin.more s @ [delivery s0 e] \<or>
    freed (entry_registration e) t \<and> EventLoopWin.more t = EventLoopWin.more s"
  proof (cases "reg_heap s (entry_registration e)")
    case None
    then show ?thesis using s e by (simp add: t_def run_ready_entry_def freed_def kept_def)
  next
    case (Some r)
    with s e obtain r0 where "reg_heap s0 (entry_registration e) = Some r0" "listener r = listener r0"
      by (auto simp: kept_def)
    with Some show ?thesis by (simp add: t_def run_ready_entry_def delivery_def log)
  qed
qed

lemma callbacks_log:
  assumes calls: "\<And>l fd evs s. loop_calls W A s (on_event l fd evs s)"
    and log: "\<And>l fd evs s. EventLoopWin.more (on_event l fd evs s) = EventLoopWin.more s @ [(l, fd, evs)]"
  shows "kept s0 s \<Longrightarrow> \<forall>e \<in> set rl. entry_registration e < next_reg s0 \<Longrightarrow>
    \<exists>called. EventLoopWin.more (RunReadyCallbacks on_event rl s) = EventLoopWin.more s @ map (delivery s0) called \<and>
      subseq called rl \<and> kept s (RunReadyCallbacks on_event rl s) \<and>
      (\<forall>e \<in> set rl. e \<in> set called \<or> freed (entry_registration e) (RunReadyCallbacks on_event rl s))"
proof (induction rl arbitrary: s)
  case Nil
  show ?case by (auto simp: RunReadyCallbacks_def)
next
  case (Cons e rl)
  let ?t = "run_ready_entry on_event e s" and ?u = "RunReadyCallbacks on_event (e # rl) s"
  note step = run_ready_entry_log [where W = W and A = A and on_event = on_event and e = e, OF calls log Cons.prems(1)]
  have e: "entry_registration e < next_reg s0" using Cons.prems(2) by simp
  have u: "?u = RunReadyCallbacks on_event rl ?t" by (simp add: RunReadyCallbacks_def)
  obtain called where c: "EventLoopWin.more ?u = EventLoopWin.more ?t @ map (delivery s0) called" "subseq called rl"
    "kept ?t ?u" "\<forall>e \<in> set rl. e \<in> set called \<or> freed (entry_registration e) ?u"
    using Cons.IH [OF kept_trans [OF Cons.prems(1) step(1) [OF e]]] Cons.prems(2) unfolding u by auto
  have k: "kept s ?u" by (rule kept_trans [OF step(1) [OF e] c(3)])
  from step(2) [OF e] show ?case
  proof (elim disjE conjE)
    assume "EventLoopWin.more ?t = EventLoopWin.more s @ [delivery s0 e]"
    then show ?thesis using c k by (intro exI [of _ "e # called"]) auto
  next
    assume "freed (entry_registration e) ?t" "EventLoopWin.more ?t = EventLoopWin.more s"
    then show ?thesis using c k kept_freed [OF c(3)] by (intro exI [of _ called]) auto
  qed
qed

lemma kept_process: "kept (snd rs) (snd (process_registration W p rs))"
proof -
  have "kept s (upd_reg rid f (count_call s\<lparr>socket_ev_m := False\<rparr>))" if "\<And>r. listener (f r) = listener r"
    for s :: "('a, 'b, 'c, 'd) EventLoopWin_scheme" and rid f
    using that by (auto simp: kept_def upd_reg_def split: if_splits)
  moreover have "kept s (upd_reg i g (upd_reg rid f (count_call s\<lparr>socket_ev_m := False\<rparr>)))"
    if "\<And>r. listener (f r) = listener r" "\<And>r. listener (g r) = listener r"
    for s :: "('a, 'b, 'c, 'd) EventLoopWin_scheme" and rid i f g
    using that by (auto simp: kept_def upd_reg_def split: if_splits)
  ultimately show ?thesis
    by (auto simp: process_registration_def DispatchSocketEvent_def Let_def split: prod.split option.split)
qed

lemma kept_fold_process: "kept (snd rs) (snd (fold (process_registration W) es rs))"
proof (induction es arbitrary: rs)
  case (Cons p es)
  show ?case using kept_trans [OF kept_process Cons.IH] by simp
qed simp

lemma kept_collect: "kept s (snd (collect_ready W s))"
  using kept_fold_process [of "([], s)"] by (simp add: collect_ready_def)

text \<open>The iteration that only the sockets wake.\<close>

lemma socket_woken_iteration:
  assumes "prompt_wait W" and "\<not> wakeup_ev_m s" and "\<not> event_m (timer_m s)" and "socket_ev_m s"
  shows "RunEventLoopOnce W A exec on_event d s =
    Some ((ProcessSocketEvents W on_event (count_call s))\<lparr>socket_ev_m := False\<rparr>)"
proof -
  let ?evs = "[wakeup_ev_m s, event_m (timer_m s), socket_ev_m s]"
  let ?r = "WSAWaitForMultipleEvents W (env_calls s) ?evs (to_uint32 (ToCmsWait A (INFINITE W) d))"
  have r: "?r \<noteq> WSA_WAIT_FAILED W" "?r \<noteq> WSA_WAIT_TIMEOUT W"
    using assms(1) [unfolded prompt_wait_def, THEN conjunct2, rule_format, of ?evs "env_calls s"
        "to_uint32 (ToCmsWait A (INFINITE W) d)"] assms(4) by simp_all
  then obtain i where i: "?r = WSA_WAIT_EVENT_0 W + of_nat i" "i < length ?evs" "?evs ! i"
    using assms(1) unfolding prompt_wait_def wait_ok_def Let_def by metis
  have "i = 2" using i(2,3) assms(2,3) by (auto simp: less_Suc_eq numeral_2_eq_2)
  with i(1) have "?r = WSA_WAIT_EVENT_0 W + 2" by simp
  with r show ?thesis by (simp add: RunEventLoopOnce_def Let_def read_micros_def count_call_def)
qed

section \<open>Properties\<close>

text \<open>At position \<open>i\<close> of the registration order is a socket with registration \<open>r\<close> whose enumeration, in the iteration that starts
  in \<open>s\<close>, succeeds, and \<open>evs\<close> are the events that occurred or were requested artificially among those it is registered for.\<close>

definition occurs ::
  "'a win_api_scheme \<Rightarrow> ('u, 'd, 'l, 'z) EventLoopWin_scheme \<Rightarrow> nat \<Rightarrow> 'l Registration \<Rightarrow> u8 \<Rightarrow> bool" where
  "occurs W s i r evs \<longleftrightarrow>
     (let fd = fst (entries (registrations_m s) ! i); (result, ne) = WSAEnumNetworkEvents W (Suc (env_calls s) + i) fd
      in registration_of s fd = Some r \<and> result = 0 \<and> evs \<noteq> 0 \<and>
         evs = delivered W (network_revents W ne OR ucast (GetPollMask W (artificially_notify_at_next_iteration r))) (events r))"

lemma occurs_visit:
  assumes "reg_inv s" and "i < length (entries (registrations_m s))"
  shows "occurs W s i r evs \<longleftrightarrow> r = the (reg_heap s (snd (entries (registrations_m s) ! i))) \<and> evs \<noteq> 0 \<and>
    evs = fst (visit W (Suc (env_calls s) + i) (fst (entries (registrations_m s) ! i)) r)"
  using entry_registration_of(2) [OF assms]
  by (cases "WSAEnumNetworkEvents W (Suc (env_calls s) + i) (fst (entries (registrations_m s) ! i))")
    (auto simp: occurs_def visit_def Let_def)

lemma ready_occurs:
  assumes W: "poll_consts_ok W" and inv: "reg_inv s"
  shows "(\<exists>e \<in> set (fst (collect_ready W (count_call s))). entry_registration e = rid \<and> delivery s e = x) \<longleftrightarrow>
    (\<exists>i < length (entries (registrations_m s)). \<exists>r evs. occurs W s i r evs \<and>
       rid = snd (entries (registrations_m s) ! i) \<and> x = (listener r, fst (entries (registrations_m s) ! i), evs))"
proof -
  let ?es = "entries (registrations_m s)"
  have rl: "fst (collect_ready W (count_call s)) = ready_of W (Suc (env_calls s)) ?es (reg_heap s)"
    using fst_collect_ready [OF W reg_inv_count_call [OF inv]] by simp
  have "(\<exists>e \<in> set (fst (collect_ready W (count_call s))). entry_registration e = rid \<and> delivery s e = x) \<longleftrightarrow>
    (\<exists>i < length ?es. \<exists>evs. evs \<noteq> 0 \<and> evs = fst (visit W (Suc (env_calls s) + i) (fst (?es ! i)) (the (reg_heap s (snd (?es ! i))))) \<and>
       rid = snd (?es ! i) \<and> x = (listener (the (reg_heap s (snd (?es ! i)))), fst (?es ! i), evs))" (is "?l = ?r")
  proof
    assume ?l
    then show ?r unfolding rl Bex_def set_ready_of delivery_def by fastforce
  next
    assume ?r
    then obtain i evs where "i < length ?es" "evs \<noteq> 0"
      "evs = fst (visit W (Suc (env_calls s) + i) (fst (?es ! i)) (the (reg_heap s (snd (?es ! i)))))" "rid = snd (?es ! i)"
      "x = (listener (the (reg_heap s (snd (?es ! i)))), fst (?es ! i), evs)" by blast
    then show ?l
      unfolding rl Bex_def set_ready_of delivery_def
      by (intro exI [of _ "\<lparr>entry_fd = fst (?es ! i), entry_registration = rid, entry_events = evs\<rparr>"]) auto
  qed
  moreover have "(\<exists>r evs. occurs W s i r evs \<and> rid = snd (?es ! i) \<and> x = (listener r, fst (?es ! i), evs)) \<longleftrightarrow>
      (\<exists>evs. evs \<noteq> 0 \<and> evs = fst (visit W (Suc (env_calls s) + i) (fst (?es ! i)) (the (reg_heap s (snd (?es ! i))))) \<and>
       rid = snd (?es ! i) \<and> x = (listener (the (reg_heap s (snd (?es ! i)))), fst (?es ! i), evs))"
    if "i < length ?es" for i
    unfolding occurs_visit [OF inv that] by blast
  ultimately show ?thesis by (simp only: cong: conj_cong)
qed

lemma ready_addresses:
  assumes "poll_consts_ok W" and "reg_inv s" and "e \<in> set (fst (collect_ready W s))"
  shows "entry_registration e < next_reg s"
proof -
  obtain i where i: "i < length (entries (registrations_m s))" "entry_registration e = snd (entries (registrations_m s) ! i)"
    using assms(3) unfolding fst_collect_ready [OF assms(1,2)] set_ready_of by blast
  obtain r where "reg_heap s (entry_registration e) = Some r"
    using registered_live [OF assms(2) entry_registration_of(1) [OF assms(2) i(1)]] i(2) by auto
  with reg_invD(5) [OF assms(2)] show ?thesis by auto
qed

text \<open>What one iteration's socket processing logs.\<close>

lemma sockets_log:
  assumes W: "poll_consts_ok W" and inv: "reg_inv s" and calls: "\<And>l fd evs s. loop_calls W A s (on_event l fd evs s)"
    and log: "\<And>l fd evs s. EventLoopWin.more (on_event l fd evs s) = EventLoopWin.more s @ [(l, fd, evs)]"
  shows "\<exists>called. EventLoopWin.more (ProcessSocketEvents W on_event s) = EventLoopWin.more s @ map (delivery s) called \<and>
    subseq called (fst (collect_ready W s)) \<and>
    (\<forall>e \<in> set (fst (collect_ready W s)). e \<in> set called \<or> freed (entry_registration e) (ProcessSocketEvents W on_event s))"
proof -
  obtain rl t where c: "collect_ready W s = (rl, t)" by (cases "collect_ready W s")
  let ?t = "t\<lparr>has_artificial_events_pending_m := False\<rparr>"
  have k: "kept s ?t" using kept_trans [OF kept_collect [of s W]] kept_same [of ?t t] c by auto
  have m: "EventLoopWin.more ?t = EventLoopWin.more s" using collect_ready_more [of W s] c by simp
  have "\<forall>e \<in> set rl. entry_registration e < next_reg s" using ready_addresses [OF W inv] c by simp
  from callbacks_log [where W = W and A = A and on_event = on_event, OF calls log k this]
  obtain called where r: "EventLoopWin.more (RunReadyCallbacks on_event rl ?t) = EventLoopWin.more s @ map (delivery s) called"
    "subseq called rl" "\<forall>e \<in> set rl. e \<in> set called \<or> freed (entry_registration e) (RunReadyCallbacks on_event rl ?t)"
    unfolding m by blast
  show ?thesis
  proof (cases "lhm_empty (registrations_m s) \<or> rl = []")
    case False
    then show ?thesis using r c by (intro exI [of _ called]) (simp add: ProcessSocketEvents_def)
  next
    case True
    then have "rl = []" using c by (auto simp: lhm_empty_def collect_ready_def entries_def)
    then show ?thesis using m c by (intro exI [of _ "[]"]) (auto simp: ProcessSocketEvents_def)
  qed
qed



text \<open>Socket 5, registered for reading and writing, has data: its listener 9 hears that it is readable.\<close>

definition readable_wait_api :: win_api where
  "readable_wait_api = ready_api\<lparr>WSAEnumNetworkEvents := \<lambda>n fd. (0, \<lparr>lNetworkEvents = 1, connect_error = 0\<rparr>)\<rparr>"

definition logging_socket :: "(nat, micros, nat, (nat \<times> u64 \<times> u8) list) EventLoopWin_scheme" where
  "logging_socket = (EventLoopWin.extend one_socket [])\<lparr>socket_ev_m := True\<rparr>"

lemma logging_socket_facts:
  "reg_inv logging_socket" "entries (registrations_m logging_socket) = [(5, 0)]" "env_calls logging_socket = 1"
  "registration_of logging_socket 5 = Some \<lparr>events = 3, listener = 9, artificially_notify_at_next_iteration = 0\<rparr>"
  "\<not> wakeup_ev_m logging_socket" "\<not> event_m (timer_m logging_socket)" "socket_ev_m logging_socket"
  "EventLoopWin.more logging_socket = []"
proof -
  have same: "registrations_m logging_socket = registrations_m one_socket" "reg_heap logging_socket = reg_heap one_socket"
    "next_reg logging_socket = next_reg one_socket" "ub_reached logging_socket = ub_reached one_socket"
    "env_calls logging_socket = env_calls one_socket" "wakeup_ev_m logging_socket = wakeup_ev_m one_socket"
    "timer_m logging_socket = timer_m one_socket"
    by (simp_all add: logging_socket_def EventLoopWin.extend_def)
  show "reg_inv logging_socket" using one_socket_facts(1) by (simp add: reg_inv_def same)
  show "registration_of logging_socket 5 = Some \<lparr>events = 3, listener = 9, artificially_notify_at_next_iteration = 0\<rparr>"
    using one_socket_registration by (simp add: registration_of_def same)
  have "\<not> wakeup_ev_m one_socket" "\<not> event_m (timer_m one_socket)"
    by (simp_all add: one_socket_eq add_registration_def) (simp_all add: idle_loop_eq)
  then show "\<not> wakeup_ev_m logging_socket" "\<not> event_m (timer_m logging_socket)" by (simp_all add: same)
qed (simp_all add: logging_socket_def EventLoopWin.extend_def one_socket_facts)


section \<open>Which event is served\<close>

primrec iterations ::
  "'a win_api_scheme \<Rightarrow> ('d, 'b) absl_duration_scheme
     \<Rightarrow> ('u \<Rightarrow> ('u, 'd, 'l, 'z) EventLoopWin_scheme \<Rightarrow> ('u, 'd, 'l, 'z) EventLoopWin_scheme)
     \<Rightarrow> ('l \<Rightarrow> u64 \<Rightarrow> u8 \<Rightarrow> ('u, 'd, 'l, 'z) EventLoopWin_scheme \<Rightarrow> ('u, 'd, 'l, 'z) EventLoopWin_scheme)
     \<Rightarrow> 'd \<Rightarrow> nat \<Rightarrow> ('u, 'd, 'l, 'z) EventLoopWin_scheme \<Rightarrow> ('u, 'd, 'l, 'z) EventLoopWin_scheme option" where
  "iterations W A exec on_event d 0 s = Some s"
| "iterations W A exec on_event d (Suc n) s = Option.bind (RunEventLoopOnce W A exec on_event d s) (iterations W A exec on_event d n)"

text \<open>The wait reports the first signalled event and an iteration serves only that one: a task that posts itself
  keeps the wake-up event signalled, and then however many iterations run, no timer and no socket is served.\<close>

lemma busy_task_starves:
  assumes W: "prompt_wait W" and exec: "\<And>s. exec u s = PostTask (thread_id_m s) WakeUp (UserTask u) s"
    and s: "running_m s" "wakeup_ev_m s" "pending_m s = [UserTask u]"
  shows "\<exists>t. iterations W A exec on_event d n s = Some t \<and> wakeup_ev_m t \<and> timer_tasks_m t = timer_tasks_m s \<and>
    timer_m t = timer_m s \<and> socket_ev_m t = socket_ev_m s \<and> reg_heap t = reg_heap s \<and> EventLoopWin.more t = EventLoopWin.more s"
  using s
proof (induction n arbitrary: s)
  case (Suc n)
  let ?t = "ProcessPendingTasks W A exec (count_call s)"
  have "?t = s\<lparr>env_calls := Suc (env_calls s), pending_m := [UserTask u], wakeup_ev_m := True\<rparr>"
    using Suc.prems
    by (simp add: ProcessPendingTasks_def RunPendingTasks_def count_call_def run_closure_def exec PostTask_def PostTaskImpl_def
        IsQuitting_def WakeUp_def destroy_def)
  then have t: "running_m ?t" "wakeup_ev_m ?t" "pending_m ?t = [UserTask u]" "timer_tasks_m ?t = timer_tasks_m s"
    "timer_m ?t = timer_m s" "socket_ev_m ?t = socket_ev_m s" "reg_heap ?t = reg_heap s" "EventLoopWin.more ?t = EventLoopWin.more s"
    using Suc.prems(1) by simp_all
  from Suc.IH [OF t(1-3)] show ?case using t(4-8) by (simp add: woken_iteration [OF W Suc.prems(2)])
qed simp

end
