(* ===== verification/MapIterators.thy ===== *)
theory MapIterators
  imports LinkedHashMap
begin

text \<open>
  What \<^verbatim>\<open>src/linked_hash_map.h\<close> promises to whoever holds an iterator: the nodes of keys that stay in the map keep their
  addresses, their entries and their order, whatever is inserted or erased around them.
\<close>

section \<open>Histories of operations\<close>

text \<open>Any operation that changes the map and does not fault.\<close>

inductive map_op :: "('k, 'v) LinkedHashMap \<Rightarrow> ('k, 'v) LinkedHashMap \<Rightarrow> bool" where
  op_insert: "map_op m (fst (lhm_insert m p))"
| op_emplace: "map_op m (fst (emplace m p))"
| op_index: "map_op m (fst (index_op v0 m k))"
| op_erase: "erase_key m k = Inr (m', n) \<Longrightarrow> map_op m m'"
| op_erase_at: "erase_at m position = Inr (m', it) \<Longrightarrow> map_op m m'"
| op_erase_range: "erase_range m first_it last_it = Inr (m', it) \<Longrightarrow> map_op m m'"
| op_pop_front: "pop_front m = Inr (m', it) \<Longrightarrow> map_op m m'"
| op_clear: "map_op m (lhm_clear m)"

text \<open>Histories in which the keys of \<open>K\<close> are in the map all the time.\<close>

inductive keeps_keys :: "'k set \<Rightarrow> ('k, 'v) LinkedHashMap \<Rightarrow> ('k, 'v) LinkedHashMap \<Rightarrow> bool" for K m where
  kk_start: "(\<And>k. k \<in> K \<Longrightarrow> contains m k) \<Longrightarrow> keeps_keys K m m"
| kk_step: "keeps_keys K m t \<Longrightarrow> map_op t t' \<Longrightarrow> (\<And>k. k \<in> K \<Longrightarrow> contains t' k) \<Longrightarrow> keeps_keys K m t'"

definition nodes_of :: "'k set \<Rightarrow> ('k, 'v) LinkedHashMap \<Rightarrow> ('k, 'v) node list" where
  "nodes_of K m = filter (\<lambda>n. fst (snd n) \<in> K) (list_m m)"

section \<open>What an operation does to the nodes\<close>

text \<open>It appends a node with a new key, or takes nodes out.\<close>

definition appends_or_filters :: "('k, 'v) LinkedHashMap \<Rightarrow> ('k, 'v) LinkedHashMap \<Rightarrow> bool" where
  "appends_or_filters m m' \<longleftrightarrow>
     (\<exists>n. list_m m' = list_m m @ [n] \<and> map_m m (fst (snd n)) = None) \<or> (\<exists>P. list_m m' = filter P (list_m m))"

lemma filtered_nodes: "\<exists>P. list_m m' = filter P (list_m m) \<Longrightarrow> appends_or_filters m m'"
  by (simp add: appends_or_filters_def)

lemma same_nodes: "list_m m' = list_m m \<Longrightarrow> appends_or_filters m m'"
  unfolding appends_or_filters_def by (intro disjI2 exI [of _ "\<lambda>_. True"]) simp

lemma erase_at_filters: "erase_at m position = Inr (m', it) \<Longrightarrow> \<exists>P. list_m m' = filter P (list_m m)"
  by (auto simp: erase_at_def list_erase_def split: sum.splits option.splits if_splits)

lemma erase_range_filters: "erase_range m first_it last_it = Inr (m', it) \<Longrightarrow> \<exists>P. list_m m' = filter P (list_m m)"
proof (induction m first_it last_it arbitrary: m' it rule: erase_range.induct)
  case (1 m first_it last_it)
  show ?case
  proof (cases "first_it \<noteq> last_it \<and> first_it \<noteq> lhm_end m")
    case False
    with "1.prems" show ?thesis
      by (auto simp: erase_range.simps [of m first_it last_it] intro: exI [of _ "\<lambda>_. True"])
  next
    case True
    with "1.prems" obtain r where r: "erase_at m first_it = Inr r" "erase_range (fst r) (snd r) last_it = Inr (m', it)"
      by (auto simp: erase_range.simps [of m first_it last_it] split: sum.splits)
    obtain P Q where "list_m (fst r) = filter P (list_m m)" "list_m m' = filter Q (list_m (fst r))"
      using "1.IH" [OF True r] erase_at_filters [of m first_it "fst r" "snd r"] r(1) by auto
    then show ?thesis by (auto simp: filter_filter)
  qed
qed

lemma appends_node: "list_m m' = list_m m @ [(a, p)] \<Longrightarrow> map_m m (fst p) = None \<Longrightarrow> appends_or_filters m m'"
  unfolding appends_or_filters_def by (intro disjI1 exI [of _ "(a, p)"]) simp

lemma insert_nodes: "appends_or_filters m (fst (lhm_insert m p))"
  by (cases "map_m m (fst p)") (auto simp: lhm_insert_def InsertInternal_def intro: same_nodes appends_node)

lemma emplace_nodes: "appends_or_filters m (fst (emplace m p))"
  by (cases "map_m m (fst p)") (auto simp: emplace_def Let_def intro: same_nodes appends_node)

lemma erase_key_nodes: "erase_key m k = Inr (m', n) \<Longrightarrow> appends_or_filters m m'"
  by (auto simp: erase_key_def appends_or_filters_def list_erase_def split: option.splits intro: same_nodes)
    (auto intro: exI [of _ "\<lambda>_. True"])

lemma map_op_nodes: "map_op m m' \<Longrightarrow> appends_or_filters m m'"
proof (induction rule: map_op.induct)
  case (op_index m v0 k)
  show ?case using insert_nodes [of m "(k, v0)"] by (auto simp: index_op_def split: prod.split)
next
  case (op_clear m)
  show ?case unfolding appends_or_filters_def by (intro disjI2 exI [of _ "\<lambda>_. False"]) (simp add: lhm_clear_def)
qed (auto simp: pop_front_def intro: filtered_nodes erase_at_filters erase_range_filters insert_nodes emplace_nodes erase_key_nodes)

text \<open>Operations that succeed keep the map consistent: an iterator they accept is alive.\<close>

lemma erase_at_live_only: "erase_at m position = Inr r \<Longrightarrow> live m position"
  by (auto simp: erase_at_def deref_def live_def image_image split: sum.splits option.splits dest!: map_of_SomeD intro: rev_image_eqI)

lemma erase_at_inv: "erase_at m position = Inr (m', it) \<Longrightarrow> lhm_inv m \<Longrightarrow> lhm_inv m'"
  using erase_at_live [of m position] erase_at_live_only [of m position "(m', it)"] by auto

lemma erase_range_inv: "erase_range m first_it last_it = Inr (m', it) \<Longrightarrow> lhm_inv m \<Longrightarrow> lhm_inv m'"
proof (induction m first_it last_it arbitrary: m' it rule: erase_range.induct)
  case (1 m first_it last_it)
  show ?case
  proof (cases "first_it \<noteq> last_it \<and> first_it \<noteq> lhm_end m")
    case False
    with "1.prems" show ?thesis by (auto simp: erase_range.simps [of m first_it last_it])
  next
    case True
    with "1.prems"(1) obtain r where "erase_at m first_it = Inr r" "erase_range (fst r) (snd r) last_it = Inr (m', it)"
      by (auto simp: erase_range.simps [of m first_it last_it] split: sum.splits)
    with "1.IH" [OF True] erase_at_inv [of m first_it "fst r" "snd r"] "1.prems"(2) show ?thesis by auto
  qed
qed

lemma map_op_inv: "map_op m m' \<Longrightarrow> lhm_inv m \<Longrightarrow> lhm_inv m'"
proof (induction rule: map_op.induct)
  case (op_emplace m p)
  then show ?case using emplace_InsertInternal [of m p] by blast
qed (auto simp: pop_front_def intro: lhm_insert_inv index_op_inv erase_key_inv erase_at_inv erase_range_inv lhm_inv_clear)

text \<open>Nodes with keys that are in the map before and after are not touched.\<close>

lemma contains_node: "lhm_inv m \<Longrightarrow> contains m k \<longleftrightarrow> (\<exists>n \<in> set (list_m m). fst (snd n) = k)"
  using map_None_iff [of m k]
  by (auto simp: contains_def lhm_find_def lhm_end_def entries_def image_image split: option.splits)

lemma nodes_untouched:
  assumes inv: "lhm_inv m" "lhm_inv m'" and op: "appends_or_filters m m'"
    and K: "\<And>k. k \<in> K \<Longrightarrow> contains m k" "\<And>k. k \<in> K \<Longrightarrow> contains m' k"
  shows "nodes_of K m' = nodes_of K m"
  using op unfolding appends_or_filters_def
proof (elim disjE exE conjE)
  fix n assume n: "list_m m' = list_m m @ [n]" "map_m m (fst (snd n)) = None"
  then have "fst (snd n) \<notin> K" using K(1) by (fastforce simp: contains_def lhm_find_def)
  with n(1) show ?thesis by (simp add: nodes_of_def)
next
  fix P assume P: "list_m m' = filter P (list_m m)"
  have "P n" if n: "n \<in> set (list_m m)" "fst (snd n) \<in> K" for n
  proof -
    obtain n' where n': "n' \<in> set (list_m m)" "P n'" "fst (snd n') = fst (snd n)"
      using K(2) [OF n(2)] P by (auto simp: contains_node [OF inv(2)])
    have "inj_on (fst \<circ> snd) (set (list_m m))" using lhm_invD(3) [OF inv(1)] by (simp add: distinct_map)
    then have "n' = n" by (rule inj_onD) (use n' n(1) in simp_all)
    with n'(2) show ?thesis by simp
  qed
  then show ?thesis unfolding nodes_of_def P filter_filter by (intro filter_cong) auto
qed

lemma keeps_keys_nodes:
  assumes "keeps_keys K m m'" and "lhm_inv m"
  shows "lhm_inv m' \<and> (\<forall>k \<in> K. contains m' k) \<and> nodes_of K m' = nodes_of K m"
  using assms
proof (induction rule: keeps_keys.induct)
  case (kk_step t t')
  then have t: "lhm_inv t" "\<And>k. k \<in> K \<Longrightarrow> contains t k" "nodes_of K t = nodes_of K m" by auto
  have t': "lhm_inv t'" by (rule map_op_inv [OF kk_step.hyps(2) t(1)])
  from nodes_untouched [OF t(1) t' map_op_nodes [OF kk_step.hyps(2)] t(2) kk_step.hyps(3)] t(3) t' kk_step.hyps(3)
  show ?case by auto
qed simp

section \<open>Property\<close>

lemma find_in_nodes:
  assumes inv: "lhm_inv m" and "k \<in> K" and n: "(i, k, v) \<in> set (nodes_of K m)"
  shows "lhm_find m k = Some i" and "deref m (Some i) = Inr (k, v)"
proof -
  have n': "(i, k, v) \<in> set (list_m m)" using n by (simp add: nodes_of_def)
  then show "lhm_find m k = Some i"
    using index_of_in [OF lhm_invD(3) [OF inv]] by (simp add: lhm_find_def lhm_invD(1) [OF inv])
  show "deref m (Some i) = Inr (k, v)" using node_by_address [OF inv n'] by (simp add: deref_def)
qed

text \<open>C16. Iterators are stable: in any history of operations during which the keys of a set stay in the map, whatever is
  inserted, erased by key, by position or by range around them, \<^verbatim>\<open>find\<close> keeps returning the same iterator for each of them, it keeps
  pointing to the same entry, and they keep their order.\<close>

theorem iterators_stable:
  assumes "lhm_reachable m" and "keeps_keys K m m'"
  shows "filter (\<lambda>p. fst p \<in> K) (entries m') = filter (\<lambda>p. fst p \<in> K) (entries m) \<and>
    (\<forall>k \<in> K. \<exists>i v. lhm_find m k = Some i \<and> deref m (Some i) = Inr (k, v) \<and>
       lhm_find m' k = Some i \<and> deref m' (Some i) = Inr (k, v))"
proof -
  have inv: "lhm_inv m" by (rule lhm_reachable_inv [OF assms(1)])
  note kept = keeps_keys_nodes [OF assms(2) inv]
  have "filter (\<lambda>p. fst p \<in> K) (entries m) = map snd (nodes_of K m)" for m :: "('a, 'b) LinkedHashMap"
    by (simp add: entries_def nodes_of_def filter_map comp_def)
  with kept have "filter (\<lambda>p. fst p \<in> K) (entries m') = filter (\<lambda>p. fst p \<in> K) (entries m)" by simp
  moreover have "\<exists>i v. lhm_find m k = Some i \<and> deref m (Some i) = Inr (k, v) \<and>
       lhm_find m' k = Some i \<and> deref m' (Some i) = Inr (k, v)" if k: "k \<in> K" for k
  proof -
    obtain n where "n \<in> set (list_m m')" "fst (snd n) = k" using kept k contains_node [of m' k] by blast
    then have n: "(fst n, k, snd (snd n)) \<in> set (nodes_of K m')" using k by (cases n) (auto simp: nodes_of_def)
    from find_in_nodes [OF _ k n] find_in_nodes [OF inv k, of "fst n" "snd (snd n)"] n kept show ?thesis by auto
  qed
  ultimately show ?thesis by blast
qed

text \<open>Key 4 stays, between others that come and go.\<close>

theorem iterators_stable_witness:
  "lhm_find (fst (lhm_insert (fst (lhm_insert lhm_new (4 :: nat, ''a''))) (2, ''b''))) 4 =
   lhm_find (fst (lhm_insert lhm_new (4 :: nat, ''a''))) 4"
proof -
  let ?m = "fst (lhm_insert lhm_new (4 :: nat, ''a''))"
  let ?m' = "fst (lhm_insert ?m (2, ''b''))"
  have "lhm_reachable ?m"
    using lhm_reachable.ins [OF lhm_reachable.new, of "(4, ''a'')" ?m] by (metis prod.collapse)
  moreover have "keeps_keys {4} ?m ?m'"
    by (rule kk_step [OF kk_start op_insert])
      (simp_all add: contains_def lhm_find_def lhm_insert_def InsertInternal_def lhm_new_def lhm_end_def)
  ultimately show ?thesis using iterators_stable [of ?m "{4}" ?m', THEN conjunct2, THEN bspec, of 4] by auto
qed

end
