(* ===== verification/PollEpoll.thy ===== *)
theory PollEpoll
  imports Dispatchers
begin

text \<open>
  The two kernel interfaces \<^verbatim>\<open>src/event_loop_temp.cc\<close> waits with on POSIX, \<^verbatim>\<open>poll\<close> and \<^verbatim>\<open>epoll\<close>, compared: \<^verbatim>\<open>WaitPoll\<close> and
  \<^verbatim>\<open>WaitEpoll\<close> handle the same readiness alike.  Then what \<^verbatim>\<open>poll\<close> can report that \<^verbatim>\<open>ProcessPollEvents\<close> does not see.
\<close>

section \<open>The same readiness\<close>

text \<open>The flags of \<^verbatim>\<open>poll.h\<close> and \<^verbatim>\<open>sys/epoll.h\<close> have the same values on Linux, in 16 and in 32 bits.\<close>

definition flags_agree :: "('p, 'z) posix_api \<Rightarrow> bool" where
  "flags_agree S \<longleftrightarrow> linux_or_fuchsia S \<and>
     EPOLLIN S = ucast (POLLIN S) \<and> EPOLLPRI S = ucast (POLLPRI S) \<and> EPOLLOUT S = ucast (POLLOUT S) \<and>
     EPOLLRDHUP S = ucast (POLLRDHUP S) \<and> EPOLLERR S = ucast (POLLERR S) \<and> EPOLLHUP S = ucast (POLLHUP S)"

text \<open>What \<^verbatim>\<open>epoll_wait\<close> reports where \<^verbatim>\<open>poll\<close> reports \<open>result\<close> for the descriptors registered under \<open>keys\<close>: those that are ready.\<close>

definition ready_events :: "u64 list \<Rightarrow> u16 list \<Rightarrow> (u64 \<times> u32) list" where
  "ready_events keys revents = map (\<lambda>(k, r). (k, ucast r)) (filter (\<lambda>(k, r). r \<noteq> 0) (zip keys revents))"

fun as_epoll :: "u64 list \<Rightarrow> u16 list wait_result \<Rightarrow> (u64 \<times> u32) list wait_result" where
  "as_epoll keys (Error err) = Error err"
| "as_epoll keys Timeout = Timeout"
| "as_epoll keys (Ready revents) = Ready (ready_events keys revents)"

lemma ucast_test: "ucast r AND (ucast m :: u32) \<noteq> 0 \<longleftrightarrow> (r :: u16) AND m \<noteq> 0"
proof -
  have "ucast (ucast x :: u32) = x" for x :: u16 by (rule bit_word_eqI) (simp add: bit_simps)
  then have "(ucast x :: u32) = 0 \<longleftrightarrow> x = 0" for x :: u16 by (metis unsigned_0)
  then show ?thesis by (simp flip: unsigned_and_eq)
qed

lemma process_alike:
  assumes "flags_agree S"
  shows "process_epoll_event S D p (ucast r) = ProcessPollEvents S D p r"
  using assms ucast_test [of r "POLLIN S OR POLLPRI S"] ucast_test [of r "POLLOUT S"]
    ucast_test [of r "POLLRDHUP S OR POLLERR S OR POLLHUP S"]
  by (simp add: flags_agree_def process_epoll_event_def ProcessPollEvents_def fun_eq_iff unsigned_or_eq Let_def)

text \<open>A descriptor that is not ready is not handled.\<close>

lemma nothing_reported:
  assumes "r AND (POLLIN S OR POLLPRI S) = 0" "r AND POLLOUT S = 0" "r AND (POLLRDHUP S OR POLLERR S OR POLLHUP S) = 0"
    "r AND (POLLERR S OR POLLHUP S) = 0"
  shows "ProcessPollEvents S D p r s = s"
  using assms by (simp add: ProcessPollEvents_def ProcessEvents_def event_flags_def el_dcheck_def Let_def)

lemma handle_alike:
  assumes "flags_agree S"
  shows "fold (for_key (ProcessPollEvents S D)) (zip keys revents) s =
    fold (for_key (process_epoll_event S D)) (ready_events keys revents) s"
proof (induction "zip keys revents" arbitrary: keys revents s)
  case (Cons kr krs)
  then obtain k r keys' revents' where eqs: "keys = k # keys'" "revents = r # revents'" "kr = (k, r)" "krs = zip keys' revents'"
    by (cases keys; cases revents) auto
  have "for_key (ProcessPollEvents S D) (k, 0) s = s"
    using nothing_reported [of 0 S D] by (simp add: for_key_def split: option.split)
  then show ?case
    using Cons.hyps(1) [OF eqs(4)] by (auto simp: eqs ready_events_def for_key_def process_alike [OF assms] split: option.split)
qed (auto simp: ready_events_def)

lemma wait_alike:
  assumes "flags_agree S"
  shows "after_wait S (\<lambda>revents. fold (for_key (ProcessPollEvents S D)) (zip keys revents)) result s =
    after_wait S (fold (for_key (process_epoll_event S D))) (as_epoll keys result) s"
  by (cases result) (simp_all add: after_wait_def handle_alike [OF assms])

section \<open>The loops\<close>

text \<open>The dispatchers watched: none comes or goes.  \<open>epoll\<close> was told about them before, \<open>poll\<close> is told in every call.\<close>

definition watching :: "(u64 \<times> 'p) list \<Rightarrow> 'p \<Rightarrow> ('p, 'z) EvenLoop_scheme \<Rightarrow> bool" where
  "watching kvs sig s \<longleftrightarrow>
     dispatcher_by_key_m s = kvs \<and> current_dispatcher_keys_m s = map fst kvs \<and> signal_wakeup_m s = sig"

definition same_kernel :: "('p, 'z) posix_api \<Rightarrow> ('p, 'z) dispatcher_ops \<Rightarrow> (u64 \<times> 'p) list \<Rightarrow> 'p \<Rightarrow> bool" where
  "same_kernel S D kvs sig \<longleftrightarrow> flags_agree S \<and>
     (\<forall>n ms s. watching kvs sig s \<longrightarrow>
        epoll_wait S n ms = as_epoll (map fst kvs) (poll S n (map (\<lambda>kv. DispatcherToPollfd S D (snd kv) s) kvs) ms)) \<and>
     (\<forall>n s. watching kvs sig s \<longrightarrow> watching kvs sig (elapse S n s)) \<and>
     (\<forall>p ff err s. watching kvs sig s \<longrightarrow> watching kvs sig (on_event D p ff err s))"

lemma watching_fields [simp]:
  "watching kvs sig (el_call s) = watching kvs sig s" "watching kvs sig (el_dcheck b s) = watching kvs sig s"
  "watching kvs sig (s\<lparr>fWait_m := w\<rparr>) = watching kvs sig s" "watching kvs sig (Signaler_OnEvent ff err s) = watching kvs sig s"
  by (auto simp: watching_def el_call_def el_dcheck_def Signaler_OnEvent_def Let_def)

lemma watching_process:
  assumes "same_kernel S D kvs sig" and "watching kvs sig s"
  shows "watching kvs sig (process_epoll_event S D p evs s)"
proof -
  have "watching kvs sig (OnEvent D p ff err s)" if "watching kvs sig s" for ff err s
    using assms(1) that by (simp add: OnEvent_def same_kernel_def)
  then show ?thesis using assms(2) by (simp add: process_epoll_event_def ProcessEvents_def Let_def)
qed

lemma watching_handled:
  assumes "same_kernel S D kvs sig"
  shows "watching kvs sig s \<Longrightarrow> watching kvs sig (fold (for_key (process_epoll_event S D)) es s)"
proof (induction es arbitrary: s)
  case (Cons e es)
  have "watching kvs sig (for_key (process_epoll_event S D) e s)"
    using watching_process [OF assms Cons.prems] Cons.prems by (simp add: for_key_def split: option.split)
  then show ?case using Cons.IH by simp
qed simp

lemma once_watching:
  assumes "same_kernel S D kvs sig" and "watching kvs sig s"
  shows "watching kvs sig (snd (epoll_once S D m s))"
proof -
  have "watching kvs sig (elapse S n (el_call s))" for n using assms by (simp add: same_kernel_def)
  then show ?thesis
    using watching_handled [OF assms(1)] by (simp add: epoll_once_def after_wait_def Let_def split: wait_result.split)
qed

lemma once_alike:
  assumes k: "same_kernel S D kvs sig" and w: "watching kvs sig s"
  shows "poll_once S D True m s = epoll_once S D m s"
proof -
  have s: "s\<lparr>current_dispatcher_keys_m := map fst kvs\<rparr> = s" and snap: "snapshot True s = kvs"
    using w by (simp_all add: watching_def snapshot_def)
  have "watching kvs sig (elapse S (el_calls s) (el_call s))" using k w by (simp add: same_kernel_def)
  then have keys: "current_dispatcher_keys_m (elapse S (el_calls s) (el_call s)) = map fst kvs" by (simp add: watching_def)
  have ker: "epoll_wait S n ms = as_epoll (map fst kvs) (poll S n (map (\<lambda>kv. DispatcherToPollfd S D (snd kv) s) kvs) ms)" for n ms
    using k w by (simp add: same_kernel_def)
  have "after_wait S (\<lambda>revents s. fold (for_key (ProcessPollEvents S D)) (zip (current_dispatcher_keys_m s) revents) s) result s =
      after_wait S (\<lambda>revents. fold (for_key (ProcessPollEvents S D)) (zip (map fst kvs) revents)) result s" for result
    by (simp add: after_wait_def keys Let_def split: wait_result.split)
  moreover have "flags_agree S" using k by (simp add: same_kernel_def)
  ultimately show ?thesis
    using wait_alike [of S D "map fst kvs" _ s] by (simp add: poll_once_def epoll_once_def snap s ker)
qed

text \<open>An iteration of one is an iteration of the other, and the loops are the least solutions of the same equation.\<close>

lemma poll_loop_epoll_loop:
  assumes "poll_loop S' D' io cmsWait msStop m s = Some r"
  shows "S' = S \<and> D' = D \<and> io \<and> cmsWait = kForeverMs \<and> same_kernel S D kvs sig \<and> watching kvs sig s
    \<longrightarrow> epoll_loop S D cmsWait msStop m s = Some r"
proof (rule poll_loop.raw_induct [where P = "\<lambda>S' D' io cmsWait msStop m s r. S' = S \<and> D' = D \<and> io \<and> cmsWait = kForeverMs \<and>
    same_kernel S D kvs sig \<and> watching kvs sig s \<longrightarrow> epoll_loop S D cmsWait msStop m s = Some r", OF _ assms], intro impI, elim conjE)
  fix loop S' D' io cmsWait msStop m s r
  assume IH: "\<And>S' D' io cmsWait msStop m s r. loop S' D' io cmsWait msStop m s = Some r \<Longrightarrow>
      S' = S \<and> D' = D \<and> io \<and> cmsWait = kForeverMs \<and> same_kernel S D kvs sig \<and> watching kvs sig s
      \<longrightarrow> epoll_loop S D cmsWait msStop m s = Some r"
    and body: "(if \<not> fWait_m s then Some (True, s)
      else let kvs = snapshot io s; s = s\<lparr>current_dispatcher_keys_m := map fst kvs\<rparr>;
          pollfds = map (\<lambda>kv. DispatcherToPollfd S' D' (snd kv) s) kvs;
          (ret, s) = after_wait S' (\<lambda>revents s. fold (for_key (ProcessPollEvents S' D')) (zip (current_dispatcher_keys_m s) revents) s)
            (poll S' (el_calls s) pollfds (to_int32 m)) s
        in case ret of Some r \<Rightarrow> Some (r, s)
           | None \<Rightarrow> let (left, s) = time_left S' False cmsWait msStop m s
                in case left of None \<Rightarrow> Some (True, s) | Some msWait \<Rightarrow> loop S' D' io cmsWait msStop msWait s) = Some r"
    and eqs: "S' = S" "D' = D" io "cmsWait = kForeverMs" and k: "same_kernel S D kvs sig" and w: "watching kvs sig s"
  obtain ret t where o: "epoll_once S D m s = (ret, t)" by (cases "epoll_once S D m s")
  have "poll_once S D True m s = (ret, t)" using once_alike [OF k w] o by simp
  with body eqs have b: "(if \<not> fWait_m s then Some (True, s) else case ret of Some r \<Rightarrow> Some (r, t) | None \<Rightarrow> loop S D True cmsWait msStop m t) = Some r"
    by (auto simp: poll_once_def time_left_def Let_def split: if_splits option.splits)
  have "watching kvs sig t" using once_watching [OF k w, of m] o by simp
  with IH [of S D True cmsWait msStop m t] eqs k have "loop S D True cmsWait msStop m t = Some r \<Longrightarrow> epoll_loop S D cmsWait msStop m t = Some r"
    by simp
  with b show "epoll_loop S D cmsWait msStop m s = Some r"
    by (subst epoll_loop_iteration) (auto simp: timed_iteration_def time_left_def o eqs(4) split: if_splits option.splits)
qed


lemma epoll_loop_poll_loop:
  assumes "epoll_loop S' D' cmsWait msStop m s = Some r"
  shows "S' = S \<and> D' = D \<and> cmsWait = kForeverMs \<and> same_kernel S D kvs sig \<and> watching kvs sig s
    \<longrightarrow> poll_loop S D True cmsWait msStop m s = Some r"
proof (rule epoll_loop.raw_induct [where P = "\<lambda>S' D' cmsWait msStop m s r. S' = S \<and> D' = D \<and> cmsWait = kForeverMs \<and>
    same_kernel S D kvs sig \<and> watching kvs sig s \<longrightarrow> poll_loop S D True cmsWait msStop m s = Some r", OF _ assms], intro impI, elim conjE)
  fix loop S' D' cmsWait msStop m s r
  assume IH: "\<And>S' D' cmsWait msStop m s r. loop S' D' cmsWait msStop m s = Some r \<Longrightarrow>
      S' = S \<and> D' = D \<and> cmsWait = kForeverMs \<and> same_kernel S D kvs sig \<and> watching kvs sig s
      \<longrightarrow> poll_loop S D True cmsWait msStop m s = Some r"
    and body: "(if \<not> fWait_m s then Some (True, s)
      else let (ret, s) = after_wait S' (fold (for_key (process_epoll_event S' D'))) (epoll_wait S' (el_calls s) (to_int32 m)) s
        in case ret of Some r \<Rightarrow> Some (r, s)
           | None \<Rightarrow> let (left, s) = time_left S' True cmsWait msStop m s
                in case left of None \<Rightarrow> Some (True, s) | Some msWait \<Rightarrow> loop S' D' cmsWait msStop msWait s) = Some r"
    and eqs: "S' = S" "D' = D" "cmsWait = kForeverMs" and k: "same_kernel S D kvs sig" and w: "watching kvs sig s"
  obtain ret t where o: "epoll_once S D m s = (ret, t)" by (cases "epoll_once S D m s")
  have p: "poll_once S D True m s = (ret, t)" using once_alike [OF k w] o by simp
  from body eqs o have b: "(if \<not> fWait_m s then Some (True, s) else case ret of Some r \<Rightarrow> Some (r, t) | None \<Rightarrow> loop S D cmsWait msStop m t) = Some r"
    by (auto simp: epoll_once_def time_left_def Let_def split: if_splits option.splits)
  have "watching kvs sig t" using once_watching [OF k w, of m] o by simp
  with IH [of S D cmsWait msStop m t] eqs k have "loop S D cmsWait msStop m t = Some r \<Longrightarrow> poll_loop S D True cmsWait msStop m t = Some r"
    by simp
  with b show "poll_loop S D True cmsWait msStop m s = Some r"
    by (subst poll_loop_iteration) (auto simp: timed_iteration_def time_left_def p eqs(3) split: if_splits option.splits)
qed

lemma epoll_loop_done: "\<not> fWait_m s \<Longrightarrow> epoll_loop S D cmsWait msStop m s = Some (True, s)"
  by (simp add: epoll_loop.simps)

section \<open>What poll reports and nobody sees\<close>

text \<open>
  \<^verbatim>\<open>poll\<close> answers with the events it was asked for, and with errors.  \<^verbatim>\<open>DispatcherToPollfd\<close> never asks for \<^verbatim>\<open>POLLRDHUP\<close>, so the
  flag that \<^verbatim>\<open>ProcessPollEvents\<close> looks for is never set.
\<close>

lemma rdhup_never_reported:
  assumes honours: "r AND NOT (poll_events (DispatcherToPollfd S D p s) OR POLLERR S OR POLLHUP S OR nval) = 0"
    and distinct: "POLLRDHUP S AND (POLLIN S OR POLLOUT S OR POLLERR S OR POLLHUP S OR nval) = 0"
  shows "r AND POLLRDHUP S = 0"
proof -
  have "poll_events (DispatcherToPollfd S D p s) AND NOT (POLLIN S OR POLLOUT S) = 0"
    by (auto simp: DispatcherToPollfd_def Let_def bit_eq_iff bit_simps)
  with assms show ?thesis by (simp add: bit_eq_iff bit_simps) blast
qed

text \<open>
  For a descriptor that is not open \<^verbatim>\<open>poll\<close> reports \<^verbatim>\<open>POLLNVAL\<close>, at once and in every call, and \<^verbatim>\<open>ProcessPollEvents\<close> does not
  know the flag.  While a dispatcher has such a descriptor, a wait without a time-out calls nobody and never returns.
\<close>

definition unseen :: "('p, 'z) posix_api \<Rightarrow> u16 \<Rightarrow> bool" where
  "unseen S r \<longleftrightarrow> r AND (POLLIN S OR POLLPRI S OR POLLOUT S OR POLLRDHUP S OR POLLERR S OR POLLHUP S) = 0"

text \<open>A system on which \<^verbatim>\<open>poll\<close> reports nothing else, and no other thread stops the wait.\<close>

definition only_unseen :: "('p, 'z) posix_api \<Rightarrow> bool" where
  "only_unseen S \<longleftrightarrow> (\<forall>n fds ms. \<exists>rs. poll S n fds ms = Ready rs \<and> (\<forall>r \<in> set rs. unseen S r)) \<and>
     (\<forall>n s. fWait_m (elapse S n s) = fWait_m s)"

lemma unseen_nothing:
  assumes "unseen S r"
  shows "ProcessPollEvents S D p r s = s"
  using assms by (intro nothing_reported) (auto simp: unseen_def bit_eq_iff bit_simps)

lemma unseen_handled:
  assumes "\<And>r. r \<in> set rs \<Longrightarrow> unseen S r"
  shows "fold (for_key (ProcessPollEvents S D)) (zip keys rs) s = s"
  using assms
proof (induction keys arbitrary: rs)
  case (Cons k keys)
  then show ?case
    by (cases rs) (simp_all add: for_key_def unseen_nothing split: option.split)
qed simp

lemma poll_spins:
  assumes "poll_loop S' D' io cmsWait msStop m s = Some r"
  shows "S' = S \<and> cmsWait = kForeverMs \<and> fWait_m s \<longrightarrow> \<not> only_unseen S"
proof (rule poll_loop.raw_induct [where P = "\<lambda>S' D' io cmsWait msStop m s r. S' = S \<and> cmsWait = kForeverMs \<and> fWait_m s \<longrightarrow> \<not> only_unseen S",
    OF _ assms], intro impI notI, elim conjE)
  fix loop S' D' io cmsWait msStop m s r
  assume IH: "\<And>S' D' io cmsWait msStop m s r. loop S' D' io cmsWait msStop m s = Some r \<Longrightarrow> S' = S \<and> cmsWait = kForeverMs \<and> fWait_m s \<longrightarrow> \<not> only_unseen S"
    and body: "(if \<not> fWait_m s then Some (True, s)
      else let kvs = snapshot io s; s = s\<lparr>current_dispatcher_keys_m := map fst kvs\<rparr>;
          pollfds = map (\<lambda>kv. DispatcherToPollfd S' D' (snd kv) s) kvs;
          (ret, s) = after_wait S' (\<lambda>revents s. fold (for_key (ProcessPollEvents S' D')) (zip (current_dispatcher_keys_m s) revents) s)
            (poll S' (el_calls s) pollfds (to_int32 m)) s
        in case ret of Some r \<Rightarrow> Some (r, s)
           | None \<Rightarrow> let (left, s) = time_left S' False cmsWait msStop m s
                in case left of None \<Rightarrow> Some (True, s) | Some msWait \<Rightarrow> loop S' D' io cmsWait msStop msWait s) = Some r"
    and S: "S' = S" and c: "cmsWait = kForeverMs" and w: "fWait_m s"
    and only: "only_unseen S"
  have once: "\<exists>t. poll_once S D' io m s = (None, t) \<and> fWait_m t"
  proof -
    obtain rs where "poll S (el_calls s) (map (\<lambda>kv. DispatcherToPollfd S D' (snd kv) (s\<lparr>current_dispatcher_keys_m := map fst (snapshot io s)\<rparr>))
        (snapshot io s)) (to_int32 m) = Ready rs" "\<And>r. r \<in> set rs \<Longrightarrow> unseen S r" using only unfolding only_unseen_def by metis
    with only w show ?thesis by (simp add: poll_once_def after_wait_def unseen_handled Let_def el_call_def only_unseen_def)
  qed
  then obtain t where "poll_once S D' io m s = (None, t)" "fWait_m t" by blast
  with body S c w have "loop S D' io kForeverMs msStop m t = Some r"
    by (simp add: poll_once_def time_left_def Let_def)
  from IH [OF this] \<open>fWait_m t\<close> only show False by blast
qed

lemma closed_descriptor_spins:
  assumes "only_unseen S"
  shows "WaitPoll S D kForeverMs process_io s = None"
  using poll_spins [of S D process_io kForeverMs "- 1" "- 1" "s\<lparr>fWait_m := True\<rparr>" _ S] assms
  by (cases "poll_loop S D process_io kForeverMs (- 1) (- 1) (s\<lparr>fWait_m := True\<rparr>)") (auto simp: WaitPoll_def start_wait_def)

section \<open>Property\<close>


text \<open>A dispatcher that is readable and ends the wait.\<close>

definition both_api :: "(nat, unit) posix_api" where
  "both_api = linux_api\<lparr>epoll_wait := \<lambda>n ms. Ready [(3, 1)]\<rparr>"

definition stopping_dispatcher :: "(nat, unit) dispatcher_ops" where
  "stopping_dispatcher = no_dispatchers\<lparr>on_event := \<lambda>p ff err s. s\<lparr>fWait_m := False\<rparr>\<rparr>"

definition watched_loop :: "nat EvenLoop" where
  "watched_loop = (EvenLoop_new True 0)\<lparr>dispatcher_by_key_m := [(3, 8)], current_dispatcher_keys_m := [3]\<rparr>"


end
