(* ===== verification/CurrentTaskQueue.thy ===== *)
theory CurrentTaskQueue
  imports EventLoopBase YieldPolicy
begin

text \<open>
  \<^verbatim>\<open>src/task_queue_base.cc\<close>: the task queue a thread runs, as a variable of the thread that a
  \<^verbatim>\<open>CurrentTaskQueueSetter\<close> sets for its lifetime, on \<^verbatim>\<open>thread_local\<close> or on a pthread key.  The whole file is disabled by \<^verbatim>\<open>#if 0\<close>; what
  replaces it is the setter of \<^verbatim>\<open>src/task_queue_base.h\<close> (\<open>CurrentTaskQueueSetter\<close> of the theory \<open>EventLoopBase\<close>), which writes the thread into the
  queue, and does not undo that.  The theory shows what the disabled file does, and that \<^verbatim>\<open>EventLoop::Begin\<close> depends on its being disabled.
  Threads and task queues are numbers and addresses; a null queue is \<open>None\<close>.
\<close>

section \<open>The thread-local variable\<close>

definition Current :: "nat \<Rightarrow> 'q tls \<Rightarrow> 'q option" where
  "Current self current = current self"

definition Setter_new :: "nat \<Rightarrow> 'q option \<Rightarrow> 'q tls \<Rightarrow> 'q option \<times> 'q tls" where
  "Setter_new self task_queue current = (let previous = current self in (previous, current(self := task_queue)))"

definition Setter_delete :: "nat \<Rightarrow> 'q option \<Rightarrow> 'q tls \<Rightarrow> 'q tls" where
  "Setter_delete self previous current = current(self := previous)"

section \<open>The pthread key\<close>

text \<open>As for the yield policy: the state of \<^verbatim>\<open>init_once\<close>, the key, and the values under each key and thread.\<close>

record 'q queue_key =
  init_once_m :: bool
  g_queue_ptr_tls :: nat
  queue_values :: "nat \<Rightarrow> nat \<Rightarrow> 'q option"

definition Initialize_queue_tls :: "nat option \<Rightarrow> 'q queue_key \<Rightarrow> fault + 'q queue_key" where
  "Initialize_queue_tls key_create s =
     (case key_create of
        None \<Rightarrow> Inl CHECK_failed
      | Some key \<Rightarrow> Inr (s\<lparr>g_queue_ptr_tls := key, queue_values := (queue_values s)(key := (\<lambda>self. None))\<rparr>))"

definition GetQueuePtrTls :: "nat option \<Rightarrow> 'q queue_key \<Rightarrow> fault + nat \<times> 'q queue_key" where
  "GetQueuePtrTls key_create s =
     (if init_once_m s then Inr (g_queue_ptr_tls s, s)
      else map_sum id (\<lambda>s. (g_queue_ptr_tls s, s)) (Initialize_queue_tls key_create (s\<lparr>init_once_m := True\<rparr>)))"

definition Current_pthread :: "nat option \<Rightarrow> nat \<Rightarrow> 'q queue_key \<Rightarrow> fault + 'q option \<times> 'q queue_key" where
  "Current_pthread key_create self s =
     map_sum id (\<lambda>(key, s). (queue_values s key self, s)) (GetQueuePtrTls key_create s)"

definition set_queue :: "nat option \<Rightarrow> nat \<Rightarrow> 'q option \<Rightarrow> 'q queue_key \<Rightarrow> fault + 'q queue_key" where
  "set_queue key_create self task_queue s =
     map_sum id (\<lambda>(key, s). s\<lparr>queue_values := (queue_values s)(key := (queue_values s key)(self := task_queue))\<rparr>)
       (GetQueuePtrTls key_create s)"

definition Setter_new_pthread :: "nat option \<Rightarrow> nat \<Rightarrow> 'q option \<Rightarrow> 'q queue_key \<Rightarrow> fault + 'q option \<times> 'q queue_key" where
  "Setter_new_pthread key_create self task_queue s =
     (case Current_pthread key_create self s of
        Inl f \<Rightarrow> Inl f
      | Inr (previous, s) \<Rightarrow> map_sum id (Pair previous) (set_queue key_create self task_queue s))"

definition Setter_delete_pthread :: "nat option \<Rightarrow> nat \<Rightarrow> 'q option \<Rightarrow> 'q queue_key \<Rightarrow> fault + 'q queue_key" where
  "Setter_delete_pthread key_create self previous s = set_queue key_create self previous s"

lemmas setter_defs = Current_def Setter_new_def Setter_delete_def

lemmas queue_key_defs = Initialize_queue_tls_def GetQueuePtrTls_def Current_pthread_def set_queue_def
  Setter_new_pthread_def Setter_delete_pthread_def

section \<open>The two agree, and are scoped\<close>

definition abs_queue :: "'q queue_key \<Rightarrow> 'q tls" where
  "abs_queue s = (\<lambda>self. if init_once_m s then queue_values s (g_queue_ptr_tls s) self else None)"

lemma Current_pthread_abs:
  "\<exists>t. Current_pthread (Some key) self s = Inr (Current self (abs_queue s), t) \<and> abs_queue t = abs_queue s \<and> init_once_m t"
  by (auto simp: queue_key_defs setter_defs abs_queue_def fun_eq_iff)

lemma Setter_new_pthread_abs:
  "\<exists>t. Setter_new_pthread (Some key) self q s = Inr (fst (Setter_new self q (abs_queue s)), t) \<and>
     abs_queue t = snd (Setter_new self q (abs_queue s)) \<and> init_once_m t"
  by (auto simp: queue_key_defs setter_defs abs_queue_def fun_eq_iff)

lemma Setter_delete_pthread_abs:
  "init_once_m s \<Longrightarrow> \<exists>t. Setter_delete_pthread key self q s = Inr t \<and> abs_queue t = Setter_delete self q (abs_queue s)"
  by (auto simp: queue_key_defs setter_defs abs_queue_def fun_eq_iff)

text \<open>If the key cannot be created, the first use aborts.\<close>

lemma no_key: "\<not> init_once_m s \<Longrightarrow> Setter_new_pthread None self q s = Inl CHECK_failed"
  by (simp add: queue_key_defs)

interpretation current_queue: scoped_variable "Current self" "Setter_delete self" for self
  by unfold_locales (simp_all add: setter_defs)

text \<open>A block under a setter is a scope of the variable: \<open>current_queue.scope_restores\<close> and its companions hold of it.\<close>

lemma setter_scope:
  "(let (previous, tls) = Setter_new self q tls in Setter_delete self previous (body tls)) =
   scope (Current self) (Setter_delete self) q body tls"
  by (simp add: scope_def setter_defs Let_def)

section \<open>Begin\<close>

text \<open>
  \<^verbatim>\<open>Begin\<close> makes a setter that lives until it returns.  With the disabled file the thread would not run the loop afterwards, unless it
  did before; with the live setter it does, and nothing resets it.
\<close>

definition Begin_disabled :: "nat \<Rightarrow> 'q \<Rightarrow> 'q tls \<times> ('u, 'd, 'z) EventLoop_scheme \<Rightarrow> 'q tls \<times> ('u, 'd, 'z) EventLoop_scheme" where
  "Begin_disabled self q = (\<lambda>(tls, l).
     let (previous, tls) = Setter_new self (Some q) tls; l = l\<lparr>running_m := True\<rparr> in (Setter_delete self previous tls, l))"

lemma Begin_disabled_not_current: "fst (Begin_disabled self q (tls, l)) = tls"
  by (simp add: Begin_disabled_def setter_defs Let_def)

lemma Begin_current: "IsCurrent self (Begin self l)"
  by (simp add: loop_defs)

end
