(* ===== verification/TestMain.thy ===== *)
theory TestMain
  imports TestProgram Logging
begin

text \<open>
  The outer part of \<^verbatim>\<open>src/test_base.cc\<close>: \<^verbatim>\<open>main\<close>, the endless loops of its two threads, and the sink of the log.  What the other
  thread and the timer do between two turns of a loop is the argument \<open>others\<close>, any function of the number of the turn and the state.
  \<^verbatim>\<open>WSAStartup\<close> is given by its answer.
\<close>

section \<open>The threads\<close>

partial_function (option) Run_loop ::
  "u32 \<Rightarrow> (nat \<Rightarrow> 'd test_state \<Rightarrow> 'd test_state) \<Rightarrow> nat \<Rightarrow> 'd test_state \<Rightarrow> 'd test_state option" where
  "Run_loop self others n s = Run_loop self others (Suc n) (Run_body self (others n s))"

definition Run ::
  "u32 \<Rightarrow> (nat \<Rightarrow> 'd test_state \<Rightarrow> 'd test_state) \<Rightarrow> (test_task, 'd, unit) EventLoopWin \<Rightarrow> 'd test_state option" where
  "Run self others event_loop = Run_loop self others 0 (Test_new event_loop)"

partial_function (option) RunLoop_loop ::
  "'a win_api_scheme \<Rightarrow> ('d, 'b) absl_duration_scheme \<Rightarrow> u32 \<Rightarrow> (nat \<Rightarrow> 'd test_state \<Rightarrow> 'd test_state) \<Rightarrow> nat
     \<Rightarrow> 'd test_state \<Rightarrow> 'd test_state option" where
  "RunLoop_loop W A self others n s =
     (case RunLoop_body W A self (others n s) of None \<Rightarrow> None | Some s \<Rightarrow> RunLoop_loop W A self others (Suc n) s)"

definition RunLoop ::
  "'a win_api_scheme \<Rightarrow> ('d, 'b) absl_duration_scheme \<Rightarrow> u32 \<Rightarrow> (nat \<Rightarrow> 'd test_state \<Rightarrow> 'd test_state)
     \<Rightarrow> 'd test_state \<Rightarrow> 'd test_state option" where
  "RunLoop W A self others s = map_option Quit (RunLoop_loop W A self others 0 (RunLoop_start self s))"

section \<open>main\<close>

text \<open>The sink appends to what was printed; \<^verbatim>\<open>main\<close> ends with an exit code, or not at all.\<close>

definition OnLogMessage :: "LogSeverity \<Rightarrow> string \<Rightarrow> string \<Rightarrow> string" where
  "OnLogMessage level text_message cout = cout @ text_message"

definition test_main ::
  "int \<Rightarrow> u32 \<Rightarrow> (nat \<Rightarrow> 'd test_state \<Rightarrow> 'd test_state) \<Rightarrow> (test_task, 'd, unit) EventLoopWin
     \<Rightarrow> (int \<times> unit logging) option" where
  "test_main WSAStartup self others event_loop =
     (let log = InitializeLog INFO (Some ()) logging_new
      in if WSAStartup \<noteq> 0 then Some (1, log)
         else map_option (\<lambda>s. (0, DeInitializeLog log)) (Run self others event_loop))"

text \<open>Whatever is logged is printed, whatever its severity.\<close>

lemma everything_printed: "Send OnLogMessage severity text_message cout = cout @ text_message"
  by (simp add: Send_def OnLogMessage_def split: absl_severity.split)

text \<open>The loops have no exit: what follows them, the \<^verbatim>\<open>Quit\<close> of the loop and the end of \<^verbatim>\<open>main\<close>, is never reached.\<close>

lemma Run_loop_diverges: "Run_loop self others n s = None"
proof -
  have False if "Run_loop self others n s = Some r" for r
    by (rule Run_loop.raw_induct [of "\<lambda>_ _ _ _ _. False", OF _ that])
  then show ?thesis by (cases "Run_loop self others n s") auto
qed

lemma RunLoop_loop_diverges: "RunLoop_loop W A self others n s = None"
proof -
  have False if "RunLoop_loop W A self others n s = Some r" for r
    by (rule RunLoop_loop.raw_induct [of "\<lambda>_ _ _ _ _ _ _. False", OF _ that]) (simp split: option.splits)
  then show ?thesis by (cases "RunLoop_loop W A self others n s") auto
qed

lemma never_quits: "RunLoop W A self others s = None"
  by (simp add: RunLoop_def RunLoop_loop_diverges)

lemma main_never_returns: "test_main WSAStartup self others event_loop = (if WSAStartup \<noteq> 0 then
    Some (1, InitializeLog INFO (Some ()) logging_new) else None)"
  by (simp add: test_main_def Run_def Run_loop_diverges Let_def)

end
