(* ===== verification/Spec2Isabelle.thy ===== *)
theory Spec2Isabelle
  imports IO_Prelude LinkedHashMap TimeUtils EventLoopBase TimerQueue EventLoopWin WinSockets WinTimers LoopIntegration
    LoopThreads LoopRefinement TestProgram WaitEvent RecursiveLock Dispatchers SelectLoop SignalerPipe DispatchersWin StackTrace YieldPolicy
    Logging PlatformThread FunctionView BlockingThreads BlockingCalls BuildConfig LockVariants SocketInterface TimerIteration DelayedTasks TasksOnce
    SocketIteration MapIterators PollEpoll CurrentTaskQueue TestMain
begin

text \<open>
  A verification development of io_base, a C++ library of an event loop and the primitives it stands on.

  \<^bold>\<open>The program.\<close>  A thread owns an \<^verbatim>\<open>EventLoop\<close> (\<^verbatim>\<open>event_loop.h\<close>, \<^verbatim>\<open>event_loop.cc\<close>), which is a \<^verbatim>\<open>TaskQueueBase\<close>
  (\<^verbatim>\<open>task_queue_base.h\<close>).  Any thread posts tasks to it, with or without a delay, or calls it and waits for the
  result on an \<^verbatim>\<open>Event\<close> (\<^verbatim>\<open>event.h\<close>, \<^verbatim>\<open>event.cc\<close>).  \<^verbatim>\<open>EventLoopWin\<close> (\<^verbatim>\<open>event_loop_win.h\<close>, \<^verbatim>\<open>event_loop_win.cc\<close>) implements the loop on Windows: it
  waits for the wake-up event, the timer and the sockets, whose registrations are in a linked hash map
  (\<^verbatim>\<open>linked_hash_map.h\<close>), and reads the clock through \<^verbatim>\<open>time_utils.h\<close> and \<^verbatim>\<open>time_utils.cc\<close>.  A second loop, \<^verbatim>\<open>EvenLoop\<close>
  (\<^verbatim>\<open>event_loop_temp.h\<close>, \<^verbatim>\<open>event_loop_temp.cc\<close>), dispatches to \<^verbatim>\<open>Dispatcher\<close>s on Windows and on POSIX, under the recursive lock of
  \<^verbatim>\<open>recursive_critical_section.cc\<close>.  A wait calls the thread's yield policy (\<^verbatim>\<open>yield_policy.cc\<close>) and on Android prints a stack
  trace (\<^verbatim>\<open>stacktrace.cc\<close>) when it takes too long.

  \<^bold>\<open>The theories.\<close>
  \<^item> \<open>IO_Prelude\<close>: machine types, faults, C++ conversions and division, the interface of \<^verbatim>\<open>absl::Duration\<close>, lemmas on masks
    and association lists; the locales \<open>step_invariant\<close>, \<open>schedule\<close>, \<open>bounded_work\<close> (a measure
    that every step of the program's own decreases, so that it comes to rest) and \<open>scoped_variable\<close>.
  \<^item> \<open>LinkedHashMap\<close>: \<^verbatim>\<open>linked_hash_map.h\<close>.  Invariant, absence of faults, refinement of an ordered association list, and the
    contract \<open>ordered_map\<close>, interpreted on the operations, on which the Windows loop rests.  \<open>MapIterators\<close>: iterators to entries that
    stay are stable over any history of the map.
  \<^item> \<open>TimeUtils\<close>: \<^verbatim>\<open>time_utils.h\<close>, \<^verbatim>\<open>time_utils.cc\<close>.  Wrap-around of 32-bit time stamps.
  \<^item> \<open>EventLoopBase\<close>: \<^verbatim>\<open>task_queue_base.h\<close>, \<^verbatim>\<open>event_loop.h\<close>, \<^verbatim>\<open>event_loop.cc\<close>, whole operations as one thread sees them.  The record
    \<open>EventLoop\<close> is the class, the virtual members are arguments; the locale \<open>calling_loop\<close> says what a blocking call needs of them.
  \<^item> \<open>TimerQueue\<close>, \<open>EventLoopWin\<close>: \<^verbatim>\<open>event_loop_win.h\<close>, \<^verbatim>\<open>event_loop_win.cc\<close>.  The record \<open>EventLoopWin\<close> extends
    \<open>EventLoop\<close> as the class does.  \<open>min_queue\<close> is the contract of the priority queue.
  \<^item> \<open>WinSockets\<close>, \<open>WinTimers\<close>: the properties of the two halves of that loop: registration, dispatch, one-shot events; due
    tasks, arming of timers, the invariant over all histories.
  \<^item> \<open>SocketInterface\<close>: the socket operations of \<^verbatim>\<open>event_loop.h\<close> as an abstract registry of sockets, and the refinement of it by
    the Windows loop over every history of operations (locale \<open>socket_registry\<close>).
  \<^item> \<open>TimerIteration\<close>: one whole iteration of the Windows loop woken by its timer; the time-out of the next timer, and how a timer
    that fires a little early stops the loop's timers.  \<open>SocketIteration\<close>: one whole iteration woken by the sockets, whatever its
    listeners do to the registrations; and how a busy task starves timers and sockets.
  \<^item> \<open>DelayedTasks\<close>, \<open>TasksOnce\<close>: the tasks over whole histories of the loop: an account of what left the timer queue and what was
    executed, and a count of executions against posts.
  \<^item> \<open>LoopIntegration\<close>: from a post on any thread to the execution in the next iteration.
  \<^item> \<open>LoopThreads\<close>: posting, running and quitting cut at every access to shared state, as a step relation; \<open>LoopRefinement\<close>: the
    whole operations of \<open>EventLoopBase\<close> and \<open>EventLoopWin\<close> are interleavings of these steps.
  \<^item> \<open>BlockingThreads\<close>, \<open>BlockingCalls\<close>: blocking calls from any number of threads down to the mutex and the condition variable of
    their \<^verbatim>\<open>Event\<close>, interleaved with the loop and with \<^verbatim>\<open>Quit\<close>.  The first has the steps and their invariant, the second
    what follows of it: no access to a frame that is gone, and every call returns, by the measure \<open>working: bounded_work\<close>; with
    the one exception of a call that \<^verbatim>\<open>Quit\<close> strands in the queue.
  \<^item> \<open>TestProgram\<close>: \<^verbatim>\<open>test_base.cc\<close>, the periodic task of the test program as a client of the Windows loop.  \<open>TestMain\<close>: its \<^verbatim>\<open>main\<close>, the
    endless loops of its threads, and its log sink.
  \<^item> \<open>WaitEvent\<close>: \<^verbatim>\<open>event.h\<close>, \<^verbatim>\<open>event.cc\<close>.  The result of a wait, its termination, and the interleaving of threads.
  \<^item> \<open>RecursiveLock\<close>: \<^verbatim>\<open>recursive_critical_section.h\<close>, \<^verbatim>\<open>recursive_critical_section.cc\<close>.  The lock on a recursive mutex and the
    spinning lock of macOS, the latter as a step relation with mutual exclusion and no lost wake-up.  \<open>LockVariants\<close>: the release build
    and the Windows variant on a critical section; the contract \<open>reentrant_lock\<close>, interpreted on all three.
  \<^item> \<open>Dispatchers\<close>, \<open>SelectLoop\<close>, \<open>SignalerPipe\<close>, \<open>DispatchersWin\<close>: \<^verbatim>\<open>event_loop_temp.h\<close>, \<^verbatim>\<open>event_loop_temp.cc\<close>.  The signaler on an eventfd, a pipe and
    an event object, with the contract \<open>wake_signal\<close>; the loops on select, poll, epoll and
    \<^verbatim>\<open>WSAWaitForMultipleEvents\<close>; termination of waits with a time-out, and when the loop on select does not end.  \<open>PollEpoll\<close>: the
    loops on poll and on epoll handle the same readiness alike, and the flags of poll that nobody sees.
  \<^item> \<open>StackTrace\<close>: \<^verbatim>\<open>stacktrace.h\<close>, \<^verbatim>\<open>stacktrace.cc\<close>.  What a trace shows, the error paths, and a reader for the printed form.
  \<^item> \<open>YieldPolicy\<close>, \<open>Logging\<close>, \<open>PlatformThread\<close>, \<open>FunctionView\<close>: the files of these names.  \<open>CurrentTaskQueue\<close>: \<^verbatim>\<open>task_queue_base.cc\<close>, which
    \<^verbatim>\<open>#if 0\<close> disables, and why \<^verbatim>\<open>Begin\<close> needs it disabled.

  \<^item> \<open>BuildConfig\<close>: \<^verbatim>\<open>build_macros.h\<close> as a function on preprocessing states, the selections the other files make with its macros, and
    \<^verbatim>\<open>yield.cc\<close>.  It shows which variants above belong to which platform: the spinning lock is modelled although no build selects it.

  \<^bold>\<open>Conventions.\<close>  Definitions have the names of the source where HOL allows; a member \<^verbatim>\<open>x_\<close> is the field \<open>x_m\<close>; a Windows or
  Apple variant has a suffix.  A failed \<^verbatim>\<open>ABSL_CHECK\<close> and undefined behaviour are values of \<open>fault\<close>; a failed
  \<^verbatim>\<open>ABSL_DCHECK\<close> is recorded in the state and does not stop the run.  Machine integers are words where the code masks or wraps them, and
  integers with the conversion written out where it narrows.  Pointers are addresses of a store where identity matters
  (registrations, stack-trace buffers).

  \<^bold>\<open>Parameters.\<close>  Code that is not in the repository is an argument: the Windows API (\<open>win_api\<close>, \<open>winsock\<close>,
  \<open>event_api\<close>, \<open>critical_section_api\<close>), POSIX (\<open>posix_api\<close>, \<open>signal_api\<close>, \<open>thread_api\<close>, \<open>yield_api\<close>), the macros of system headers, durations (\<open>absl_duration\<close>), the unwinder and \<^verbatim>\<open>dladdr\<close>.  Their calls may answer
  differently each time: they are functions of the number of calls made so far.  User code
  (tasks, listeners, dispatchers) is an arbitrary state transformer.  What a property needs of them is a named predicate
  (\<open>absl_duration_ok\<close>, \<open>clock_mono\<close>, \<open>clock_nonneg\<close>, \<open>wait_ok\<close>, \<open>prompt_wait\<close>, \<open>steady\<close>, \<open>honest_wait\<close>, \<open>backtrace_ok\<close>,
  \<open>critical_section_ok\<close>), and every such property has
  an instance at a concrete system.

  \<^bold>\<open>Loops.\<close>  Loops over containers are folds.  A loop whose end depends on the system is a partial function with \<open>None\<close> for
  not returning: \<open>run_due\<close>, \<open>wait_loop\<close>, \<open>select_loop\<close>, \<open>poll_loop\<close>, \<open>epoll_loop\<close>, \<open>win_loop\<close>, \<open>AsyncSafe_Wait\<close>, \<open>Run_loop\<close>, \<open>RunLoop_loop\<close>.
  That they return is proved under the conditions that make it true.  No definition uses fuel.

  \<^bold>\<open>What modelling showed.\<close>  Among others: the poll flags passed to \<^verbatim>\<open>WSAEventSelect\<close>; closes that never reach a listener; notifications
  lost when they are requested by a callback; a fall-back timer nobody serves; the narrowing of time-outs; a data race and a task left behind
  by \<^verbatim>\<open>Quit\<close>; a blocking call that returns an uninitialised result; a wake-up no wait with I/O hears; a wait on select that outlives its deadline;
  a blocking call that never returns after \<^verbatim>\<open>Quit\<close>; a timer firing early, after which delayed tasks stop; a task that posts itself and so starves timers and sockets; a closed descriptor on which a wait spins;
  arguments a function view promises to take and cannot; Fuchsia, which the headers refuse; a signal handler left with a dangling
  pointer.  Each has a theorem or a lemma next to the code it concerns.

  \<^bold>\<open>Not modelled.\<close>  \<^verbatim>\<open>arraysize.h\<close> and \<^verbatim>\<open>unused.h\<close> are two macros without
  run-time behaviour.  What is left of the other files are declarations, include guards and
  comments.  Log messages are left out, and so are the locations and traits passed only to be ignored.
  The memory model is sequential consistency.

  \<^bold>\<open>Plan.\<close>  Every operation of the program has a definition.  Left to prove: histories of the dispatcher loops as of the Windows loop,
  where dispatchers come and go between waits; and several concurrent \<^verbatim>\<open>Quit\<close>s.
\<close>

end
